(* ===== verification/Prelude.thy ===== *)
theory Prelude
  imports Main "HOL-Library.Word"
begin

text \<open>
  Shared notions of the development: the machine integers of the code, the result of
  running a C++ function, and the generic lemmas on words, lists and checked array
  accesses that the components share.

  A C++ function either returns, or leaves defined behaviour (an access past the end of an
  array, a failed \<open>assert\<close>, a builtin called outside its domain), or does not return at
  all.  \<open>'a exec\<close> has one value for each: \<open>ret x\<close>, \<open>stop f\<close> and \<open>None\<close>.
\<close>

section \<open>Machine integers\<close>

type_synonym u32 = "32 word"
type_synonym u64 = "64 word"

section \<open>Results of running code\<close>

datatype fault =
    OutOfBounds      \<comment> \<open>an index past the end of a vector or an array\<close>
  | AssertFailed     \<comment> \<open>an \<open>assert\<close> whose condition is false\<close>
  | BadBuiltin       \<comment> \<open>\<open>__builtin_ctzll\<close> or \<open>__builtin_clzll\<close> applied to 0\<close>
  | BadIterator      \<comment> \<open>an iterator that does not point at an element\<close>
  | SignedOverflow   \<comment> \<open>arithmetic on a signed integer that leaves its range\<close>

type_synonym 'a exec = "(fault + 'a) option"

abbreviation ret :: "'a \<Rightarrow> 'a exec" where
  "ret x \<equiv> Some (Inr x)"

abbreviation stop :: "fault \<Rightarrow> 'a exec" where
  "stop f \<equiv> Some (Inl f)"

definition ebind :: "'a exec \<Rightarrow> ('a \<Rightarrow> 'b exec) \<Rightarrow> 'b exec" where
  "ebind m k = Option.bind m (\<lambda>r. case r of Inl f \<Rightarrow> stop f | Inr x \<Rightarrow> k x)"

named_theorems exec_simps

lemma ebind_ret [simp, exec_simps]: "ebind (ret x) k = k x"
  by (simp add: ebind_def)

lemma ebind_stop [simp, exec_simps]: "ebind (stop f) k = stop f"
  by (simp add: ebind_def)

lemma ebind_None [simp, exec_simps]: "ebind None k = None"
  by (simp add: ebind_def)

lemma ebind_ret_id: "ebind m ret = m"
  by (auto simp: ebind_def split: option.splits sum.splits bind_splits)

lemma ebind_assoc: "ebind (ebind m k) h = ebind m (\<lambda>x. ebind (k x) h)"
  by (auto simp: ebind_def split: option.splits sum.splits bind_splits)

lemma ebind_if [exec_simps]: "ebind (if c then m else m') k = (if c then ebind m k else ebind m' k)"
  by simp

lemma ebind_eq_ret: "ebind m k = ret y \<longleftrightarrow> (\<exists>x. m = ret x \<and> k x = ret y)"
  by (cases m) (auto simp: ebind_def split: sum.splits)

lemma ebind_mono [partial_function_mono]:
  assumes "mono_option B" and "\<And>y. mono_option (\<lambda>f. C y f)"
  shows "mono_option (\<lambda>f. ebind (B f) (\<lambda>y. C y f))"
  unfolding ebind_def
proof (rule bind_mono)
  show "mono_option B" by (rule assms(1))
  show "mono_option (\<lambda>f. case y of Inl e \<Rightarrow> stop e | Inr x \<Rightarrow> C x f)" for y
    by (cases y) (auto intro: assms(2) monotoneI option.leq_refl)
qed

text \<open>A run is safe for a property when it returns, and returns a value with the property.\<close>

definition returns :: "'a exec \<Rightarrow> ('a \<Rightarrow> bool) \<Rightarrow> bool" where
  "returns m P \<longleftrightarrow> (\<exists>x. m = ret x \<and> P x)"

lemma returns_ret [simp]: "returns (ret x) P = P x"
  by (simp add: returns_def)

lemma returns_stop [simp]: "\<not> returns (stop f) P"
  by (simp add: returns_def)

lemma returns_None [simp]: "\<not> returns None P"
  by (simp add: returns_def)

lemma returns_ebind: "returns (ebind m k) P \<longleftrightarrow> returns m (\<lambda>x. returns (k x) P)"
  by (auto simp: returns_def ebind_eq_ret)

lemma returns_mono: "returns m P \<Longrightarrow> (\<And>x. P x \<Longrightarrow> Q x) \<Longrightarrow> returns m Q"
  by (auto simp: returns_def)

lemma returns_ebindI: "returns m P \<Longrightarrow> (\<And>x. P x \<Longrightarrow> returns (k x) Q) \<Longrightarrow> returns (ebind m k) Q"
  by (auto simp: returns_def)

section \<open>Checked access to arrays\<close>

text \<open>
  \<open>xs[i]\<close> on a vector or an array: the access is undefined past the end.
\<close>

definition arr_get :: "'a list \<Rightarrow> nat \<Rightarrow> 'a exec" where
  "arr_get xs i = (if i < length xs then ret (xs ! i) else stop OutOfBounds)"

definition arr_set :: "'a list \<Rightarrow> nat \<Rightarrow> 'a \<Rightarrow> 'a list exec" where
  "arr_set xs i v = (if i < length xs then ret (xs[i := v]) else stop OutOfBounds)"

lemma arr_get_in [simp]: "i < length xs \<Longrightarrow> arr_get xs i = ret (xs ! i)"
  by (simp add: arr_get_def)

lemma arr_get_out [simp]: "length xs \<le> i \<Longrightarrow> arr_get xs i = stop OutOfBounds"
  by (simp add: arr_get_def)

lemma arr_set_in [simp]: "i < length xs \<Longrightarrow> arr_set xs i v = ret (xs[i := v])"
  by (simp add: arr_set_def)

lemma arr_set_out [simp]: "length xs \<le> i \<Longrightarrow> arr_set xs i v = stop OutOfBounds"
  by (simp add: arr_set_def)

text \<open>\<open>std::vector::resize\<close>: elements past the new size go, new ones are value-initialised.\<close>

definition vec_resize :: "'a \<Rightarrow> nat \<Rightarrow> 'a list \<Rightarrow> 'a list" where
  "vec_resize d n xs = take n xs @ replicate (n - length xs) d"

lemma length_vec_resize [simp]: "length (vec_resize d n xs) = n"
  by (simp add: vec_resize_def)

lemma vec_resize_Nil [simp]: "vec_resize d n [] = replicate n d"
  by (simp add: vec_resize_def)

section \<open>Word lemmas\<close>

lemma unat_u32_less [simp]: "unat (x :: u32) < 4294967296"
  using unsigned_less [of x] by simp

lemma unat_u64_less [simp]: "unat (x :: u64) < 18446744073709551616"
  using unsigned_less [of x] by simp

lemma unat_ucast_up [simp]: "unat (ucast (x :: u32) :: u64) = unat x"
  using unat_u32_less [of x] by (simp add: unsigned_ucast_eq take_bit_nat_eq_self del: unat_u32_less)

lemma unat_ucast_down [simp]:
  "unat (x :: u64) < 4294967296 \<Longrightarrow> unat (ucast x :: u32) = unat x"
  by (simp add: unsigned_ucast_eq take_bit_nat_eq_self)

lemma unat_of_nat_u32 [simp]: "n < 4294967296 \<Longrightarrow> unat (of_nat n :: u32) = n"
  by (simp add: unat_of_nat take_bit_nat_eq_self)

lemma unat_of_nat_u64 [simp]: "n < 18446744073709551616 \<Longrightarrow> unat (of_nat n :: u64) = n"
  by (simp add: unat_of_nat take_bit_nat_eq_self)

end
