(* ===== verification/Price_Index.thy ===== *)
theory Price_Index
  imports Prelude
begin

text \<open>
  The interface a book uses to keep track of its occupied price levels
  (\<open>bid_index\<close> and \<open>ask_index\<close> of \<open>FastBitsetOrderBook\<close>), as a locale: an index stands
  for a set of prices, and a best-price query returns its least or its greatest element.
  The lemmas of the matching loop about best prices are proved here once, from the
  interface alone; \<open>Price_Bitset\<close> interprets it by the code's hierarchical bitset.
\<close>

section \<open>The price ladder's size (\<open>constants.h\<close>)\<close>

definition MAX_PRICES :: nat where
  "MAX_PRICES = 100000"

section \<open>Price indices\<close>

text \<open>Runs of updates, on an index and on the set of prices it stands for.\<close>

datatype index_update = SetPrice u32 | ClearPrice u32

fun updated_price :: "index_update \<Rightarrow> u32" where
  "updated_price (SetPrice p) = p"
| "updated_price (ClearPrice p) = p"

fun run_updates :: "('i \<Rightarrow> u32 \<Rightarrow> 'i exec) \<Rightarrow> ('i \<Rightarrow> u32 \<Rightarrow> 'i exec) \<Rightarrow> index_update list \<Rightarrow> 'i \<Rightarrow> 'i exec" where
  "run_updates set_ix clear_ix [] ix = ret ix"
| "run_updates set_ix clear_ix (SetPrice p # us) ix = ebind (set_ix ix p) (run_updates set_ix clear_ix us)"
| "run_updates set_ix clear_ix (ClearPrice p # us) ix = ebind (clear_ix ix p) (run_updates set_ix clear_ix us)"

fun prices_after :: "index_update list \<Rightarrow> nat set \<Rightarrow> nat set" where
  "prices_after [] P = P"
| "prices_after (SetPrice p # us) P = prices_after us (insert (unat p) P)"
| "prices_after (ClearPrice p # us) P = prices_after us (P - {unat p})"

text \<open>What a best-price query on a set of prices answers.\<close>

definition is_lowest :: "nat set \<Rightarrow> u32 option \<Rightarrow> bool" where
  "is_lowest P r = (case r of None \<Rightarrow> P = {} | Some p \<Rightarrow> unat p \<in> P \<and> (\<forall>q \<in> P. unat p \<le> q))"

definition is_highest :: "nat set \<Rightarrow> u32 option \<Rightarrow> bool" where
  "is_highest P r = (case r of None \<Rightarrow> P = {} | Some p \<Rightarrow> unat p \<in> P \<and> (\<forall>q \<in> P. q \<le> unat p))"

locale price_index =
  fixes empty_ix :: "'i"
    and set_ix :: "'i \<Rightarrow> u32 \<Rightarrow> 'i exec"
    and clear_ix :: "'i \<Rightarrow> u32 \<Rightarrow> 'i exec"
    and lowest :: "'i \<Rightarrow> u32 option exec"
    and highest :: "'i \<Rightarrow> u32 option exec"
    and ok :: "'i \<Rightarrow> bool"
    and prices :: "'i \<Rightarrow> nat set"
  assumes ok_empty: "ok empty_ix"
    and prices_empty: "prices empty_ix = {}"
    and bounded: "ok ix \<Longrightarrow> q \<in> prices ix \<Longrightarrow> q < MAX_PRICES"
    and set_law: "ok ix \<Longrightarrow> unat p < MAX_PRICES \<Longrightarrow>
      returns (set_ix ix p) (\<lambda>ix'. ok ix' \<and> prices ix' = insert (unat p) (prices ix))"
    and clear_law: "ok ix \<Longrightarrow> unat p < MAX_PRICES \<Longrightarrow>
      returns (clear_ix ix p) (\<lambda>ix'. ok ix' \<and> prices ix' = prices ix - {unat p})"
    and lowest_law: "ok ix \<Longrightarrow> returns (lowest ix) (\<lambda>r. case r of
        None \<Rightarrow> prices ix = {}
      | Some p \<Rightarrow> unat p \<in> prices ix \<and> (\<forall>q \<in> prices ix. unat p \<le> q))"
    and highest_law: "ok ix \<Longrightarrow> returns (highest ix) (\<lambda>r. case r of
        None \<Rightarrow> prices ix = {}
      | Some p \<Rightarrow> unat p \<in> prices ix \<and> (\<forall>q \<in> prices ix. q \<le> unat p))"
begin

lemma finite_prices: "ok ix \<Longrightarrow> finite (prices ix)"
  by (rule finite_subset [of _ "{..<MAX_PRICES}"]) (auto intro: bounded)

text \<open>
  What \<open>match\<close> asks for: the best price on the side opposite to the incoming order is the
  lowest ask for a buy and the highest bid for a sell.
\<close>

lemma best_cases:
  assumes "ok ix"
  obtains (no_price) "(if is_buy then lowest ix else highest ix) = ret None" and "prices ix = {}"
  | (price) p where "(if is_buy then lowest ix else highest ix) = ret (Some p)"
      and "unat p \<in> prices ix" and "unat p < MAX_PRICES"
      and "\<And>q. q \<in> prices ix \<Longrightarrow> (if is_buy then unat p \<le> q else q \<le> unat p)"
proof -
  from lowest_law [OF assms] highest_law [OF assms]
  obtain l h where l: "lowest ix = ret l" and h: "highest ix = ret h"
    by (auto simp: returns_def)
  from lowest_law [OF assms] highest_law [OF assms] l h bounded [OF assms]
  show thesis
    using that by (cases is_buy; cases l; cases h) auto
qed

lemma run_updates_law:
  "ok ix \<Longrightarrow> \<forall>u \<in> set us. unat (updated_price u) < MAX_PRICES \<Longrightarrow>
   returns (run_updates set_ix clear_ix us ix) (\<lambda>ix'. ok ix' \<and> prices ix' = prices_after us (prices ix))"
proof (induction us arbitrary: ix)
  case (Cons u us)
  have rest: "returns (run_updates set_ix clear_ix us ix1) (\<lambda>ix'. ok ix' \<and> prices ix' = prices_after us P)"
    if "ok ix1 \<and> prices ix1 = P" for ix1 P
    using Cons.IH [of ix1] Cons.prems(2) that by simp
  show ?case
    using returns_ebindI [OF set_law [of ix "updated_price u"] rest] Cons.prems
      returns_ebindI [OF clear_law [of ix "updated_price u"] rest]
    by (cases u) simp_all
qed simp

text \<open>Clearing a price that is set makes the index smaller: the matching loop's variant.\<close>

lemma clear_shrinks:
  assumes "ok ix" and "unat p \<in> prices ix"
  shows "returns (clear_ix ix p) (\<lambda>ix'. ok ix' \<and> prices ix' = prices ix - {unat p} \<and>
    card (prices ix') < card (prices ix))"
proof -
  from assms have "unat p < MAX_PRICES" by (rule bounded)
  moreover have "card (prices ix - {unat p}) < card (prices ix)"
    using finite_prices [OF assms(1)] assms(2) by (rule card_Diff1_less)
  ultimately show ?thesis
    using clear_law [OF assms(1), of p] by (auto simp: returns_def)
qed

lemma set_again: "ok ix \<Longrightarrow> unat p \<in> prices ix \<Longrightarrow>
    returns (set_ix ix p) (\<lambda>ix'. ok ix' \<and> prices ix' = prices ix)"
  using set_law [of ix p] bounded [of ix "unat p"] by (auto simp: insert_absorb)

end

end
