(* ===== verification/Price_Bitset.thy ===== *)
theory Price_Bitset
  imports Price_Index
begin

text \<open>
  The hierarchical bitset of \<open>src/engine/price_bitset.h\<close>: one summary word \<open>l0\<close>, 25
  words \<open>l1\<close> and 1563 words \<open>l2\<close>, with a bit of a coarse level set exactly when the word
  it summarises is not zero.  The operations keep that invariant, read and write the set of
  prices \<open>bs_prices\<close>, and never leave the arrays.
\<close>

unbundle bit_operations_syntax

section \<open>State and operations\<close>

definition BLOCK_SIZE :: nat where
  "BLOCK_SIZE = 64"

definition L2_BLOCKS :: nat where
  "L2_BLOCKS = (MAX_PRICES + BLOCK_SIZE - 1) div BLOCK_SIZE"

definition L1_BLOCKS :: nat where
  "L1_BLOCKS = (L2_BLOCKS + BLOCK_SIZE - 1) div BLOCK_SIZE"

lemma L2_BLOCKS_val: "L2_BLOCKS = 1563"
  by (simp add: L2_BLOCKS_def MAX_PRICES_def BLOCK_SIZE_def)

lemma L1_BLOCKS_val: "L1_BLOCKS = 25"
  by (simp add: L1_BLOCKS_def L2_BLOCKS_val BLOCK_SIZE_def)

record PriceBitset =
  l0 :: u64
  l1 :: "u64 list"
  l2 :: "u64 list"

text \<open>The constructor; \<open>clear_all\<close> assigns the same values.\<close>

definition bs_new :: PriceBitset where
  "bs_new = \<lparr>l0 = 0, l1 = replicate L1_BLOCKS 0, l2 = replicate L2_BLOCKS 0\<rparr>"

definition bs_clear_all :: "PriceBitset \<Rightarrow> PriceBitset" where
  "bs_clear_all s = s\<lparr>l0 := 0, l1 := replicate L1_BLOCKS 0, l2 := replicate L2_BLOCKS 0\<rparr>"

definition bs_set :: "PriceBitset \<Rightarrow> u32 \<Rightarrow> PriceBitset exec" where
  "bs_set s price_idx =
     (if \<not> unat price_idx < MAX_PRICES then stop AssertFailed else
      let l2_idx = price_idx div 64;
          l2_bit_mask = push_bit (unat (price_idx mod 64)) (1 :: u64) in
      ebind (arr_get (l2 s) (unat l2_idx)) (\<lambda>w2.
      ebind (arr_set (l2 s) (unat l2_idx) (w2 OR l2_bit_mask)) (\<lambda>l2'.
      let l1_idx = l2_idx div 64;
          l1_bit_mask = push_bit (unat (l2_idx mod 64)) (1 :: u64) in
      ebind (arr_get (l1 s) (unat l1_idx)) (\<lambda>w1.
      ebind (arr_set (l1 s) (unat l1_idx) (w1 OR l1_bit_mask)) (\<lambda>l1'.
      let l0_bit_mask = push_bit (unat l1_idx) (1 :: u64) in
      ret (s\<lparr>l0 := l0 s OR l0_bit_mask, l1 := l1', l2 := l2'\<rparr>))))))"

definition bs_clear :: "PriceBitset \<Rightarrow> u32 \<Rightarrow> PriceBitset exec" where
  "bs_clear s price_idx =
     (if \<not> unat price_idx < MAX_PRICES then stop AssertFailed else
      let l2_idx = price_idx div 64;
          l2_bit_mask = push_bit (unat (price_idx mod 64)) (1 :: u64) in
      ebind (arr_get (l2 s) (unat l2_idx)) (\<lambda>w2.
      ebind (arr_set (l2 s) (unat l2_idx) (w2 AND NOT l2_bit_mask)) (\<lambda>l2'.
      if w2 AND NOT l2_bit_mask = 0 then
        let l1_idx = l2_idx div 64;
            l1_bit_mask = push_bit (unat (l2_idx mod 64)) (1 :: u64) in
        ebind (arr_get (l1 s) (unat l1_idx)) (\<lambda>w1.
        ebind (arr_set (l1 s) (unat l1_idx) (w1 AND NOT l1_bit_mask)) (\<lambda>l1'.
        if w1 AND NOT l1_bit_mask = 0 then
          let l0_bit_mask = push_bit (unat l1_idx) (1 :: u64) in
          ret (s\<lparr>l0 := l0 s AND NOT l0_bit_mask, l1 := l1', l2 := l2'\<rparr>)
        else ret (s\<lparr>l1 := l1', l2 := l2'\<rparr>)))
      else ret (s\<lparr>l2 := l2'\<rparr>))))"

definition bs_test :: "PriceBitset \<Rightarrow> u32 \<Rightarrow> bool exec" where
  "bs_test s price_idx =
     (if \<not> unat price_idx < MAX_PRICES then stop AssertFailed else
      let l2_idx = price_idx div 64 in
      ebind (arr_get (l2 s) (unat l2_idx)) (\<lambda>w2.
      ret (drop_bit (unat (price_idx mod 64)) w2 AND 1 \<noteq> 0)))"

definition bs_empty :: "PriceBitset \<Rightarrow> bool" where
  "bs_empty s \<longleftrightarrow> l0 s = 0"

text \<open>
  The builtins count zeros from the low or from the high end of a 64-bit word; both are
  undefined at 0.
\<close>

definition builtin_ctzll :: "u64 \<Rightarrow> nat exec" where
  "builtin_ctzll w =
     (if w = 0 then stop BadBuiltin
      else ret (length (takeWhile (\<lambda>i. \<not> bit w i) [0..<64])))"

definition builtin_clzll :: "u64 \<Rightarrow> nat exec" where
  "builtin_clzll w =
     (if w = 0 then stop BadBuiltin
      else ret (length (takeWhile (\<lambda>i. \<not> bit w i) (rev [0..<64]))))"

definition find_highest :: "PriceBitset \<Rightarrow> u32 option exec" where
  "find_highest s =
     (if l0 s = 0 then ret None else
      ebind (builtin_clzll (l0 s)) (\<lambda>c0.
      let l1_idx = 63 - c0 in
      ebind (arr_get (l1 s) l1_idx) (\<lambda>w1.
      ebind (builtin_clzll w1) (\<lambda>c1.
      let l2_idx = l1_idx * 64 + (63 - c1) in
      ebind (arr_get (l2 s) l2_idx) (\<lambda>w2.
      ebind (builtin_clzll w2) (\<lambda>c2.
      ret (Some (of_nat (64 * l2_idx + (63 - c2))))))))))"

definition find_lowest :: "PriceBitset \<Rightarrow> u32 option exec" where
  "find_lowest s =
     (if l0 s = 0 then ret None else
      ebind (builtin_ctzll (l0 s)) (\<lambda>l1_idx.
      ebind (arr_get (l1 s) l1_idx) (\<lambda>w1.
      ebind (builtin_ctzll w1) (\<lambda>c1.
      let l2_idx = l1_idx * 64 + c1 in
      ebind (arr_get (l2 s) l2_idx) (\<lambda>w2.
      ebind (builtin_ctzll w2) (\<lambda>c2.
      ret (Some (of_nat (64 * l2_idx + c2)))))))))"

section \<open>Counting zeros\<close>

lemma takeWhile_upt_least:
  assumes "\<exists>i<n. P i"
  shows "length (takeWhile (\<lambda>i. \<not> P i) [0..<n]) = (LEAST i. P i)"
proof -
  define m where "m = (LEAST i. P i)"
  from assms have "P m" and "m < n"
    unfolding m_def by (auto intro: LeastI Least_le [THEN le_less_trans])
  have before: "\<not> P i" if "i < m" for i
    using that unfolding m_def by (rule not_less_Least)
  have "[0..<n] = [0..<m] @ m # [Suc m..<n]"
    using \<open>m < n\<close> by (metis le0 less_imp_le_nat upt_add_eq_append le_add_diff_inverse upt_conv_Cons)
  moreover have "takeWhile (\<lambda>i. \<not> P i) ([0..<m] @ m # [Suc m..<n]) = [0..<m]"
    using \<open>P m\<close> before by (subst takeWhile_append2) auto
  ultimately have "length (takeWhile (\<lambda>i. \<not> P i) [0..<n]) = m" by simp
  then show ?thesis by (simp only: m_def)
qed

lemma takeWhile_rev_upt_greatest:
  assumes "P i" and "i < n"
  shows "\<exists>m<n. P m \<and> (\<forall>j<n. P j \<longrightarrow> j \<le> m) \<and>
    length (takeWhile (\<lambda>i. \<not> P i) (rev [0..<n])) = n - 1 - m"
  using assms
proof (induction n)
  case 0
  then show ?case by simp
next
  case (Suc n)
  show ?case
  proof (cases "P n")
    case True
    then show ?thesis by (intro exI [of _ n]) auto
  next
    case False
    with Suc.prems have "i < n" by (metis less_antisym)
    with Suc.IH Suc.prems(1) obtain m where m: "m < n" "P m" "\<forall>j<n. P j \<longrightarrow> j \<le> m"
      "length (takeWhile (\<lambda>i. \<not> P i) (rev [0..<n])) = n - 1 - m" by blast
    with False show ?thesis
      by (intro exI [of _ m]) (auto simp: less_Suc_eq)
  qed
qed

lemma bit_u64_less: "bit (w :: u64) i \<Longrightarrow> i < 64"
  using bit_imp_le_length [of w i] by simp

lemma word_nonzero_bit: "(w :: u64) \<noteq> 0 \<longleftrightarrow> (\<exists>i<64. bit w i)"
  by (auto simp: bit_eq_iff dest: bit_u64_less)

lemma ctzll_least:
  assumes "(w :: u64) \<noteq> 0"
  obtains i where "builtin_ctzll w = ret i" and "i < 64" and "bit w i"
    and "\<And>j. bit w j \<Longrightarrow> i \<le> j"
proof -
  from assms have ex: "\<exists>i<64. bit w i" by (simp add: word_nonzero_bit)
  then have "bit w (LEAST i. bit w i)" by (auto intro: LeastI)
  then have "(LEAST i. bit w i) < 64" by (auto dest: bit_u64_less)
  with \<open>bit w (LEAST i. bit w i)\<close> show thesis
    using takeWhile_upt_least [OF ex] assms
    by (intro that [of "LEAST i. bit w i"]) (auto simp: builtin_ctzll_def intro: Least_le)
qed

lemma clzll_greatest:
  assumes "(w :: u64) \<noteq> 0"
  obtains i where "builtin_clzll w = ret (63 - i)" and "i < 64" and "bit w i"
    and "\<And>j. bit w j \<Longrightarrow> j \<le> i"
proof -
  from assms obtain k where "k < 64" "bit w k" by (auto simp: word_nonzero_bit)
  from takeWhile_rev_upt_greatest [of "bit w", OF this(2,1)] obtain m where
    "m < 64" "bit w m" "\<forall>j<64. bit w j \<longrightarrow> j \<le> m"
    "length (takeWhile (\<lambda>i. \<not> bit w i) (rev [0..<64])) = 63 - m" by auto
  with assms show thesis
    by (intro that [of m]) (auto simp: builtin_clzll_def dest: bit_u64_less)
qed

section \<open>Arrays of words as arrays of bits\<close>

definition word_bit :: "u64 list \<Rightarrow> nat \<Rightarrow> bool" where
  "word_bit ws i = bit (ws ! (i div 64)) (i mod 64)"

lemma word_bit_set:
  assumes "i div 64 < length ws"
  shows "word_bit (ws[i div 64 := ws ! (i div 64) OR push_bit (i mod 64) 1]) j \<longleftrightarrow> j = i \<or> word_bit ws j"
proof (cases "j div 64 = i div 64")
  case True
  then have "j = i \<longleftrightarrow> j mod 64 = i mod 64" by (metis mod_div_mult_eq)
  with True assms show ?thesis
    by (auto simp: word_bit_def bit_or_iff bit_exp_iff dest: bit_u64_less)
next
  case False
  then show ?thesis by (auto simp: word_bit_def)
qed

lemma word_bit_clear:
  assumes "i div 64 < length ws"
  shows "word_bit (ws[i div 64 := ws ! (i div 64) AND NOT (push_bit (i mod 64) 1)]) j \<longleftrightarrow> j \<noteq> i \<and> word_bit ws j"
proof (cases "j div 64 = i div 64")
  case True
  then have "j = i \<longleftrightarrow> j mod 64 = i mod 64" by (metis mod_div_mult_eq)
  with True assms show ?thesis
    by (auto simp: word_bit_def bit_and_iff bit_not_iff bit_exp_iff dest: bit_u64_less)
next
  case False
  then show ?thesis by (auto simp: word_bit_def)
qed

lemma or_bit_nonzero: "i < 64 \<Longrightarrow> (w :: u64) OR push_bit i 1 \<noteq> 0"
  unfolding word_nonzero_bit by (intro exI [of _ i]) (simp add: bit_or_iff bit_exp_iff)

lemma word_nonzero_word_bit: "ws ! k \<noteq> (0 :: u64) \<longleftrightarrow> (\<exists>i. i div 64 = k \<and> word_bit ws i)"
proof
  assume "ws ! k \<noteq> 0"
  then obtain b where "b < 64" "bit (ws ! k) b" by (auto simp: word_nonzero_bit)
  then show "\<exists>i. i div 64 = k \<and> word_bit ws i"
    by (intro exI [of _ "k * 64 + b"]) (simp add: word_bit_def)
next
  assume "\<exists>i. i div 64 = k \<and> word_bit ws i"
  then show "ws ! k \<noteq> 0" by (auto simp: word_bit_def)
qed

section \<open>The invariant and the set of prices\<close>

definition bs_ok :: "PriceBitset \<Rightarrow> bool" where
  "bs_ok s \<longleftrightarrow> length (l1 s) = L1_BLOCKS \<and> length (l2 s) = L2_BLOCKS \<and>
     (\<forall>j. bit (l0 s) j \<longleftrightarrow> j < L1_BLOCKS \<and> l1 s ! j \<noteq> 0) \<and>
     (\<forall>i. i div 64 < L1_BLOCKS \<longrightarrow> (word_bit (l1 s) i \<longleftrightarrow> i < L2_BLOCKS \<and> l2 s ! i \<noteq> 0)) \<and>
     (\<forall>p. p div 64 < L2_BLOCKS \<longrightarrow> word_bit (l2 s) p \<longrightarrow> p < MAX_PRICES)"

definition bs_prices :: "PriceBitset \<Rightarrow> nat set" where
  "bs_prices s = {p. p < MAX_PRICES \<and> word_bit (l2 s) p}"

lemmas bs_sizes = MAX_PRICES_def L1_BLOCKS_val L2_BLOCKS_val

lemma bs_okD:
  assumes "bs_ok s"
  shows "length (l1 s) = 25" and "length (l2 s) = 1563"
    and "bit (l0 s) j \<longleftrightarrow> j < 25 \<and> l1 s ! j \<noteq> 0"
    and "i div 64 < 25 \<Longrightarrow> word_bit (l1 s) i \<longleftrightarrow> i < 1563 \<and> l2 s ! i \<noteq> 0"
    and "p div 64 < 1563 \<Longrightarrow> word_bit (l2 s) p \<Longrightarrow> p < 100000"
  using assms unfolding bs_ok_def bs_sizes by blast+

lemma unat_word_parts [simp]:
  "unat ((p :: u32) div 64) = unat p div 64" "unat (p mod 64) = unat p mod 64"
  by (simp_all add: unat_div_distrib unat_mod_distrib)

lemma bs_new_ok: "bs_ok bs_new"
  by (auto simp: bs_ok_def bs_new_def word_bit_def less_mult_imp_div_less)

lemma bs_new_prices: "bs_prices bs_new = {}"
  by (auto simp: bs_prices_def bs_new_def word_bit_def MAX_PRICES_def L2_BLOCKS_val)

lemma bs_clear_all_new: "bs_clear_all s = bs_new"
  by (simp add: bs_clear_all_def bs_new_def)

lemma bs_set_eq:
  assumes "bs_ok s" and "unat p < MAX_PRICES"
  shows "bs_set s p = ret (s\<lparr>
      l0 := l0 s OR push_bit (unat p div 64 div 64) 1,
      l1 := (l1 s)[unat p div 64 div 64 := l1 s ! (unat p div 64 div 64) OR push_bit (unat p div 64 mod 64) 1],
      l2 := (l2 s)[unat p div 64 := l2 s ! (unat p div 64) OR push_bit (unat p mod 64) 1]\<rparr>)"
  using assms(2) bs_okD(1,2) [OF assms(1)]
  by (simp add: bs_set_def Let_def MAX_PRICES_def less_mult_imp_div_less)

lemma bs_set_law:
  assumes ok: "bs_ok s" and p: "unat p < MAX_PRICES"
  shows "returns (bs_set s p) (\<lambda>s'. bs_ok s' \<and> bs_prices s' = insert (unat p) (bs_prices s))"
proof -
  let ?p = "unat p" let ?i = "?p div 64" let ?j = "?i div 64"
  let ?w1 = "(l1 s)[?j := l1 s ! ?j OR push_bit (?i mod 64) 1]"
  let ?w2 = "(l2 s)[?i := l2 s ! ?i OR push_bit (?p mod 64) 1]"
  let ?s = "s\<lparr>l0 := l0 s OR push_bit ?j 1, l1 := ?w1, l2 := ?w2\<rparr>"
  note D = bs_okD [OF ok]
  have ij: "?i < 1563" "?j < 25" using p by (auto simp: MAX_PRICES_def)
  have b2: "word_bit ?w2 q \<longleftrightarrow> q = ?p \<or> word_bit (l2 s) q" for q
    using word_bit_set [of ?p "l2 s"] ij D(2) by simp
  have b1: "word_bit ?w1 q \<longleftrightarrow> q = ?i \<or> word_bit (l1 s) q" for q
    using word_bit_set [of ?i "l1 s"] ij D(1) by simp
  have n2: "?w2 ! k \<noteq> 0 \<longleftrightarrow> k = ?i \<or> l2 s ! k \<noteq> 0" for k
    using ij D(2) by (cases "k = ?i") (simp_all add: or_bit_nonzero del: push_bit_of_1)
  have n1: "?w1 ! k \<noteq> 0 \<longleftrightarrow> k = ?j \<or> l1 s ! k \<noteq> 0" for k
    using ij D(1) by (cases "k = ?j") (simp_all add: or_bit_nonzero del: push_bit_of_1)
  have "bs_ok ?s"
    unfolding bs_ok_def bs_sizes
  proof (intro conjI allI impI)
    show "length (l1 ?s) = 25" "length (l2 ?s) = 1563" using D(1,2) by simp_all
    show "bit (l0 ?s) k \<longleftrightarrow> k < 25 \<and> l1 ?s ! k \<noteq> 0" for k
      using D(3) [of k] ij n1 [of k] by (auto simp: bit_or_iff bit_exp_iff)
    show "word_bit (l1 ?s) k \<longleftrightarrow> k < 1563 \<and> l2 ?s ! k \<noteq> 0" if "k div 64 < 25" for k
      using D(4) [OF that] ij b1 [of k] n2 [of k] by auto
    show "q < 100000" if "q div 64 < 1563" "word_bit (l2 ?s) q" for q
      using D(5) [OF that(1)] that(2) b2 [of q] p by (auto simp: MAX_PRICES_def)
  qed
  moreover have "bs_prices ?s = insert ?p (bs_prices s)"
    using b2 p by (auto simp: bs_prices_def)
  ultimately show ?thesis
    using bs_set_eq [OF ok p] by simp
qed

text \<open>
  Clearing goes up a level only when the word just written is zero, so that a summary bit
  keeps saying whether its word is zero.
\<close>

lemma bs_clear_law:
  assumes ok: "bs_ok s" and p: "unat p < MAX_PRICES"
  shows "returns (bs_clear s p) (\<lambda>s'. bs_ok s' \<and> bs_prices s' = bs_prices s - {unat p})"
proof -
  let ?p = "unat p" let ?i = "?p div 64" let ?j = "?i div 64"
  let ?v2 = "l2 s ! ?i AND NOT (push_bit (?p mod 64) 1)"
  let ?v1 = "l1 s ! ?j AND NOT (push_bit (?i mod 64) 1)"
  let ?w2 = "(l2 s)[?i := ?v2]"
  let ?w1 = "(l1 s)[?j := ?v1]"
  define w1 where "w1 = (if ?v2 = 0 then ?w1 else l1 s)"
  define w0 where "w0 = (if ?v2 = 0 \<and> ?v1 = 0 then l0 s AND NOT (push_bit ?j 1) else l0 s)"
  let ?s = "s\<lparr>l0 := w0, l1 := w1, l2 := ?w2\<rparr>"
  note D = bs_okD [OF ok]
  have ij: "?i < 1563" "?j < 25" using p by (auto simp: MAX_PRICES_def)
  have run: "bs_clear s p = ret ?s"
    using p ij D(1,2)
    by (simp add: bs_clear_def Let_def w0_def w1_def del: push_bit_of_1)
  have b2: "word_bit ?w2 q \<longleftrightarrow> q \<noteq> ?p \<and> word_bit (l2 s) q" for q
    using word_bit_clear [of ?p "l2 s"] ij D(2) by simp
  have b1: "word_bit w1 q \<longleftrightarrow> (q \<noteq> ?i \<or> ?v2 \<noteq> 0) \<and> word_bit (l1 s) q" for q
    using word_bit_clear [of ?i "l1 s"] ij D(1) by (simp add: w1_def del: push_bit_of_1)
  have v2: "l2 s ! ?i \<noteq> 0" if "?v2 \<noteq> 0" using that by auto
  have n2: "?w2 ! k \<noteq> 0 \<longleftrightarrow> (k \<noteq> ?i \<or> ?v2 \<noteq> 0) \<and> l2 s ! k \<noteq> 0" for k
    using ij D(2) v2 by (cases "k = ?i") (auto simp del: push_bit_of_1)
  have v1: "l1 s ! ?j \<noteq> 0" if "?v1 \<noteq> 0" using that by auto
  have n1: "w1 ! k \<noteq> 0 \<longleftrightarrow> (k \<noteq> ?j \<or> ?v2 \<noteq> 0 \<or> ?v1 \<noteq> 0) \<and> l1 s ! k \<noteq> 0" for k
    using ij D(1) v1 by (cases "k = ?j") (auto simp: w1_def simp del: push_bit_of_1)
  have "bs_ok ?s"
    unfolding bs_ok_def bs_sizes
  proof (intro conjI allI impI)
    show "length (l1 ?s) = 25" "length (l2 ?s) = 1563" using D(1,2) by (simp_all add: w1_def)
    show "bit (l0 ?s) k \<longleftrightarrow> k < 25 \<and> l1 ?s ! k \<noteq> 0" for k
      using D(3) [of k] ij n1 [of k]
      by (auto simp: w0_def bit_and_iff bit_not_iff bit_exp_iff dest: bit_u64_less)
    show "word_bit (l1 ?s) k \<longleftrightarrow> k < 1563 \<and> l2 ?s ! k \<noteq> 0" if "k div 64 < 25" for k
      using D(4) [OF that] ij b1 [of k] n2 [of k] by (auto simp del: push_bit_of_1)
    show "q < 100000" if "q div 64 < 1563" "word_bit (l2 ?s) q" for q
      using D(5) [OF that(1)] that(2) b2 [of q] by (auto simp del: push_bit_of_1)
  qed
  moreover have "bs_prices ?s = bs_prices s - {?p}"
    using b2 by (auto simp: bs_prices_def simp del: push_bit_of_1)
  ultimately show ?thesis
    using run by simp
qed

lemma bs_test_law:
  assumes "bs_ok s" and "unat p < MAX_PRICES"
  shows "bs_test s p = ret (unat p \<in> bs_prices s)"
proof -
  have "drop_bit n w AND 1 \<noteq> 0 \<longleftrightarrow> bit w n" for n and w :: u64
    by (simp add: bit_iff_odd_drop_bit and_one_eq odd_iff_mod_2_eq_one)
  with assms bs_okD(2) [OF assms(1)] show ?thesis
    by (simp add: bs_test_def bs_prices_def word_bit_def Let_def MAX_PRICES_def less_mult_imp_div_less)
qed

text \<open>One level at a time: from a set bit down to a price, and from a price up to the root.\<close>

lemma bs_down:
  assumes "bs_ok s"
  shows "bit (l0 s) j \<Longrightarrow> j < 25 \<and> l1 s ! j \<noteq> 0"
    and "j < 25 \<Longrightarrow> bit (l1 s ! j) c \<Longrightarrow> j * 64 + c < 1563 \<and> l2 s ! (j * 64 + c) \<noteq> 0"
    and "i < 1563 \<Longrightarrow> bit (l2 s ! i) d \<Longrightarrow> 64 * i + d \<in> bs_prices s"
proof -
  note D = bs_okD [OF assms]
  show "bit (l0 s) j \<Longrightarrow> j < 25 \<and> l1 s ! j \<noteq> 0" using D(3) by blast
  show "j * 64 + c < 1563 \<and> l2 s ! (j * 64 + c) \<noteq> 0" if "j < 25" "bit (l1 s ! j) c"
    using D(4) [of "j * 64 + c"] that bit_u64_less [OF that(2)] by (auto simp: word_bit_def)
  show "64 * i + d \<in> bs_prices s" if "i < 1563" "bit (l2 s ! i) d"
    using D(5) [of "64 * i + d"] that bit_u64_less [OF that(2)]
    by (auto simp: bs_prices_def word_bit_def MAX_PRICES_def)
qed

lemma bs_up:
  assumes ok: "bs_ok s" and q: "q \<in> bs_prices s"
  shows "bit (l2 s ! (q div 64)) (q mod 64)"
    and "bit (l1 s ! (q div 64 div 64)) (q div 64 mod 64)"
    and "bit (l0 s) (q div 64 div 64)"
proof -
  note D = bs_okD [OF ok]
  from q have q': "q < 100000" "word_bit (l2 s) q" by (auto simp: bs_prices_def MAX_PRICES_def)
  then show 2: "bit (l2 s ! (q div 64)) (q mod 64)" by (simp add: word_bit_def)
  then have "l2 s ! (q div 64) \<noteq> 0" by auto
  with D(4) [of "q div 64"] q'(1) have "word_bit (l1 s) (q div 64)"
    by (simp add: less_mult_imp_div_less)
  then show 1: "bit (l1 s ! (q div 64 div 64)) (q div 64 mod 64)" by (simp add: word_bit_def)
  then have "l1 s ! (q div 64 div 64) \<noteq> 0" by auto
  with D(3) [of "q div 64 div 64"] q'(1) show "bit (l0 s) (q div 64 div 64)"
    by (auto simp: less_mult_imp_div_less)
qed

text \<open>Base-64 digits compare from the coarse one to the fine one.\<close>

lemma digits_le:
  fixes a :: nat
  assumes "j \<le> a div 64" and "j = a div 64 \<Longrightarrow> c \<le> a mod 64" and "c < 64"
  shows "j * 64 + c \<le> a"
proof (cases "j = a div 64")
  case True
  with assms(2) have "c \<le> a mod 64" by simp
  with True show ?thesis using div_mult_mod_eq [of a 64] by linarith
next
  case False
  with assms(1) have "(j + 1) * 64 \<le> a div 64 * 64" by (intro mult_right_mono) auto
  moreover have "a div 64 * 64 \<le> a" by simp
  ultimately show ?thesis using assms(3) unfolding add_mult_distrib by linarith
qed

lemma digits_ge:
  fixes a :: nat
  assumes "a div 64 \<le> j" and "j = a div 64 \<Longrightarrow> a mod 64 \<le> c"
  shows "a \<le> j * 64 + c"
proof (cases "j = a div 64")
  case True
  with assms(2) have "a mod 64 \<le> c" by simp
  with True show ?thesis using div_mult_mod_eq [of a 64] by linarith
next
  case False
  with assms(1) have "Suc (a div 64) * 64 \<le> j * 64" by (intro mult_right_mono) auto
  moreover have "a < Suc (a div 64) * 64" using dividend_less_times_div [of 64 a] by simp
  ultimately show ?thesis by linarith
qed

lemma bs_zero_word: "bs_ok s \<Longrightarrow> l0 s = 0 \<Longrightarrow> bs_prices s = {}"
  using bs_up(3) by fastforce

lemma bs_prices_below_u32: "q \<in> bs_prices s \<Longrightarrow> unat (of_nat q :: u32) = q"
  by (rule unat_of_nat_u32) (simp add: bs_prices_def MAX_PRICES_def)

lemma find_lowest_law:
  assumes ok: "bs_ok s"
  shows "returns (find_lowest s) (\<lambda>r. case r of
      None \<Rightarrow> bs_prices s = {}
    | Some p \<Rightarrow> unat p \<in> bs_prices s \<and> (\<forall>q \<in> bs_prices s. unat p \<le> q))"
proof (cases "l0 s = 0")
  case True
  with ok show ?thesis by (simp add: find_lowest_def bs_zero_word)
next
  case False
  note down = bs_down [OF ok] and up = bs_up [OF ok] and len = bs_okD(1,2) [OF ok]
  obtain j where j: "builtin_ctzll (l0 s) = ret j" "bit (l0 s) j" "\<And>k. bit (l0 s) k \<Longrightarrow> j \<le> k"
    using ctzll_least [OF False] by metis
  with down(1) have j25: "j < 25" "l1 s ! j \<noteq> 0" by auto
  obtain c where c: "builtin_ctzll (l1 s ! j) = ret c" "bit (l1 s ! j) c" "\<And>k. bit (l1 s ! j) k \<Longrightarrow> c \<le> k"
    using ctzll_least [OF j25(2)] by metis
  define i where "i = j * 64 + c"
  from i_def down(2) j25(1) c(2) have i: "i < 1563" "l2 s ! i \<noteq> 0" by auto
  obtain d where d: "builtin_ctzll (l2 s ! i) = ret d" "bit (l2 s ! i) d" "\<And>k. bit (l2 s ! i) k \<Longrightarrow> d \<le> k"
    using ctzll_least [OF i(2)] by metis
  have mem: "64 * i + d \<in> bs_prices s" using down(3) i(1) d(2) by blast
  have run: "find_lowest s = ret (Some (of_nat (64 * i + d)))"
    using False j(1) j25 len c(1) i d(1)
    unfolding i_def by (simp add: find_lowest_def Let_def del: of_nat_add of_nat_mult)
  have "64 * i + d \<le> q" if q: "q \<in> bs_prices s" for q
  proof -
    have "i \<le> q div 64"
      unfolding i_def using j(3) up(3) [OF q] c(3) up(2) [OF q] bit_u64_less [OF c(2)]
      by (intro digits_le) auto
    then have "i * 64 + d \<le> q"
      using d(3) up(1) [OF q] bit_u64_less [OF d(2)] by (intro digits_le) auto
    then show ?thesis by (simp only: mult.commute)
  qed
  with run mem bs_prices_below_u32 [OF mem] show ?thesis by (simp del: of_nat_add of_nat_mult)
qed

lemma find_highest_law:
  assumes ok: "bs_ok s"
  shows "returns (find_highest s) (\<lambda>r. case r of
      None \<Rightarrow> bs_prices s = {}
    | Some p \<Rightarrow> unat p \<in> bs_prices s \<and> (\<forall>q \<in> bs_prices s. q \<le> unat p))"
proof (cases "l0 s = 0")
  case True
  with ok show ?thesis by (simp add: find_highest_def bs_zero_word)
next
  case False
  note down = bs_down [OF ok] and up = bs_up [OF ok] and len = bs_okD(1,2) [OF ok]
  obtain j where j: "builtin_clzll (l0 s) = ret (63 - j)" "j < 64" "bit (l0 s) j" "\<And>k. bit (l0 s) k \<Longrightarrow> k \<le> j"
    using clzll_greatest [OF False] by metis
  with down(1) have j25: "j < 25" "l1 s ! j \<noteq> 0" by auto
  obtain c where c: "builtin_clzll (l1 s ! j) = ret (63 - c)" "c < 64" "bit (l1 s ! j) c" "\<And>k. bit (l1 s ! j) k \<Longrightarrow> k \<le> c"
    using clzll_greatest [OF j25(2)] by metis
  define i where "i = j * 64 + c"
  from i_def down(2) j25(1) c(3) have i: "i < 1563" "l2 s ! i \<noteq> 0" by auto
  obtain d where d: "builtin_clzll (l2 s ! i) = ret (63 - d)" "d < 64" "bit (l2 s ! i) d" "\<And>k. bit (l2 s ! i) k \<Longrightarrow> k \<le> d"
    using clzll_greatest [OF i(2)] by metis
  have mem: "64 * i + d \<in> bs_prices s" using down(3) i(1) d(3) by blast
  have run: "find_highest s = ret (Some (of_nat (64 * i + d)))"
    using False j(1,2) j25 len c(1,2) i d(1,2)
    unfolding i_def by (simp add: find_highest_def Let_def del: of_nat_add of_nat_mult diff_diff_left)
  have "q \<le> 64 * i + d" if q: "q \<in> bs_prices s" for q
  proof -
    have "q div 64 \<le> i"
      unfolding i_def using j(4) up(3) [OF q] c(4) up(2) [OF q] by (intro digits_ge) auto
    then have "q \<le> i * 64 + d"
      using d(4) up(1) [OF q] by (intro digits_ge) auto
    then show ?thesis by (simp only: mult.commute)
  qed
  with run mem bs_prices_below_u32 [OF mem] show ?thesis by (simp del: of_nat_add of_nat_mult)
qed

section \<open>The bitset is a price index\<close>

lemma bs_empty_law:
  assumes "bs_ok s"
  shows "bs_empty s \<longleftrightarrow> bs_prices s = {}"
proof
  assume none: "bs_prices s = {}"
  show "bs_empty s"
  proof (rule ccontr)
    assume "\<not> bs_empty s"
    with find_lowest_law [OF assms] none show False
      by (auto simp: find_lowest_def bs_empty_def returns_def ebind_eq_ret Let_def split: option.splits)
  qed
qed (simp add: bs_empty_def bs_zero_word [OF assms])

interpretation bits: price_index bs_new bs_set bs_clear find_lowest find_highest bs_ok bs_prices
proof unfold_locales
  show "q < MAX_PRICES" if "q \<in> bs_prices ix" for ix q
    using that by (simp add: bs_prices_def)
qed (rule bs_new_ok bs_new_prices bs_set_law bs_clear_law find_lowest_law find_highest_law; assumption)+

end
