(* ===== verification/Ladder.thy ===== *)
theory Ladder
  imports Price_Index
begin

text \<open>
  What the two array books of the engine share, \<open>src/engine/fast_book.h\<close> and
  \<open>src/engine/fast_bitset_book.h\<close>: the pool of \<open>Order\<close> nodes with its intrusive free list,
  the two ladders of \<open>PriceLevel\<close>s, \<open>id_map\<close>, and the pieces of the operations that both
  files spell out in the same way.  The bitset book extends the state by its two price
  indices (a record extension), so every definition here is polymorphic in the extension.
\<close>

section \<open>State\<close>

definition NULL_IDX :: u32 where
  "NULL_IDX = 4294967295"

record Order =
  o_id :: u64
  o_price :: u64
  o_qty :: u32
  o_is_buy :: bool
  o_next :: u32
  o_prev :: u32

record PriceLevel =
  lv_head :: u32
  lv_tail :: u32

record ladder_book =
  orders :: "Order list"
  bid_levels :: "PriceLevel list"
  ask_levels :: "PriceLevel list"
  id_map :: "u32 list"
  next_free_order_idx :: u32

section \<open>Accesses\<close>

text \<open>\<open>is_buy ? bid_levels : ask_levels\<close> (\<open>bids\<close> and \<open>asks\<close> in \<open>fast_book.h\<close>).\<close>

definition levels :: "'a ladder_book_scheme \<Rightarrow> bool \<Rightarrow> PriceLevel list" where
  "levels b is_buy = (if is_buy then bid_levels b else ask_levels b)"

definition get_level :: "'a ladder_book_scheme \<Rightarrow> bool \<Rightarrow> u64 \<Rightarrow> PriceLevel exec" where
  "get_level b is_buy price = arr_get (levels b is_buy) (unat price)"

definition set_level ::
  "'a ladder_book_scheme \<Rightarrow> bool \<Rightarrow> u64 \<Rightarrow> PriceLevel \<Rightarrow> 'a ladder_book_scheme exec" where
  "set_level b is_buy price lv = ebind (arr_set (levels b is_buy) (unat price) lv) (\<lambda>lvs.
     ret (if is_buy then b\<lparr>bid_levels := lvs\<rparr> else b\<lparr>ask_levels := lvs\<rparr>))"

definition get_order :: "'a ladder_book_scheme \<Rightarrow> u32 \<Rightarrow> Order exec" where
  "get_order b idx = arr_get (orders b) (unat idx)"

definition upd_order ::
  "'a ladder_book_scheme \<Rightarrow> u32 \<Rightarrow> (Order \<Rightarrow> Order) \<Rightarrow> 'a ladder_book_scheme exec" where
  "upd_order b idx f = ebind (arr_get (orders b) (unat idx)) (\<lambda>ord.
     ebind (arr_set (orders b) (unat idx) (f ord)) (\<lambda>os. ret (b\<lparr>orders := os\<rparr>)))"

definition set_id_map :: "'a ladder_book_scheme \<Rightarrow> u64 \<Rightarrow> u32 \<Rightarrow> 'a ladder_book_scheme exec" where
  "set_id_map b oid idx = ebind (arr_set (id_map b) (unat oid) idx) (\<lambda>m. ret (b\<lparr>id_map := m\<rparr>))"

text \<open>The guard \<open>id >= id_map.size() || id_map[id] == NULL_IDX\<close> and the slot it lets through.\<close>

definition find_slot :: "'a ladder_book_scheme \<Rightarrow> u64 \<Rightarrow> u32 option" where
  "find_slot b oid =
     (if length (id_map b) \<le> unat oid \<or> id_map b ! unat oid = NULL_IDX then None
      else Some (id_map b ! unat oid))"

definition get_quantity :: "'a ladder_book_scheme \<Rightarrow> u64 \<Rightarrow> u32 exec" where
  "get_quantity b oid = (case find_slot b oid of
     None \<Rightarrow> ret 0
   | Some idx \<Rightarrow> ebind (get_order b idx) (\<lambda>ord. ret (o_qty ord)))"

section \<open>Unlinking and releasing an order\<close>

text \<open>
  Take an order out of the doubly linked list of its price level: the level's head and tail
  first, then the neighbours' links.
\<close>

definition unlink_order :: "'a ladder_book_scheme \<Rightarrow> u32 \<Rightarrow> 'a ladder_book_scheme exec" where
  "unlink_order b order_idx =
     ebind (get_order b order_idx) (\<lambda>ord.
     ebind (get_level b (o_is_buy ord) (o_price ord)) (\<lambda>lv.
     let lv1 = (if lv_head lv = order_idx then lv\<lparr>lv_head := o_next ord\<rparr> else lv);
         lv2 = (if lv_tail lv1 = order_idx then lv1\<lparr>lv_tail := o_prev ord\<rparr> else lv1);
         prev = o_prev ord;
         next = o_next ord in
     ebind (set_level b (o_is_buy ord) (o_price ord) lv2) (\<lambda>b1.
     ebind (if prev \<noteq> NULL_IDX then upd_order b1 prev (\<lambda>n. n\<lparr>o_next := next\<rparr>) else ret b1) (\<lambda>b2.
     if next \<noteq> NULL_IDX then upd_order b2 next (\<lambda>n. n\<lparr>o_prev := prev\<rparr>) else ret b2))))"

text \<open>Push the slot on the free list (threaded through \<open>next\<close>) and forget the id.\<close>

definition release_slot ::
  "'a ladder_book_scheme \<Rightarrow> u32 \<Rightarrow> u64 \<Rightarrow> 'a ladder_book_scheme exec" where
  "release_slot b order_idx oid =
     ebind (upd_order b order_idx (\<lambda>n. n\<lparr>o_prev := NULL_IDX, o_next := next_free_order_idx b\<rparr>)) (\<lambda>b1.
     set_id_map (b1\<lparr>next_free_order_idx := order_idx\<rparr>) oid NULL_IDX)"

section \<open>Filling one price level\<close>

text \<open>
  The inner loop of \<open>match\<close>: fill the incoming quantity from the head of the level.  A
  resting order that reaches 0 leaves the level and goes to the free list; the new head's
  \<open>prev\<close> is not written.  \<open>resting.qty -= trade_qty\<close> and \<open>incoming_qty -= trade_qty\<close>
  compute in 64 bits and narrow back to 32.
\<close>

definition narrow_sub :: "u32 \<Rightarrow> u64 \<Rightarrow> u32" where
  "narrow_sub x y = ucast ((ucast x :: u64) - y)"

definition pop_head ::
  "'a ladder_book_scheme \<Rightarrow> bool \<Rightarrow> u64 \<Rightarrow> u32 \<Rightarrow> 'a ladder_book_scheme exec" where
  "pop_head b side price resting_idx =
     ebind (get_order b resting_idx) (\<lambda>resting.
     ebind (set_id_map b (o_id resting) NULL_IDX) (\<lambda>b1.
     ebind (get_level b1 side price) (\<lambda>lv.
     let lv1 = lv\<lparr>lv_head := o_next resting\<rparr>;
         lv2 = (if lv_head lv1 = NULL_IDX then lv1\<lparr>lv_tail := NULL_IDX\<rparr> else lv1) in
     ebind (set_level b1 side price lv2) (\<lambda>b2.
     ebind (upd_order b2 resting_idx (\<lambda>n. n\<lparr>o_next := next_free_order_idx b2\<rparr>)) (\<lambda>b3.
     ret (b3\<lparr>next_free_order_idx := resting_idx\<rparr>))))))"

partial_function (option) match_level ::
  "'a ladder_book_scheme \<Rightarrow> bool \<Rightarrow> u64 \<Rightarrow> u32 \<Rightarrow> ('a ladder_book_scheme \<times> u32) exec" where
  "match_level b side price incoming_qty =
     ebind (get_level b side price) (\<lambda>lv.
     if lv_head lv \<noteq> NULL_IDX \<and> incoming_qty > 0 then
       let resting_idx = lv_head lv in
       ebind (get_order b resting_idx) (\<lambda>resting.
       let trade_qty = (ucast (min incoming_qty (o_qty resting)) :: u64);
           resting_qty = narrow_sub (o_qty resting) trade_qty;
           incoming_qty' = narrow_sub incoming_qty trade_qty in
       ebind (upd_order b resting_idx (\<lambda>n. n\<lparr>o_qty := resting_qty\<rparr>)) (\<lambda>b1.
       if resting_qty = 0 then
         ebind (pop_head b1 side price resting_idx) (\<lambda>b2.
         match_level b2 side price incoming_qty')
       else ret (b1, incoming_qty')))
     else ret (b, incoming_qty))"

section \<open>Adding an order\<close>

text \<open>Fill in the slot taken from the free list and record the id.\<close>

definition fill_slot ::
  "'a ladder_book_scheme \<Rightarrow> u32 \<Rightarrow> u64 \<Rightarrow> u64 \<Rightarrow> u32 \<Rightarrow> bool \<Rightarrow> 'a ladder_book_scheme exec" where
  "fill_slot b idx oid price qty is_buy =
     ebind (get_order b idx) (\<lambda>ord.
     ebind (upd_order (b\<lparr>next_free_order_idx := o_next ord\<rparr>) idx
       (\<lambda>_. \<lparr>o_id = oid, o_price = price, o_qty = qty, o_is_buy = is_buy,
            o_next = NULL_IDX, o_prev = NULL_IDX\<rparr>)) (\<lambda>b1.
     set_id_map b1 oid idx))"

text \<open>Append a filled-in order to its price level.\<close>

definition link_tail ::
  "'a ladder_book_scheme \<Rightarrow> bool \<Rightarrow> u64 \<Rightarrow> u32 \<Rightarrow> 'a ladder_book_scheme exec" where
  "link_tail b is_buy price idx =
     ebind (get_level b is_buy price) (\<lambda>lv.
     if lv_head lv = NULL_IDX then set_level b is_buy price \<lparr>lv_head = idx, lv_tail = idx\<rparr>
     else let old_tail = lv_tail lv in
       ebind (upd_order b old_tail (\<lambda>n. n\<lparr>o_next := idx\<rparr>)) (\<lambda>b1.
       ebind (upd_order b1 idx (\<lambda>n. n\<lparr>o_prev := old_tail\<rparr>)) (\<lambda>b2.
       set_level b2 is_buy price (lv\<lparr>lv_tail := idx\<rparr>))))"

section \<open>Initialisation\<close>

text \<open>Elements that \<open>resize\<close> adds are value-initialised: zeros.\<close>

definition zero_order :: Order where
  "zero_order = \<lparr>o_id = 0, o_price = 0, o_qty = 0, o_is_buy = False, o_next = 0, o_prev = 0\<rparr>"

definition chain_free_slots :: "nat \<Rightarrow> Order list \<Rightarrow> Order list" where
  "chain_free_slots n os = fold (\<lambda>i os. os[i := (os ! i)\<lparr>o_next := of_nat (i + 1)\<rparr>]) [0..<n] os"

definition clear_levels :: "PriceLevel list \<Rightarrow> PriceLevel list" where
  "clear_levels lvs =
     fold (\<lambda>i lvs. lvs[i := \<lparr>lv_head = NULL_IDX, lv_tail = NULL_IDX\<rparr>]) [0..<MAX_PRICES] lvs"

text \<open>
  \<open>orders[max_orders - 1]\<close> wraps to the largest index when \<open>max_orders\<close> is 0.  The vector
  \<open>id_map\<close> is only resized: its new entries are 0, which is the index of a slot.
\<close>

definition init_ladder :: "'a ladder_book_scheme \<Rightarrow> nat \<Rightarrow> 'a ladder_book_scheme exec" where
  "init_ladder b max_orders =
     (let os = chain_free_slots max_orders (vec_resize zero_order max_orders (orders b)) in
      if max_orders = 0 then stop OutOfBounds else
      ebind (arr_get os (max_orders - 1)) (\<lambda>ord.
      ebind (arr_set os (max_orders - 1) (ord\<lparr>o_next := NULL_IDX\<rparr>)) (\<lambda>os'.
      ret (b\<lparr>orders := os', id_map := vec_resize 0 max_orders (id_map b),
             next_free_order_idx := 0,
             bid_levels := clear_levels (bid_levels b),
             ask_levels := clear_levels (ask_levels b)\<rparr>))))"

end
