(* ===== verification/Book_Spec.thy ===== *)
theory Book_Spec
  imports Price_Index
begin

text \<open>
  What a limit order book promises, independent of any data structure: per side and price a
  FIFO queue of (id, quantity), the place of every resting order, and the number of free
  pool slots.  The array books and the map book are proved against this specification.

  Two components record what the array books do beyond the queues.  \<open>a_known\<close> holds the ids
  whose \<open>id_map\<close> entry the book has written (\<open>init\<close> writes none of them), and \<open>a_stale\<close>
  the levels whose first order still points back to a slot that matching has freed.  Cancel
  and replace are specified for known ids that are not the first order of a stale level.
\<close>

section \<open>The abstract book\<close>

record abook =
  a_cap :: nat
  a_free :: nat
  a_q :: "bool \<Rightarrow> nat \<Rightarrow> (nat \<times> nat) list"
  a_loc :: "nat \<Rightarrow> (bool \<times> nat) option"
  a_known :: "nat set"
  a_stale :: "bool \<Rightarrow> nat \<Rightarrow> bool"

definition upd2 :: "('a \<Rightarrow> 'b \<Rightarrow> 'c) \<Rightarrow> 'a \<Rightarrow> 'b \<Rightarrow> 'c \<Rightarrow> 'a \<Rightarrow> 'b \<Rightarrow> 'c" where
  "upd2 f x y v = f(x := (f x)(y := v))"

lemma upd2_apply: "upd2 f x y v x' y' = (if x' = x \<and> y' = y then v else f x' y')"
  by (simp add: upd2_def)

lemma upd2_same [simp]: "upd2 f x y v x y = v"
  by (simp add: upd2_apply)

lemma upd2_twice [simp]: "upd2 (upd2 f x y v) x y w = upd2 f x y w"
  by (simp add: upd2_def)

lemma upd2_id [simp]: "upd2 f x y (f x y) = f"
  by (simp add: upd2_def)

definition spec_init :: "nat \<Rightarrow> abook" where
  "spec_init n = \<lparr>a_cap = n, a_free = n, a_q = (\<lambda>_ _. []), a_loc = (\<lambda>_. None),
     a_known = {}, a_stale = (\<lambda>_ _. False)\<rparr>"

section \<open>Filling a queue\<close>

text \<open>
  An incoming quantity is filled from the front of a queue.  The result holds the ids that
  are filled completely, the queue left, and the quantity left.
\<close>

fun fill :: "(nat \<times> nat) list \<Rightarrow> nat \<Rightarrow> nat list \<times> (nat \<times> nat) list \<times> nat" where
  "fill [] q = ([], [], q)"
| "fill ((i, r) # xs) q =
     (if q = 0 then ([], (i, r) # xs, 0)
      else if r \<le> q then (case fill xs (q - r) of (is, ys, q') \<Rightarrow> (i # is, ys, q'))
      else ([], (i, r - q) # xs, 0))"

definition total :: "(nat \<times> nat) list \<Rightarrow> nat" where
  "total xs = sum_list (map snd xs)"

lemma total_simps [simp]: "total [] = 0" "total (x # xs) = snd x + total xs" "total (xs @ ys) = total xs + total ys"
  by (simp_all add: total_def)

lemma fill_0 [simp]: "fill xs 0 = ([], xs, 0)"
  by (cases xs) auto

lemma fill_total: "fill xs q = (is, ys, q') \<Longrightarrow> total xs + q' = total ys + q"
  by (induction xs q arbitrary: "is" ys q' rule: fill.induct)
     (auto split: if_splits prod.splits)

lemma fill_left: "fill xs q = (is, ys, q') \<Longrightarrow> 0 < q' \<Longrightarrow> ys = []"
  by (induction xs q arbitrary: "is" ys q' rule: fill.induct)
     (auto split: if_splits prod.splits)

lemma fill_amount: "fill xs q = (is, ys, q') \<Longrightarrow> q' = q - total xs"
  by (induction xs q arbitrary: "is" ys q' rule: fill.induct)
     (auto split: if_splits prod.splits)

lemma fill_ids: "fill xs q = (is, ys, q') \<Longrightarrow> map fst xs = is @ map fst ys"
  by (induction xs q arbitrary: "is" ys q' rule: fill.induct)
     (auto split: if_splits prod.splits)

lemma fill_append:
  "fill (xs @ zs) q = (case fill xs q of (is, ys, q') \<Rightarrow>
     case fill zs q' of (js, ws, q'') \<Rightarrow> (is @ js, ys @ ws, q''))"
proof (induction xs q rule: fill.induct)
  case (2 i r xs q)
  then show ?case by (auto split: prod.splits)
qed (auto split: prod.splits)

section \<open>Matching\<close>

definition sweep_level :: "abook \<Rightarrow> bool \<Rightarrow> nat \<Rightarrow> nat \<Rightarrow> abook \<times> nat" where
  "sweep_level a s p q =
     (case fill (a_q a s p) q of (is, ys, q') \<Rightarrow>
       (a\<lparr>a_q := upd2 (a_q a) s p ys,
          a_loc := (\<lambda>i. if i \<in> set is then None else a_loc a i),
          a_free := a_free a + length is,
          a_stale := upd2 (a_stale a) s p (ys \<noteq> [] \<and> (is \<noteq> [] \<or> a_stale a s p))\<rparr>, q'))"

fun sweep :: "abook \<Rightarrow> bool \<Rightarrow> nat list \<Rightarrow> nat \<Rightarrow> abook \<times> nat" where
  "sweep a s [] q = (a, q)"
| "sweep a s (p # ps) q = (case sweep_level a s p q of (a', q') \<Rightarrow> sweep a' s ps q')"

text \<open>
  The prices an incoming order can trade at, best first: for a buy the asks from 0 up to its
  limit, for a sell the bids from the top of the ladder down to its limit.
\<close>

definition crossing :: "bool \<Rightarrow> nat \<Rightarrow> nat list" where
  "crossing is_buy price =
     (if is_buy then [0..<min (Suc price) MAX_PRICES] else rev [price..<MAX_PRICES])"

definition spec_match :: "abook \<Rightarrow> nat \<Rightarrow> nat \<Rightarrow> bool \<Rightarrow> abook \<times> nat" where
  "spec_match a price q is_buy = sweep a (\<not> is_buy) (crossing is_buy price) q"

section \<open>Operations\<close>

text \<open>
  An order whose price is not on the ladder takes a slot but joins no queue, and no
  \<open>id_map\<close> entry of a resting order names it.
\<close>

definition spec_add :: "abook \<Rightarrow> nat \<Rightarrow> nat \<Rightarrow> nat \<Rightarrow> bool \<Rightarrow> abook" where
  "spec_add a oid price q is_buy =
     (if a_free a = 0 then a
      else if MAX_PRICES \<le> price then a\<lparr>a_free := a_free a - 1, a_known := a_known a - {oid}\<rparr>
      else a\<lparr>a_free := a_free a - 1, a_known := insert oid (a_known a),
             a_q := upd2 (a_q a) is_buy price (a_q a is_buy price @ [(oid, q)]),
             a_loc := (a_loc a)(oid \<mapsto> (is_buy, price))\<rparr>)"

definition spec_submit :: "abook \<Rightarrow> nat \<Rightarrow> nat \<Rightarrow> nat \<Rightarrow> bool \<Rightarrow> abook" where
  "spec_submit a oid price q is_buy =
     (case spec_match a price q is_buy of (a', q') \<Rightarrow>
       if 0 < q' then spec_add a' oid price q' is_buy else a')"

definition drop_id :: "nat \<Rightarrow> (nat \<times> nat) list \<Rightarrow> (nat \<times> nat) list" where
  "drop_id i xs = filter (\<lambda>x. fst x \<noteq> i) xs"

text \<open>\<open>spec_unlink\<close> takes an order out of its queue; its slot is not freed yet.\<close>

definition spec_unlink :: "abook \<Rightarrow> nat \<Rightarrow> bool \<Rightarrow> nat \<Rightarrow> abook" where
  "spec_unlink a oid s p =
     a\<lparr>a_q := upd2 (a_q a) s p (drop_id oid (a_q a s p)), a_loc := (a_loc a)(oid := None),
       a_stale := upd2 (a_stale a) s p (a_stale a s p \<and> drop_id oid (a_q a s p) \<noteq> [])\<rparr>"

definition spec_link :: "abook \<Rightarrow> nat \<Rightarrow> bool \<Rightarrow> nat \<Rightarrow> nat \<Rightarrow> abook" where
  "spec_link a oid s p q =
     a\<lparr>a_q := upd2 (a_q a) s p (a_q a s p @ [(oid, q)]), a_loc := (a_loc a)(oid \<mapsto> (s, p))\<rparr>"

definition spec_cancel :: "abook \<Rightarrow> nat \<Rightarrow> abook" where
  "spec_cancel a oid = (case a_loc a oid of None \<Rightarrow> a
     | Some (s, p) \<Rightarrow> (spec_unlink a oid s p)\<lparr>a_free := Suc (a_free a)\<rparr>)"

definition spec_get_quantity :: "abook \<Rightarrow> nat \<Rightarrow> nat" where
  "spec_get_quantity a oid = (case a_loc a oid of None \<Rightarrow> 0
     | Some (s, p) \<Rightarrow> (case map_of (a_q a s p) oid of None \<Rightarrow> 0 | Some q \<Rightarrow> q))"

definition set_qty :: "nat \<Rightarrow> nat \<Rightarrow> (nat \<times> nat) list \<Rightarrow> (nat \<times> nat) list" where
  "set_qty i q xs = map (\<lambda>x. if fst x = i then (i, q) else x) xs"

text \<open>
  Replace: a new price, or a larger quantity with other orders at the price, sends the order
  to the back of a queue; otherwise it keeps its place.
\<close>

definition spec_replace :: "abook \<Rightarrow> nat \<Rightarrow> nat \<Rightarrow> nat \<Rightarrow> abook" where
  "spec_replace a oid new_price new_qty = (case a_loc a oid of None \<Rightarrow> a
     | Some (s, p) \<Rightarrow>
         if p \<noteq> new_price \<or> (spec_get_quantity a oid < new_qty \<and> length (a_q a s p) \<noteq> 1)
         then spec_link (spec_unlink a oid s p) oid s new_price new_qty
         else a\<lparr>a_q := upd2 (a_q a) s p (set_qty oid new_qty (a_q a s p))\<rparr>)"

section \<open>Well-formed abstract books\<close>

definition awf :: "abook \<Rightarrow> bool" where
  "awf a \<longleftrightarrow>
     (\<forall>i s p. a_loc a i = Some (s, p) \<longleftrightarrow> i \<in> fst ` set (a_q a s p)) \<and>
     (\<forall>s p. distinct (map fst (a_q a s p))) \<and>
     (\<forall>s p. MAX_PRICES \<le> p \<longrightarrow> a_q a s p = []) \<and>
     dom (a_loc a) \<subseteq> a_known a \<and>
     (\<forall>s p. a_stale a s p \<longrightarrow> a_q a s p \<noteq> [])"

text \<open>Resting orders and free slots never exceed the pool.\<close>

definition aroom :: "abook \<Rightarrow> bool" where
  "aroom a \<longleftrightarrow> finite (dom (a_loc a)) \<and> card (dom (a_loc a)) + a_free a \<le> a_cap a"

lemma awfD:
  assumes "awf a"
  shows "a_loc a i = Some (s, p) \<longleftrightarrow> i \<in> fst ` set (a_q a s p)"
    and "distinct (map fst (a_q a s p))"
    and "MAX_PRICES \<le> p \<Longrightarrow> a_q a s p = []"
    and "dom (a_loc a) \<subseteq> a_known a"
    and "a_stale a s p \<Longrightarrow> a_q a s p \<noteq> []"
  using assms unfolding awf_def by blast+

lemma awf_loc_None: "awf a \<Longrightarrow> a_loc a i = None \<longleftrightarrow> (\<forall>s p. i \<notin> fst ` set (a_q a s p))"
  using awfD(1) [of a i] by (metis not_None_eq old.prod.exhaust option.distinct(1))

lemma awf_one_place: "awf a \<Longrightarrow> i \<in> fst ` set (a_q a s p) \<Longrightarrow> i \<in> fst ` set (a_q a s' p') \<Longrightarrow> s' = s \<and> p' = p"
  using awfD(1) [of a i] by (metis option.inject prod.inject)

lemma spec_init_awf: "awf (spec_init n)"
  by (simp add: awf_def spec_init_def)

lemma spec_init_aroom: "aroom (spec_init n)"
  by (simp add: aroom_def spec_init_def dom_def)

lemma sweep_level_awf:
  assumes wf: "awf a" and run: "sweep_level a s p q = (a', q')"
  shows "awf a'"
proof -
  obtain "is" ys where f: "fill (a_q a s p) q = (is, ys, q')"
    and a': "a' = a\<lparr>a_q := upd2 (a_q a) s p ys, a_loc := (\<lambda>i. if i \<in> set is then None else a_loc a i),
      a_free := a_free a + length is,
      a_stale := upd2 (a_stale a) s p (ys \<noteq> [] \<and> (is \<noteq> [] \<or> a_stale a s p))\<rparr>"
    using run by (auto simp: sweep_level_def split: prod.splits)
  note ids = fill_ids [OF f] and D = awfD [OF wf]
  have split: "distinct is" "distinct (map fst ys)" "set is \<inter> fst ` set ys = {}"
    using D(2) [of s p] by (simp_all add: ids)
  have setq: "fst ` set (a_q a s p) = set is \<union> fst ` set ys"
    using arg_cong [OF ids, of set] by simp
  show ?thesis
    unfolding awf_def
  proof (intro conjI allI impI)
    fix i s' p'
    show "a_loc a' i = Some (s', p') \<longleftrightarrow> i \<in> fst ` set (a_q a' s' p')"
      using D(1) [of i s' p'] D(1) [of i s p] setq split(3)
      by (auto simp: a' upd2_apply split: if_splits)
    show "distinct (map fst (a_q a' s' p'))"
      using D(2) [of s' p'] split(2) by (simp add: a' upd2_apply)
    show "a_q a' s' p' = []" if "MAX_PRICES \<le> p'"
      using D(3) [OF that, of s'] that D(3) [of p s] setq by (auto simp: a' upd2_apply)
    show "dom (a_loc a') \<subseteq> a_known a'"
      using D(4) by (auto simp: a' split: if_splits)
    show "a_q a' s' p' \<noteq> []" if "a_stale a' s' p'"
      using that D(5) [of s' p'] by (auto simp: a' upd2_apply split: if_splits)
  qed
qed

lemma sweep_awf: "awf a \<Longrightarrow> sweep a s ps q = (a', q') \<Longrightarrow> awf a'"
  by (induction ps arbitrary: a q) (auto split: prod.splits dest: sweep_level_awf)

lemma sweep_level_frame:
  assumes "sweep_level a s p q = (a', q')"
  shows "a_cap a' = a_cap a" and "a_known a' = a_known a"
    and "(s', p') \<noteq> (s, p) \<Longrightarrow> a_q a' s' p' = a_q a s' p'"
    and "(s', p') \<noteq> (s, p) \<Longrightarrow> a_stale a' s' p' = a_stale a s' p'"
    and "q' \<le> q"
  using assms fill_amount [of "a_q a s p" q]
  by (auto simp: sweep_level_def upd2_apply split: prod.splits)

lemma sweep_frame_all:
  "sweep a s ps q = (a', q') \<Longrightarrow> a_cap a' = a_cap a \<and> a_known a' = a_known a \<and> q' \<le> q \<and>
     (\<forall>s' p'. s' \<noteq> s \<or> p' \<notin> set ps \<longrightarrow> a_q a' s' p' = a_q a s' p' \<and> a_stale a' s' p' = a_stale a s' p')"
proof (induction ps arbitrary: a q)
  case Nil
  then show ?case by simp
next
  case (Cons p ps)
  obtain a1 q1 where lvl: "sweep_level a s p q = (a1, q1)" by fastforce
  with Cons.prems have "sweep a1 s ps q1 = (a', q')" by simp
  from Cons.IH [OF this] sweep_level_frame [OF lvl] show ?case by auto
qed

lemma sweep_frame:
  assumes "sweep a s ps q = (a', q')"
  shows "a_cap a' = a_cap a" and "a_known a' = a_known a" and "q' \<le> q"
    and "s' \<noteq> s \<or> p' \<notin> set ps \<Longrightarrow> a_q a' s' p' = a_q a s' p'"
    and "s' \<noteq> s \<or> p' \<notin> set ps \<Longrightarrow> a_stale a' s' p' = a_stale a s' p'"
  using sweep_frame_all [OF assms] by blast+

text \<open>Filled orders leave \<open>a_loc\<close> and give their slots back, one each.\<close>

lemma sweep_level_dom:
  assumes wf: "awf a" and run: "sweep_level a s p q = (a', q')" and fin: "finite (dom (a_loc a))"
  shows "dom (a_loc a') \<subseteq> dom (a_loc a)"
    and "card (dom (a_loc a')) + a_free a' = card (dom (a_loc a)) + a_free a"
proof -
  obtain "is" ys where f: "fill (a_q a s p) q = (is, ys, q')"
    and a': "a_loc a' = (\<lambda>i. if i \<in> set is then None else a_loc a i)" "a_free a' = a_free a + length is"
    using run by (auto simp: sweep_level_def split: prod.splits)
  have dom: "dom (a_loc a') = dom (a_loc a) - set is"
    by (auto simp: a'(1) split: if_splits)
  then show "dom (a_loc a') \<subseteq> dom (a_loc a)" by blast
  have sub: "set is \<subseteq> dom (a_loc a)"
  proof
    fix i assume "i \<in> set is"
    then have "i \<in> fst ` set (a_q a s p)" using arg_cong [OF fill_ids [OF f], of set] by auto
    with awfD(1) [OF wf, of i s p] show "i \<in> dom (a_loc a)" by blast
  qed
  have "distinct is" using awfD(2) [OF wf, of s p] by (simp add: fill_ids [OF f])
  then have "length is = card (set is)" by (simp add: distinct_card)
  with dom sub fin show "card (dom (a_loc a')) + a_free a' = card (dom (a_loc a)) + a_free a"
    by (simp add: a'(2) card_Diff_subset card_mono finite_subset)
qed

lemma sweep_dom:
  "awf a \<Longrightarrow> sweep a s ps q = (a', q') \<Longrightarrow> finite (dom (a_loc a)) \<Longrightarrow>
     dom (a_loc a') \<subseteq> dom (a_loc a) \<and>
     card (dom (a_loc a')) + a_free a' = card (dom (a_loc a)) + a_free a"
proof (induction ps arbitrary: a q)
  case Nil
  then show ?case by simp
next
  case (Cons p ps)
  obtain a1 q1 where lvl: "sweep_level a s p q = (a1, q1)" by fastforce
  with Cons.prems have rest: "sweep a1 s ps q1 = (a', q')" by simp
  note d = sweep_level_dom [OF Cons.prems(1) lvl Cons.prems(3)]
  have "finite (dom (a_loc a1))" using d(1) Cons.prems(3) by (rule finite_subset)
  from Cons.IH [OF sweep_level_awf [OF Cons.prems(1) lvl] rest this] d show ?case
    by (metis order_trans)
qed

lemma sweep_loc_None: "sweep a s ps q = (a', q') \<Longrightarrow> a_loc a i = None \<Longrightarrow> a_loc a' i = None"
proof (induction ps arbitrary: a q)
  case (Cons p ps)
  obtain a1 q1 where lvl: "sweep_level a s p q = (a1, q1)" by fastforce
  then have "a_loc a1 i = None" using Cons.prems(2) by (auto simp: sweep_level_def split: prod.splits)
  with Cons lvl show ?case by simp
qed simp

lemma spec_add_awf:
  assumes wf: "awf a" and fresh: "a_loc a oid = None"
  shows "awf (spec_add a oid price q s)"
proof -
  note D = awfD [OF wf]
  have new: "oid \<notin> fst ` set (a_q a s' p')" for s' p'
    using awf_loc_None [OF wf] fresh by blast
  show ?thesis
    unfolding awf_def
  proof (intro conjI allI impI)
    fix i s' p'
    show "a_loc (spec_add a oid price q s) i = Some (s', p') \<longleftrightarrow> i \<in> fst ` set (a_q (spec_add a oid price q s) s' p')"
      using D(1) [of i s' p'] new [of s' p'] by (auto simp: spec_add_def upd2_apply)
    show "distinct (map fst (a_q (spec_add a oid price q s) s' p'))"
      using D(2) [of s' p'] new by (auto simp: spec_add_def upd2_apply)
    show "a_q (spec_add a oid price q s) s' p' = []" if "MAX_PRICES \<le> p'"
      using D(3) [OF that] that by (auto simp: spec_add_def upd2_apply)
    show "dom (a_loc (spec_add a oid price q s)) \<subseteq> a_known (spec_add a oid price q s)"
      using D(4) fresh by (auto simp: spec_add_def)
    show "a_q (spec_add a oid price q s) s' p' \<noteq> []" if "a_stale (spec_add a oid price q s) s' p'"
      using that D(5) [of s' p'] by (auto simp: spec_add_def upd2_apply split: if_splits)
  qed
qed

lemma spec_unlink_awf:
  assumes wf: "awf a" and loc: "a_loc a oid = Some (s, p)"
  shows "awf (spec_unlink a oid s p)"
proof -
  note D = awfD [OF wf]
  have ids: "fst ` set (drop_id oid xs) = fst ` set xs - {oid}" for xs
    by (auto simp: drop_id_def)
  have dist: "distinct (map fst (drop_id oid xs))" if "distinct (map fst xs)" for xs
    using that by (simp add: drop_id_def distinct_map_filter)
  show ?thesis
    unfolding awf_def
  proof (intro conjI allI impI)
    fix i s' p'
    show "a_loc (spec_unlink a oid s p) i = Some (s', p') \<longleftrightarrow> i \<in> fst ` set (a_q (spec_unlink a oid s p) s' p')"
      using D(1) [of i s' p'] D(1) [of oid s' p'] loc by (auto simp: spec_unlink_def upd2_apply ids)
    show "distinct (map fst (a_q (spec_unlink a oid s p) s' p'))"
      using D(2) [of s' p'] by (auto simp: spec_unlink_def upd2_apply intro: dist)
    show "a_q (spec_unlink a oid s p) s' p' = []" if "MAX_PRICES \<le> p'"
      using D(3) [OF that] by (auto simp: spec_unlink_def upd2_apply drop_id_def)
    show "dom (a_loc (spec_unlink a oid s p)) \<subseteq> a_known (spec_unlink a oid s p)"
      using D(4) by (auto simp: spec_unlink_def split: if_splits)
    show "a_q (spec_unlink a oid s p) s' p' \<noteq> []" if "a_stale (spec_unlink a oid s p) s' p'"
      using that D(5) [of s' p'] by (auto simp: spec_unlink_def upd2_apply split: if_splits)
  qed
qed

lemma spec_link_awf:
  assumes wf: "awf a" and fresh: "a_loc a oid = None" and known: "oid \<in> a_known a"
    and p: "p < MAX_PRICES"
  shows "awf (spec_link a oid s p q)"
proof -
  note D = awfD [OF wf]
  have new: "oid \<notin> fst ` set (a_q a s' p')" for s' p'
    using awf_loc_None [OF wf] fresh by blast
  show ?thesis
    unfolding awf_def
  proof (intro conjI allI impI)
    fix i s' p'
    show "a_loc (spec_link a oid s p q) i = Some (s', p') \<longleftrightarrow> i \<in> fst ` set (a_q (spec_link a oid s p q) s' p')"
      using D(1) [of i s' p'] new [of s' p'] by (auto simp: spec_link_def upd2_apply)
    show "distinct (map fst (a_q (spec_link a oid s p q) s' p'))"
      using D(2) [of s' p'] new by (auto simp: spec_link_def upd2_apply)
    show "a_q (spec_link a oid s p q) s' p' = []" if "MAX_PRICES \<le> p'"
      using D(3) [OF that] that p by (auto simp: spec_link_def upd2_apply)
    show "dom (a_loc (spec_link a oid s p q)) \<subseteq> a_known (spec_link a oid s p q)"
      using D(4) known by (auto simp: spec_link_def)
    show "a_q (spec_link a oid s p q) s' p' \<noteq> []" if "a_stale (spec_link a oid s p q) s' p'"
      using that D(5) [of s' p'] by (auto simp: spec_link_def upd2_apply split: if_splits)
  qed
qed

lemma set_qty_ids [simp]: "map fst (set_qty i q xs) = map fst xs"
  by (auto simp: set_qty_def)

lemma set_qty_set [simp]: "fst ` set (set_qty i q xs) = fst ` set xs"
  by (metis set_qty_ids list.set_map)

lemma set_qty_Nil [simp]: "set_qty i q xs = [] \<longleftrightarrow> xs = []"
  by (simp add: set_qty_def)

section \<open>Every operation keeps the abstract book well-formed\<close>

lemma spec_match_awf: "awf a \<Longrightarrow> spec_match a price q b = (a', q') \<Longrightarrow> awf a'"
  unfolding spec_match_def by (rule sweep_awf)

lemma spec_submit_awf:
  assumes "awf a" and "a_loc a oid = None"
  shows "awf (spec_submit a oid price q b)"
proof -
  obtain a' q' where m: "spec_match a price q b = (a', q')" by fastforce
  with assms have "awf a'" "a_loc a' oid = None"
    by (auto simp: spec_match_def intro: sweep_awf sweep_loc_None)
  with m show ?thesis by (auto simp: spec_submit_def intro: spec_add_awf)
qed

lemma awf_free [simp]: "awf (a\<lparr>a_free := n\<rparr>) = awf a"
  by (simp add: awf_def)

lemma spec_cancel_awf: "awf a \<Longrightarrow> awf (spec_cancel a oid)"
  by (auto simp: spec_cancel_def spec_unlink_awf split: option.splits)

lemma awf_set_qty: "awf a \<Longrightarrow> awf (a\<lparr>a_q := upd2 (a_q a) s p (set_qty i q (a_q a s p))\<rparr>)"
  unfolding awf_def by (simp add: upd2_apply)

lemma spec_unlink_simps [simp]:
  "a_loc (spec_unlink a oid s p) = (a_loc a)(oid := None)"
  "a_known (spec_unlink a oid s p) = a_known a"
  "a_free (spec_unlink a oid s p) = a_free a"
  "a_cap (spec_unlink a oid s p) = a_cap a"
  by (simp_all add: spec_unlink_def)

lemma spec_link_simps [simp]:
  "a_loc (spec_link a oid s p q) = (a_loc a)(oid \<mapsto> (s, p))"
  "a_known (spec_link a oid s p q) = a_known a"
  "a_free (spec_link a oid s p q) = a_free a"
  "a_cap (spec_link a oid s p q) = a_cap a"
  by (simp_all add: spec_link_def)

lemma spec_replace_awf:
  assumes "awf a" and "new_price < MAX_PRICES"
  shows "awf (spec_replace a oid new_price new_qty)"
proof (cases "a_loc a oid")
  case None
  then show ?thesis using assms by (simp add: spec_replace_def)
next
  case (Some sp)
  then obtain s p where sp: "a_loc a oid = Some (s, p)" by (cases sp) auto
  then have "oid \<in> a_known a" using awfD(4) [OF assms(1)] by blast
  with sp assms show ?thesis
    by (auto simp: spec_replace_def intro!: spec_link_awf spec_unlink_awf awf_set_qty)
qed

lemma spec_cancel_aroom:
  assumes "awf a" and "aroom a"
  shows "aroom (spec_cancel a oid)"
proof (cases "a_loc a oid")
  case None
  then show ?thesis using assms by (simp add: spec_cancel_def)
next
  case (Some sp)
  then have "card (dom (a_loc a) - {oid}) < card (dom (a_loc a))"
    using assms(2) by (intro card_Diff1_less) (auto simp: aroom_def)
  with Some assms(2) show ?thesis
    by (cases sp) (auto simp: spec_cancel_def aroom_def)
qed

lemma spec_replace_aroom:
  assumes "aroom a"
  shows "aroom (spec_replace a oid new_price new_qty)"
proof (cases "a_loc a oid")
  case (Some sp)
  then have "insert oid (dom (a_loc a) - {oid}) = dom (a_loc a)" by auto
  with Some assms show ?thesis
    by (cases sp) (auto simp: spec_replace_def aroom_def insert_absorb)
qed (use assms in \<open>simp add: spec_replace_def\<close>)

lemma spec_match_aroom:
  assumes wf: "awf a" and room: "aroom a" and m: "spec_match a price q b = (a', q')"
  shows "aroom a'"
proof -
  note sw = m [unfolded spec_match_def]
  have fin: "finite (dom (a_loc a))" using room by (simp add: aroom_def)
  from sweep_dom [OF wf sw fin] sweep_frame(1) [OF sw] show ?thesis
    using room fin by (auto simp: aroom_def finite_subset)
qed

lemma spec_add_aroom:
  assumes "aroom a"
  shows "aroom (spec_add a oid price q b)"
  using assms by (cases "oid \<in> dom (a_loc a)") (auto simp: aroom_def spec_add_def insert_absorb)

lemma spec_submit_aroom: "awf a \<Longrightarrow> aroom a \<Longrightarrow> aroom (spec_submit a oid price q b)"
  using spec_match_aroom spec_add_aroom by (auto simp: spec_submit_def split: prod.splits)

section \<open>Price-time priority\<close>

text \<open>
  Matching is one fill of the eligible queue: the resting orders at the crossing prices, best
  price first and, within a price, oldest first.
\<close>

definition eligible :: "abook \<Rightarrow> bool \<Rightarrow> nat \<Rightarrow> (nat \<times> nat) list" where
  "eligible a is_buy price = concat (map (a_q a (\<not> is_buy)) (crossing is_buy price))"

lemma distinct_crossing: "distinct (crossing b price)"
  by (simp add: crossing_def)

lemma set_crossing: "p \<in> set (crossing b price) \<longleftrightarrow>
    p < MAX_PRICES \<and> (if b then p \<le> price else price \<le> p)"
  by (auto simp: crossing_def)

lemma sweep_is_fill:
  "distinct ps \<Longrightarrow> sweep a s ps q = (a', q') \<Longrightarrow>
   \<exists>is. fill (concat (map (a_q a s) ps)) q = (is, concat (map (a_q a' s) ps), q') \<and>
     a_loc a' = (\<lambda>i. if i \<in> set is then None else a_loc a i) \<and> a_free a' = a_free a + length is"
proof (induction ps arbitrary: a q)
  case Nil
  then show ?case by simp
next
  case (Cons p ps)
  obtain a1 q1 where lvl: "sweep_level a s p q = (a1, q1)" by fastforce
  with Cons.prems have rest: "sweep a1 s ps q1 = (a', q')" by simp
  obtain "is" ys where f: "fill (a_q a s p) q = (is, ys, q1)" and q1: "a_q a1 s p = ys"
    and loc: "a_loc a1 = (\<lambda>i. if i \<in> set is then None else a_loc a i)" "a_free a1 = a_free a + length is"
    using lvl by (auto simp: sweep_level_def split: prod.splits)
  have same: "map (a_q a1 s) ps = map (a_q a s) ps"
    using Cons.prems(1) by (auto intro!: sweep_level_frame(3) [OF lvl])
  have here: "a_q a' s p = ys"
    using Cons.prems(1) sweep_frame(4) [OF rest, of s p] q1 by simp
  from Cons.IH [OF _ rest, unfolded same] Cons.prems(1) obtain js where
    "fill (concat (map (a_q a s) ps)) q1 = (js, concat (map (a_q a' s) ps), q')"
    "a_loc a' = (\<lambda>i. if i \<in> set js then None else a_loc a1 i)" "a_free a' = a_free a1 + length js"
    by auto
  with f here loc show ?case
    by (intro exI [of _ "is @ js"]) (auto simp: fill_append)
qed

lemma spec_match_fills:
  assumes "spec_match a price q is_buy = (a', q')"
  shows "\<exists>filled. fill (eligible a is_buy price) q = (filled, eligible a' is_buy price, q') \<and>
    (\<forall>i. a_loc a' i = (if i \<in> set filled then None else a_loc a i)) \<and>
    (\<forall>p. a_q a' is_buy p = a_q a is_buy p)"
proof -
  note sw = assms [unfolded spec_match_def]
  show ?thesis
    using sweep_is_fill [OF distinct_crossing sw] sweep_frame(4) [OF sw, of is_buy] by (auto simp: eligible_def)
qed

lemma sweep_left:
  "sweep a s ps q = (a', q') \<Longrightarrow> 0 < q' \<Longrightarrow> distinct ps \<Longrightarrow> p \<in> set ps \<Longrightarrow> a_q a' s p = []"
  using sweep_is_fill [of ps a s q a' q'] by (auto dest: fill_left)

section \<open>The two sides never cross\<close>

definition uncrossed :: "abook \<Rightarrow> bool" where
  "uncrossed a \<longleftrightarrow> (\<forall>pb pa. a_q a True pb \<noteq> [] \<longrightarrow> a_q a False pa \<noteq> [] \<longrightarrow> pb < pa)"

lemma spec_init_uncrossed: "uncrossed (spec_init n)"
  by (simp add: uncrossed_def spec_init_def)

lemma uncrossed_mono:
  "uncrossed a \<Longrightarrow> (\<And>s p. a_q a' s p \<noteq> [] \<Longrightarrow> a_q a s p \<noteq> []) \<Longrightarrow> uncrossed a'"
  unfolding uncrossed_def by blast

lemma sweep_shrinks:
  assumes "sweep a s ps q = (a', q')" and "a_q a s' p = []"
  shows "a_q a' s' p = []"
  using assms
proof (induction ps arbitrary: a q)
  case (Cons p1 ps)
  obtain a1 q1 where lvl: "sweep_level a s p1 q = (a1, q1)" by fastforce
  have "a_q a1 s' p = []"
    using lvl Cons.prems(2) by (auto simp: sweep_level_def upd2_apply split: prod.splits)
  with Cons lvl show ?case by simp
qed simp

lemma spec_submit_uncrossed:
  assumes wf: "awf a" and un: "uncrossed a"
  shows "uncrossed (spec_submit a oid price q b)"
proof -
  obtain a' q' where m: "sweep a (\<not> b) (crossing b price) q = (a', q')" by fastforce
  have sub: "a_q a s p \<noteq> []" if "a_q a' s p \<noteq> []" for s p
    using sweep_shrinks [OF m] that by blast
  with un have un': "uncrossed a'" by (rule uncrossed_mono)
  have wf': "awf a'" by (rule sweep_awf [OF wf m])
  have "uncrossed (spec_add a' oid price q' b)" if q': "0 < q'"
  proof -
    have empty: "a_q a' (\<not> b) p = []" if "if b then p \<le> price else price \<le> p" for p
    proof (cases "p < MAX_PRICES")
      case True
      with that have "p \<in> set (crossing b price)" by (simp add: set_crossing)
      with sweep_left [OF m q' distinct_crossing] show ?thesis by blast
    next
      case False
      with awfD(3) [OF wf'] show ?thesis by simp
    qed
    show ?thesis
      using un' empty by (cases b) (fastforce simp: uncrossed_def spec_add_def upd2_apply not_less)+
  qed
  with un' m show ?thesis by (simp add: spec_submit_def spec_match_def)
qed

lemma spec_unlink_nonempty: "a_q (spec_unlink a oid s p) s' p' \<noteq> [] \<Longrightarrow> a_q a s' p' \<noteq> []"
  by (auto simp: spec_unlink_def upd2_apply drop_id_def split: if_splits)

lemma spec_cancel_uncrossed: "uncrossed a \<Longrightarrow> uncrossed (spec_cancel a oid)"
  by (erule uncrossed_mono)
     (auto simp: spec_cancel_def dest: spec_unlink_nonempty split: option.splits)

section \<open>Sweeping past levels that have nothing to trade\<close>

lemma sweep_level_idle:
  assumes "awf a" and "q = 0 \<or> a_q a s p = []"
  shows "sweep_level a s p q = (a, q)"
proof -
  have "a_stale a s p = (a_q a s p \<noteq> [] \<and> a_stale a s p)" using awfD(5) [OF assms(1)] by blast
  moreover have "fill (a_q a s p) q = ([], a_q a s p, q)" using assms(2) by auto
  ultimately show ?thesis by (simp add: sweep_level_def)
qed

lemma sweep_idle: "awf a \<Longrightarrow> q = 0 \<or> (\<forall>p \<in> set ps. a_q a s p = []) \<Longrightarrow> sweep a s ps q = (a, q)"
  by (induction ps) (auto simp: sweep_level_idle)

lemma sweep_append: "sweep a s (ps @ ps') q = (case sweep a s ps q of (a', q') \<Rightarrow> sweep a' s ps' q')"
  by (induction ps arbitrary: a q) (auto split: prod.splits)

lemma sweep_level_left:
  assumes "sweep_level a s p q = (a1, q1)"
  shows "q1 = 0 \<or> a_q a1 s p = []"
proof (cases "q1 = 0")
  case False
  with assms fill_left [of "a_q a s p" q _ _ q1] show ?thesis
    by (auto simp: sweep_level_def split: prod.splits)
qed simp

lemma sorted_crossing: "sorted_wrt (\<lambda>x y. if b then x < y else y < x) (crossing b price)"
  by (auto simp: crossing_def sorted_wrt_rev)

text \<open>If no price better than \<open>p\<close> is occupied, sweeping starts at \<open>p\<close>.\<close>

lemma crossing_from:
  assumes "p \<in> set (crossing b price)"
  obtains pre post where "crossing b price = pre @ p # post"
    and "\<And>x. x \<in> set pre \<Longrightarrow> (if b then x < p else p < x)"
proof -
  from split_list [OF assms] obtain pre post where *: "crossing b price = pre @ p # post" by blast
  from sorted_crossing [of b price] have "\<And>x. x \<in> set pre \<Longrightarrow> (if b then x < p else p < x)"
    unfolding * by (auto simp: sorted_wrt_append)
  with * that show thesis by blast
qed

lemma spec_match_none:
  assumes "awf a" and "q = 0 \<or> (\<forall>p. (if b then p \<le> price else price \<le> p) \<longrightarrow> a_q a (\<not> b) p = [])"
  shows "spec_match a price q b = (a, q)"
  unfolding spec_match_def using assms by (intro sweep_idle) (auto simp: set_crossing split: if_splits)

text \<open>
  Matching against the best occupied price \<open>p\<close>: fill that level; if it is used up go on
  matching, otherwise nothing of the incoming quantity is left.
\<close>

lemma spec_match_best:
  assumes wf: "awf a" and p: "p \<in> set (crossing b price)"
    and best: "\<And>x. a_q a (\<not> b) x \<noteq> [] \<Longrightarrow> (if b then p \<le> x else x \<le> p)"
    and lvl: "sweep_level a (\<not> b) p q = (a1, q1)"
  shows "spec_match a price q b = spec_match a1 price q1 b"
proof -
  obtain pre post where c: "crossing b price = pre @ p # post"
    and pre: "\<And>x. x \<in> set pre \<Longrightarrow> (if b then x < p else p < x)"
    using crossing_from [OF p] by blast
  have empty: "a_q a (\<not> b) x = []" if "x \<in> set pre" for x
    using pre [OF that] best [of x] by (cases b) auto
  have wf1: "awf a1" by (rule sweep_level_awf [OF wf lvl])
  have "p \<notin> set pre" using pre by force
  then have empty1: "a_q a1 (\<not> b) x = []" if "x \<in> set pre" for x
    using empty [OF that] that sweep_level_frame(3) [OF lvl, of "\<not> b" x] by auto
  have idle: "sweep_level a1 (\<not> b) p q1 = (a1, q1)"
    by (rule sweep_level_idle [OF wf1 sweep_level_left [OF lvl]])
  have "sweep a (\<not> b) pre q = (a, q)" "sweep a1 (\<not> b) pre q1 = (a1, q1)"
    using empty empty1 by (auto intro: sweep_idle wf wf1)
  then show ?thesis
    by (simp add: spec_match_def c sweep_append lvl idle)
qed

end
