(* ===== verification/Ladder_Rep.thy ===== *)
theory Ladder_Rep
  imports Ladder Book_Spec
begin

text \<open>
  How an array book represents an abstract one.  A segment predicate over the \<open>next\<close> and
  \<open>prev\<close> indices says which slots a price level links and in which order; the free list is a
  chain over \<open>next\<close> alone.  Every piece of \<open>Ladder\<close> is shown to return and to transform the
  represented lists as intended.
\<close>

section \<open>Segments of linked slots\<close>

text \<open>
  \<open>dseg os p i xs q j\<close>: starting at index \<open>i\<close>, whose \<open>prev\<close> should be \<open>p\<close>, the slots \<open>xs\<close>
  follow each other; the last one visited is \<open>q\<close> and the next index is \<open>j\<close>.
\<close>

fun dseg :: "Order list \<Rightarrow> u32 \<Rightarrow> u32 \<Rightarrow> u32 list \<Rightarrow> u32 \<Rightarrow> u32 \<Rightarrow> bool" where
  "dseg os p i [] q j \<longleftrightarrow> p = q \<and> i = j"
| "dseg os p i (x # xs) q j \<longleftrightarrow> i = x \<and> x \<noteq> NULL_IDX \<and> unat x < length os \<and>
     o_prev (os ! unat x) = p \<and> dseg os x (o_next (os ! unat x)) xs q j"

fun chain :: "Order list \<Rightarrow> u32 \<Rightarrow> u32 list \<Rightarrow> bool" where
  "chain os i [] \<longleftrightarrow> i = NULL_IDX"
| "chain os i (x # xs) \<longleftrightarrow> i = x \<and> x \<noteq> NULL_IDX \<and> unat x < length os \<and>
     chain os (o_next (os ! unat x)) xs"

lemma dseg_append:
  "dseg os p i (xs @ ys) q j \<longleftrightarrow> (\<exists>l m. dseg os p i xs l m \<and> dseg os l m ys q j)"
  by (induction xs arbitrary: p i) auto

lemma dseg_cong:
  "(\<And>x. x \<in> set xs \<Longrightarrow> os' ! unat x = os ! unat x) \<Longrightarrow> length os' = length os \<Longrightarrow>
   dseg os p i xs q j \<Longrightarrow> dseg os' p i xs q j"
  by (induction xs arbitrary: p i) auto

lemma dseg_links_cong:
  "(\<And>x. x \<in> set xs \<Longrightarrow> o_next (os' ! unat x) = o_next (os ! unat x) \<and> o_prev (os' ! unat x) = o_prev (os ! unat x)) \<Longrightarrow>
   length os' = length os \<Longrightarrow> dseg os p i xs q j \<Longrightarrow> dseg os' p i xs q j"
  by (induction xs arbitrary: p i) auto

lemma chain_cong:
  "(\<And>x. x \<in> set xs \<Longrightarrow> o_next (os' ! unat x) = o_next (os ! unat x)) \<Longrightarrow> length os' = length os \<Longrightarrow>
   chain os i xs \<Longrightarrow> chain os' i xs"
  by (induction xs arbitrary: i) auto

lemma nth_upd_other: "x \<noteq> y \<Longrightarrow> os[unat y := v] ! unat (x :: u32) = os ! unat x"
  by (metis nth_list_update_neq unsigned_word_eqI)

lemma dseg_in: "dseg os p i xs q j \<Longrightarrow> x \<in> set xs \<Longrightarrow> x \<noteq> NULL_IDX \<and> unat x < length os"
  by (induction xs arbitrary: p i) auto

lemma chain_in: "chain os i xs \<Longrightarrow> x \<in> set xs \<Longrightarrow> x \<noteq> NULL_IDX \<and> unat x < length os"
  by (induction xs arbitrary: i) auto

lemma dseg_last: "dseg os p i xs q j \<Longrightarrow> q = (if xs = [] then p else last xs)"
  by (induction xs arbitrary: p i) auto

lemma dseg_hd: "dseg os p i xs q j \<Longrightarrow> i = (if xs = [] then j else hd xs)"
  by (cases xs) auto

text \<open>Setting the last slot's \<open>next\<close>, and the first slot's \<open>prev\<close>, redirects a segment's ends.\<close>

lemma dseg_set_next:
  assumes "dseg os p i xs q j" and "xs \<noteq> []" and "distinct xs"
  shows "dseg (os[unat q := (os ! unat q)\<lparr>o_next := k\<rparr>]) p i xs q k"
proof -
  obtain ys where xs: "xs = ys @ [q]"
    using assms(1,2) dseg_last [OF assms(1)] by (metis append_butlast_last_id)
  with assms(1) obtain l where l: "dseg os p i ys l q" "q \<noteq> NULL_IDX" "unat q < length os" "o_prev (os ! unat q) = l"
    by (auto simp: dseg_append)
  have "dseg (os[unat q := (os ! unat q)\<lparr>o_next := k\<rparr>]) p i ys l q"
    using l(1) assms(3) xs by (intro dseg_cong [OF _ _ l(1)]) (auto intro: nth_upd_other)
  with l show ?thesis by (auto simp: xs dseg_append)
qed

lemma dseg_set_prev:
  assumes "dseg os p i xs q j" and "xs \<noteq> []" and "distinct xs"
  shows "dseg (os[unat i := (os ! unat i)\<lparr>o_prev := k\<rparr>]) k i xs q j"
proof -
  obtain ys where xs: "xs = i # ys"
    using assms(1,2) by (cases xs) auto
  with assms(1) have l: "dseg os i (o_next (os ! unat i)) ys q j" "i \<noteq> NULL_IDX" "unat i < length os"
    by auto
  have "dseg (os[unat i := (os ! unat i)\<lparr>o_prev := k\<rparr>]) i (o_next (os ! unat i)) ys q j"
    using l(1) assms(3) xs by (intro dseg_cong [OF _ _ l(1)]) (auto intro: nth_upd_other)
  with l show ?thesis by (auto simp: xs)
qed

text \<open>Taking \<open>x\<close> out of a segment: exactly the two link writes of \<open>unlink_order\<close>.\<close>

lemma dseg_around:
  assumes "dseg os p i (us @ x # vs) t NULL_IDX"
  shows "o_prev (os ! unat x) = (if us = [] then p else last us)"
    and "o_next (os ! unat x) = (if vs = [] then NULL_IDX else hd vs)"
    and "i = (if us = [] then x else hd us)" and "t = (if vs = [] then x else last vs)"
    and "x \<noteq> NULL_IDX" and "unat x < length os"
proof -
  from assms obtain l where l: "dseg os p i us l x" "o_prev (os ! unat x) = l" "x \<noteq> NULL_IDX" "unat x < length os"
    and r: "dseg os x (o_next (os ! unat x)) vs t NULL_IDX"
    by (auto simp: dseg_append)
  show "o_prev (os ! unat x) = (if us = [] then p else last us)" using dseg_last [OF l(1)] l(2) by simp
  show "i = (if us = [] then x else hd us)" by (rule dseg_hd [OF l(1)])
  show "o_next (os ! unat x) = (if vs = [] then NULL_IDX else hd vs)" by (rule dseg_hd [OF r])
  show "t = (if vs = [] then x else last vs)" by (rule dseg_last [OF r])
qed (use assms in \<open>auto simp: dseg_append\<close>)

lemma dseg_unlink:
  assumes d: "dseg os p i (us @ x # vs) t NULL_IDX" and dist: "distinct (us @ x # vs)"
  defines "pr \<equiv> o_prev (os ! unat x)" and "nx \<equiv> o_next (os ! unat x)"
  defines "os1 \<equiv> (if us = [] then os else os[unat pr := (os ! unat pr)\<lparr>o_next := nx\<rparr>])"
  defines "os2 \<equiv> (if vs = [] then os1 else os1[unat nx := (os1 ! unat nx)\<lparr>o_prev := pr\<rparr>])"
  shows "dseg os2 p (if us = [] then nx else i) (us @ vs) (if vs = [] then pr else t) NULL_IDX"
proof -
  from d have l: "dseg os p i us pr x" and r: "dseg os x nx vs t NULL_IDX"
    unfolding pr_def nx_def by (auto simp: dseg_append)
  have len: "length os1 = length os" by (simp add: os1_def)
  have l1: "dseg os1 p (if us = [] then nx else i) us pr nx"
    using l dist dseg_set_next [OF l] dseg_last [OF l] by (auto simp: os1_def)
  have r1: "dseg os1 x nx vs t NULL_IDX"
  proof (cases "us = []")
    case False
    then have "pr \<in> set us" using dseg_last [OF l] by simp
    then show ?thesis
      using False dist by (intro dseg_cong [OF _ len r]) (auto simp: os1_def intro!: nth_upd_other)
  qed (use r in \<open>simp add: os1_def\<close>)
  have l2: "dseg os2 p (if us = [] then nx else i) us pr nx"
  proof (cases "vs = []")
    case False
    then have "nx \<in> set vs" using dseg_hd [OF r] by simp
    then show ?thesis
      using dist by (intro dseg_cong [OF _ _ l1]) (auto simp: os2_def intro!: nth_upd_other)
  qed (use l1 in \<open>simp add: os2_def\<close>)
  have r2: "dseg os2 pr nx vs (if vs = [] then pr else t) NULL_IDX"
    using r1 dist dseg_set_prev [OF r1] by (auto simp: os2_def)
  from l2 r2 show ?thesis unfolding dseg_append by blast
qed

section \<open>The lists a book's links represent\<close>

definition level_ok :: "Order list \<Rightarrow> PriceLevel \<Rightarrow> u32 list \<Rightarrow> bool \<Rightarrow> bool" where
  "level_ok os lv xs st \<longleftrightarrow> (\<exists>p t. dseg os p (lv_head lv) xs t NULL_IDX \<and>
     (xs \<noteq> [] \<longrightarrow> lv_tail lv = t \<and> (\<not> st \<longrightarrow> p = NULL_IDX)))"

text \<open>
  \<open>links b F Q S\<close>: the free list is \<open>F\<close>, the level of side \<open>s\<close> at price \<open>p\<close> is \<open>Q s p\<close>, no
  slot is in two of them, and only where \<open>S\<close> holds may the first order of a level point back
  to a slot that is not \<open>NULL_IDX\<close>.
\<close>

definition links ::
  "'a ladder_book_scheme \<Rightarrow> u32 list \<Rightarrow> (bool \<Rightarrow> nat \<Rightarrow> u32 list) \<Rightarrow> (bool \<Rightarrow> nat \<Rightarrow> bool) \<Rightarrow> bool" where
  "links b F Q S \<longleftrightarrow>
     length (id_map b) = length (orders b) \<and>
     (\<forall>s. length (levels b s) = MAX_PRICES) \<and>
     chain (orders b) (next_free_order_idx b) F \<and> distinct F \<and>
     (\<forall>s p. p < MAX_PRICES \<longrightarrow> level_ok (orders b) (levels b s ! p) (Q s p) (S s p)) \<and>
     (\<forall>s p. MAX_PRICES \<le> p \<longrightarrow> Q s p = []) \<and>
     (\<forall>s p. distinct (Q s p) \<and> set (Q s p) \<inter> set F = {}) \<and>
     (\<forall>s p s' p'. (s, p) \<noteq> (s', p') \<longrightarrow> set (Q s p) \<inter> set (Q s' p') = {})"

lemma linksD:
  assumes "links b F Q S"
  shows "length (id_map b) = length (orders b)"
    and "length (levels b s) = MAX_PRICES"
    and "chain (orders b) (next_free_order_idx b) F" and "distinct F"
    and "p < MAX_PRICES \<Longrightarrow> level_ok (orders b) (levels b s ! p) (Q s p) (S s p)"
    and "MAX_PRICES \<le> p \<Longrightarrow> Q s p = []"
    and "distinct (Q s p)" and "set (Q s p) \<inter> set F = {}"
    and "(s, p) \<noteq> (s', p') \<Longrightarrow> set (Q s p) \<inter> set (Q s' p') = {}"
  using assms unfolding links_def by blast+

lemma links_price: "links b F Q S \<Longrightarrow> x \<in> set (Q s p) \<Longrightarrow> p < MAX_PRICES"
  using linksD(6) [of b F Q S p s] by (cases "MAX_PRICES \<le> p") auto

lemma links_in: "links b F Q S \<Longrightarrow> x \<in> set (Q s p) \<Longrightarrow> x \<noteq> NULL_IDX \<and> unat x < length (orders b)"
  using linksD(5) [of b F Q S p s] links_price [of b F Q S x s p]
  by (auto simp: level_ok_def dest: dseg_in)

lemma level_ok_cong:
  assumes "\<And>x. x \<in> set xs \<Longrightarrow> o_next (os' ! unat x) = o_next (os ! unat x) \<and> o_prev (os' ! unat x) = o_prev (os ! unat x)"
    and "length os' = length os" and "level_ok os lv xs st"
  shows "level_ok os' lv xs st"
proof -
  from assms(3) obtain p t where "dseg os p (lv_head lv) xs t NULL_IDX"
    and t: "xs \<noteq> [] \<longrightarrow> lv_tail lv = t \<and> (\<not> st \<longrightarrow> p = NULL_IDX)"
    by (auto simp: level_ok_def)
  with assms(1,2) have "dseg os' p (lv_head lv) xs t NULL_IDX" by (blast intro: dseg_links_cong)
  with t show ?thesis unfolding level_ok_def by blast
qed

text \<open>
  Changing one level: the other levels are as before when only slots of this level, and slots
  of no other level, were written.
\<close>

lemma links_update:
  assumes L: "links b F Q S"
    and len: "length (orders b') = length (orders b)" "length (id_map b') = length (id_map b)"
      "\<And>s. length (levels b' s) = length (levels b s)"
    and other: "\<And>s' p'. (s', p') \<noteq> (s, p) \<Longrightarrow> levels b' s' ! p' = levels b s' ! p'"
    and frame: "\<And>y s' p'. (s', p') \<noteq> (s, p) \<Longrightarrow> y \<in> set (Q s' p') \<Longrightarrow>
      o_next (orders b' ! unat y) = o_next (orders b ! unat y) \<and>
      o_prev (orders b' ! unat y) = o_prev (orders b ! unat y)"
    and free: "chain (orders b') (next_free_order_idx b') F'" "distinct F'"
    and here: "p < MAX_PRICES" "level_ok (orders b') (levels b' s ! p) xs st" "distinct xs"
      "set xs \<inter> set F' = {}"
    and apart: "\<And>s' p'. (s', p') \<noteq> (s, p) \<Longrightarrow> set (Q s' p') \<inter> (set xs \<union> set F') = {}"
  shows "links b' F' (upd2 Q s p xs) (upd2 S s p st)"
  unfolding links_def
proof (intro conjI allI impI)
  note D = linksD [OF L]
  show "length (id_map b') = length (orders b')" using len D(1) by simp
  show "length (levels b' s') = MAX_PRICES" for s' using len(3) D(2) by simp
  show "chain (orders b') (next_free_order_idx b') F'" "distinct F'" by (rule free)+
  show "level_ok (orders b') (levels b' s' ! p') (upd2 Q s p xs s' p') (upd2 S s p st s' p')"
    if "p' < MAX_PRICES" for s' p'
  proof (cases "(s', p') = (s, p)")
    case True
    then show ?thesis using here(2) by simp
  next
    case False
    with level_ok_cong [OF frame [OF False] len(1) D(5) [OF that, of s']] other [OF False]
    show ?thesis by (auto simp: upd2_apply)
  qed
  show "upd2 Q s p xs s' p' = []" if "MAX_PRICES \<le> p'" for s' p'
    using D(6) [OF that] that here(1) by (auto simp: upd2_apply)
  show "distinct (upd2 Q s p xs s' p')" for s' p'
    using D(7) here(3) by (simp add: upd2_apply)
  show "set (upd2 Q s p xs s' p') \<inter> set F' = {}" for s' p'
    using apart [of s' p'] here(4) by (auto simp: upd2_apply)
  show "set (upd2 Q s p xs s1 p1) \<inter> set (upd2 Q s p xs s2 p2) = {}" if "(s1, p1) \<noteq> (s2, p2)" for s1 p1 s2 p2
    using D(9) [OF that] apart [of s1 p1] apart [of s2 p2] that by (auto simp: upd2_apply)
qed

section \<open>Frames\<close>

definition put_level :: "'a ladder_book_scheme \<Rightarrow> bool \<Rightarrow> nat \<Rightarrow> PriceLevel \<Rightarrow> 'a ladder_book_scheme" where
  "put_level b s p lv =
     (if s then b\<lparr>bid_levels := (bid_levels b)[p := lv]\<rparr> else b\<lparr>ask_levels := (ask_levels b)[p := lv]\<rparr>)"

lemma set_level_put [simp]:
  "unat price < length (levels b s) \<Longrightarrow> set_level b s price lv = ret (put_level b s (unat price) lv)"
  by (simp add: set_level_def levels_def put_level_def)

lemma put_level_simps [simp]:
  "orders (put_level b s p lv) = orders b" "id_map (put_level b s p lv) = id_map b"
  "next_free_order_idx (put_level b s p lv) = next_free_order_idx b"
  "ladder_book.more (put_level b s p lv) = ladder_book.more b"
  by (simp_all add: put_level_def)

lemma put_level_orders [simp]:
  "(put_level b s p lv)\<lparr>orders := os\<rparr> = put_level (b\<lparr>orders := os\<rparr>) s p lv"
  by (simp add: put_level_def)

lemma levels_put [simp]:
  "levels (put_level b s p lv) s' = (if s' = s then (levels b s)[p := lv] else levels b s')"
  by (simp add: put_level_def levels_def)

lemma levels_upd [simp]:
  "levels (b\<lparr>orders := os\<rparr>) s = levels b s" "levels (b\<lparr>id_map := m\<rparr>) s = levels b s"
  "levels (b\<lparr>next_free_order_idx := i\<rparr>) s = levels b s"
  by (simp_all add: levels_def)

lemma upd_order_in [simp]:
  "unat i < length (orders b) \<Longrightarrow>
   upd_order b i f = ret (b\<lparr>orders := (orders b)[unat i := f (orders b ! unat i)]\<rparr>)"
  by (simp add: upd_order_def)

text \<open>Same ids, prices, quantities and sides, in every slot; only links may differ.\<close>

definition same_data :: "Order list \<Rightarrow> Order list \<Rightarrow> bool" where
  "same_data os os' \<longleftrightarrow> length os' = length os \<and> (\<forall>k. o_id (os' ! k) = o_id (os ! k) \<and>
     o_price (os' ! k) = o_price (os ! k) \<and> o_qty (os' ! k) = o_qty (os ! k) \<and>
     o_is_buy (os' ! k) = o_is_buy (os ! k))"

lemma same_data_refl [simp]: "same_data os os"
  by (simp add: same_data_def)

lemma same_data_trans: "same_data a b \<Longrightarrow> same_data b c \<Longrightarrow> same_data a c"
  by (simp add: same_data_def)

lemma same_data_upd:
  assumes "\<And>n. o_id (f n) = o_id n" "\<And>n. o_price (f n) = o_price n" "\<And>n. o_qty (f n) = o_qty n"
    "\<And>n. o_is_buy (f n) = o_is_buy n"
  shows "same_data os (os[k := f (os ! k)])"
proof -
  have "os[k := f (os ! k)] ! j = (if j = k \<and> k < length os then f (os ! j) else os ! j)" for j
    by (cases "k < length os") (auto simp: nth_list_update list_update_beyond)
  then show ?thesis by (simp add: same_data_def assms)
qed

lemma same_data_links [simp]:
  "same_data os (os[k := (os ! k)\<lparr>o_next := v\<rparr>])"
  "same_data os (os[k := (os ! k)\<lparr>o_prev := v\<rparr>])"
  "same_data os (os[k := (os ! k)\<lparr>o_prev := v, o_next := w\<rparr>])"
  by (rule same_data_upd; simp)+

text \<open>What an operation on the links leaves alone.\<close>

definition same_rest :: "'a ladder_book_scheme \<Rightarrow> 'a ladder_book_scheme \<Rightarrow> bool" where
  "same_rest b b' \<longleftrightarrow> same_data (orders b) (orders b') \<and> id_map b' = id_map b \<and>
     ladder_book.more b' = ladder_book.more b"

lemma same_rest_refl [simp]: "same_rest b b"
  by (simp add: same_rest_def)

lemma same_rest_trans: "same_rest a b \<Longrightarrow> same_rest b c \<Longrightarrow> same_rest a c"
  by (auto simp: same_rest_def intro: same_data_trans)

section \<open>Unlinking\<close>

lemma remove1_split: "distinct (us @ x # vs) \<Longrightarrow> remove1 x (us @ x # vs) = us @ vs"
  by (simp add: remove1_append)

lemma unlink_order_run:
  fixes b :: "'a ladder_book_scheme"
  defines "ord x \<equiv> orders b ! unat x"
  assumes d: "dseg (orders b) p (lv_head lv) (us @ x # vs) (lv_tail lv) NULL_IDX"
    and dist: "distinct (us @ x # vs)"
    and lv: "get_level b (o_is_buy (ord x)) (o_price (ord x)) = ret lv"
    and clean: "us = [] \<Longrightarrow> p = NULL_IDX"
  defines "lv' \<equiv> \<lparr>lv_head = (if us = [] then o_next (ord x) else lv_head lv),
      lv_tail = (if vs = [] then o_prev (ord x) else lv_tail lv)\<rparr>"
  shows "\<exists>os. unlink_order b x =
        ret (put_level (b\<lparr>orders := os\<rparr>) (o_is_buy (ord x)) (unat (o_price (ord x))) lv') \<and>
      same_data (orders b) os \<and> dseg os p (lv_head lv') (us @ vs) (lv_tail lv') NULL_IDX \<and>
      (\<forall>y. y \<notin> set us \<union> set vs \<longrightarrow> os ! unat y = orders b ! unat y)"
proof -
  define pr where "pr = o_prev (ord x)"
  define nx where "nx = o_next (ord x)"
  note A = dseg_around [OF d, folded ord_def, folded pr_def nx_def]
  have head: "lv_head lv = x \<longleftrightarrow> us = []" using A(3) dist by (cases us) auto
  have tail: "lv_tail lv = x \<longleftrightarrow> vs = []" using A(4) dist last_in_set [of vs] by auto
  have prin: "pr \<in> set us \<and> pr \<noteq> NULL_IDX \<and> unat pr < length (orders b)" if "us \<noteq> []"
    using A(1) that dseg_in [OF d, of pr] by auto
  have nxin: "nx \<in> set vs \<and> nx \<noteq> NULL_IDX \<and> unat nx < length (orders b)" if "vs \<noteq> []"
    using A(2) that dseg_in [OF d, of nx] by auto
  have pr0: "pr = NULL_IDX" if "us = []" using A(1) clean that by simp
  have nx0: "nx = NULL_IDX" if "vs = []" using A(2) that by simp
  have lvlen: "unat (o_price (ord x)) < length (levels b (o_is_buy (ord x)))"
    using lv by (cases "unat (o_price (ord x)) < length (levels b (o_is_buy (ord x)))") (auto simp: get_level_def)
  define os1 where "os1 = (if us = [] then orders b
    else (orders b)[unat pr := (orders b ! unat pr)\<lparr>o_next := nx\<rparr>])"
  define os2 where "os2 = (if vs = [] then os1 else os1[unat nx := (os1 ! unat nx)\<lparr>o_prev := pr\<rparr>])"
  have seg: "dseg os2 p (lv_head lv') (us @ vs) (lv_tail lv') NULL_IDX"
    unfolding os2_def os1_def pr_def nx_def lv'_def ord_def PriceLevel.simps
    by (rule dseg_unlink [OF d dist])
  have data: "same_data (orders b) os2"
    unfolding os2_def by (cases "vs = []") (auto simp: os1_def intro: same_data_trans [OF _ same_data_links(2)])
  have keep: "os2 ! unat y = orders b ! unat y" if "y \<notin> set us \<union> set vs" for y
  proof -
    have "us \<noteq> [] \<Longrightarrow> y \<noteq> pr" and "vs \<noteq> [] \<Longrightarrow> y \<noteq> nx" using that prin nxin by auto
    then show ?thesis
      by (cases "us = []"; cases "vs = []") (simp_all add: os1_def os2_def nth_upd_other)
  qed
  define lv1 where "lv1 = (if lv_head lv = x then lv\<lparr>lv_head := nx\<rparr> else lv)"
  have lv2: "(if lv_tail lv1 = x then lv1\<lparr>lv_tail := pr\<rparr> else lv1) = lv'"
    by (rule PriceLevel.equality) (auto simp: lv1_def lv'_def head tail pr_def nx_def)
  let ?b1 = "put_level b (o_is_buy (ord x)) (unat (o_price (ord x))) lv'"
  let ?b2 = "put_level (b\<lparr>orders := os1\<rparr>) (o_is_buy (ord x)) (unat (o_price (ord x))) lv'"
  have s1: "(if pr \<noteq> NULL_IDX then upd_order ?b1 pr (\<lambda>n. n\<lparr>o_next := nx\<rparr>) else ret ?b1) = ret ?b2"
    using prin pr0 by (cases "us = []") (simp_all add: os1_def)
  have s2: "(if nx \<noteq> NULL_IDX then upd_order ?b2 nx (\<lambda>n. n\<lparr>o_prev := pr\<rparr>) else ret ?b2) =
      ret (put_level (b\<lparr>orders := os2\<rparr>) (o_is_buy (ord x)) (unat (o_price (ord x))) lv')"
    using nxin nx0 by (cases "vs = []") (simp_all add: os2_def os1_def)
  have get: "get_order b x = ret (ord x)"
    using A(6) by (simp add: get_order_def ord_def)
  have "unlink_order b x = ret (put_level (b\<lparr>orders := os2\<rparr>) (o_is_buy (ord x)) (unat (o_price (ord x))) lv')"
    unfolding unlink_order_def get ebind_ret lv Let_def pr_def [symmetric] nx_def [symmetric]
      lv1_def [symmetric] lv2 set_level_put [OF lvlen] s1 s2 ..
  with seg data keep show ?thesis by blast
qed

lemma unlink_order_returns:
  assumes L: "links b F Q S" and x: "x \<in> set (Q s p)"
    and data: "o_is_buy (orders b ! unat x) = s" "unat (o_price (orders b ! unat x)) = p"
    and head: "S s p \<Longrightarrow> hd (Q s p) \<noteq> x"
  shows "returns (unlink_order b x) (\<lambda>b'.
    links b' F (upd2 Q s p (remove1 x (Q s p))) (upd2 S s p (S s p \<and> remove1 x (Q s p) \<noteq> [])) \<and>
    same_rest b b' \<and> next_free_order_idx b' = next_free_order_idx b)"
proof -
  note D = linksD [OF L]
  obtain us vs where split: "Q s p = us @ x # vs" using split_list [OF x] by blast
  then have dist: "distinct (us @ x # vs)" using D(7) [of s p] by simp
  have rem: "remove1 x (Q s p) = us @ vs" using remove1_split [OF dist] by (simp only: split)
  have p: "p < MAX_PRICES" by (rule links_price [OF L x])
  define lv where "lv = levels b s ! p"
  have lv: "get_level b (o_is_buy (orders b ! unat x)) (o_price (orders b ! unat x)) = ret lv"
    using p D(2) by (simp add: get_level_def data lv_def)
  obtain pv where seg: "dseg (orders b) pv (lv_head lv) (us @ x # vs) (lv_tail lv) NULL_IDX"
    and pv: "\<not> S s p \<longrightarrow> pv = NULL_IDX"
    using D(5) [OF p, of s] unfolding split lv_def level_ok_def by auto
  have clean: "us = [] \<Longrightarrow> pv = NULL_IDX" using pv head by (auto simp: split)
  obtain os lv' where run: "unlink_order b x = ret (put_level (b\<lparr>orders := os\<rparr>) s p lv')"
    and same: "same_data (orders b) os"
    and seg': "dseg os pv (lv_head lv') (us @ vs) (lv_tail lv') NULL_IDX"
    and keep: "\<And>y. y \<notin> set us \<union> set vs \<Longrightarrow> os ! unat y = orders b ! unat y"
    using unlink_order_run [OF seg dist lv clean] unfolding data by metis
  have keep': "os ! unat y = orders b ! unat y" if "y \<notin> set (Q s p)" for y
    using that by (intro keep) (auto simp: split)
  let ?b' = "put_level (b\<lparr>orders := os\<rparr>) s p lv'"
  have len: "length os = length (orders b)" using same by (simp add: same_data_def)
  have ok: "level_ok os lv' (us @ vs) (S s p \<and> us @ vs \<noteq> [])"
    using seg' pv unfolding level_ok_def by metis
  have "links ?b' F (upd2 Q s p (us @ vs)) (upd2 S s p (S s p \<and> us @ vs \<noteq> []))"
  proof (rule links_update [OF L])
    fix s' p' y assume o: "(s', p') \<noteq> (s, p)"
    show "levels ?b' s' ! p' = levels b s' ! p'" using o by auto
    show "o_next (orders ?b' ! unat y) = o_next (orders b ! unat y) \<and>
        o_prev (orders ?b' ! unat y) = o_prev (orders b ! unat y)" if "y \<in> set (Q s' p')"
    proof -
      have "y \<notin> set (Q s p)" using D(9) [OF o] that by blast
      then show ?thesis by (simp add: keep')
    qed
    show "set (Q s' p') \<inter> (set (us @ vs) \<union> set F) = {}"
      using D(8) [of s' p'] D(9) [OF o] by (auto simp: split)
  next
    show "chain (orders ?b') (next_free_order_idx ?b') F"
    proof -
      have "y \<notin> set (Q s p)" if "y \<in> set F" for y using D(8) [of s p] that by blast
      then show ?thesis using len keep' by (auto intro!: chain_cong [OF _ _ D(3)])
    qed
    show "level_ok (orders ?b') (levels ?b' s ! p) (us @ vs) (S s p \<and> us @ vs \<noteq> [])"
      using ok p D(2) by simp
  qed (use D len p dist D(8) [of s p] in \<open>auto simp: split\<close>)
  with run same show ?thesis
    by (simp add: rem same_rest_def)
qed

section \<open>Releasing a slot and taking one\<close>

text \<open>A slot that is in no list (just unlinked, or just taken from the free list).\<close>

definition floating :: "u32 list \<Rightarrow> (bool \<Rightarrow> nat \<Rightarrow> u32 list) \<Rightarrow> u32 \<Rightarrow> bool" where
  "floating F Q x \<longleftrightarrow> x \<notin> set F \<and> (\<forall>s p. x \<notin> set (Q s p))"

lemma floating_neq:
  "floating F Q x \<Longrightarrow> y \<in> set F \<Longrightarrow> y \<noteq> x" "floating F Q x \<Longrightarrow> y \<in> set (Q s p) \<Longrightarrow> y \<noteq> x"
  by (auto simp: floating_def)

lemma not_floating: "y \<in> set F \<Longrightarrow> \<not> floating F Q y" "y \<in> set (Q s p) \<Longrightarrow> \<not> floating F Q y"
  by (auto simp: floating_def)

text \<open>Writes to slots in no list, to \<open>id_map\<close> and to the extension keep the lists.\<close>

lemma links_cong:
  assumes L: "links b F Q S"
    and len: "length (orders b') = length (orders b)" "length (id_map b') = length (id_map b)"
    and lv: "\<And>s. levels b' s = levels b s" "next_free_order_idx b' = next_free_order_idx b"
    and keep: "\<And>y. \<not> floating F Q y \<Longrightarrow> o_next (orders b' ! unat y) = o_next (orders b ! unat y) \<and>
      o_prev (orders b' ! unat y) = o_prev (orders b ! unat y)"
  shows "links b' F Q S"
proof -
  note D = linksD [OF L]
  have F: "chain (orders b') (next_free_order_idx b') F"
    unfolding lv(2) by (rule chain_cong [OF _ len(1) D(3)]) (use keep not_floating(1) in blast)
  have Q: "level_ok (orders b') (levels b' s ! p) (Q s p) (S s p)" if "p < MAX_PRICES" for s p
    unfolding lv(1) by (rule level_ok_cong [OF _ len(1) D(5) [OF that]]) (use keep not_floating(2) in blast)
  show ?thesis
    unfolding links_def using D F Q len lv by auto
qed

lemma release_slot_returns:
  assumes L: "links b F Q S" and x: "floating F Q x" "unat x < length (orders b)" "x \<noteq> NULL_IDX"
    and oid: "unat oid < length (orders b)"
  shows "returns (release_slot b x oid) (\<lambda>b'. links b' (x # F) Q S \<and>
    same_data (orders b) (orders b') \<and> id_map b' = (id_map b)[unat oid := NULL_IDX] \<and>
    ladder_book.more b' = ladder_book.more b)"
proof -
  note D = linksD [OF L]
  let ?os = "(orders b)[unat x := (orders b ! unat x)\<lparr>o_prev := NULL_IDX, o_next := next_free_order_idx b\<rparr>]"
  let ?b' = "b\<lparr>orders := ?os, next_free_order_idx := x, id_map := (id_map b)[unat oid := NULL_IDX]\<rparr>"
  have run: "release_slot b x oid = ret ?b'"
    using x oid D(1) by (simp add: release_slot_def set_id_map_def)
  have keep: "?os ! unat y = orders b ! unat y" if "y \<noteq> x" for y
    using that by (rule nth_upd_other)
  have F: "chain ?os (next_free_order_idx b) F"
    by (rule chain_cong [OF _ _ D(3)]) (simp_all add: keep floating_neq(1) [OF x(1)])
  have "links ?b' (x # F) Q S"
    unfolding links_def
  proof (intro conjI allI impI)
    show "chain (orders ?b') (next_free_order_idx ?b') (x # F)" using F x by simp
    show "level_ok (orders ?b') (levels ?b' s ! p) (Q s p) (S s p)" if "p < MAX_PRICES" for s p
    proof -
      have "level_ok ?os (levels b s ! p) (Q s p) (S s p)"
        by (rule level_ok_cong [OF _ _ D(5) [OF that]]) (simp_all add: keep floating_neq(2) [OF x(1)])
      then show ?thesis by simp
    qed
  qed (use D x(1) in \<open>auto simp: floating_def\<close>)
  with run show ?thesis by simp
qed

definition new_order :: "u64 \<Rightarrow> u64 \<Rightarrow> u32 \<Rightarrow> bool \<Rightarrow> Order" where
  "new_order oid price qty is_buy = \<lparr>o_id = oid, o_price = price, o_qty = qty, o_is_buy = is_buy,
     o_next = NULL_IDX, o_prev = NULL_IDX\<rparr>"

lemma new_order_simps [simp]:
  "o_id (new_order oid price qty s) = oid" "o_price (new_order oid price qty s) = price"
  "o_qty (new_order oid price qty s) = qty" "o_is_buy (new_order oid price qty s) = s"
  "o_next (new_order oid price qty s) = NULL_IDX" "o_prev (new_order oid price qty s) = NULL_IDX"
  by (simp_all add: new_order_def)

lemma fill_slot_returns:
  assumes L: "links b (x # F) Q S" and oid: "unat oid < length (orders b)"
  shows "returns (fill_slot b x oid price qty is_buy) (\<lambda>b'. links b' F Q S \<and> floating F Q x \<and>
    orders b' = (orders b)[unat x := new_order oid price qty is_buy] \<and> id_map b' = (id_map b)[unat oid := x] \<and>
    ladder_book.more b' = ladder_book.more b)"
proof -
  note D = linksD [OF L]
  from D(3) have x: "next_free_order_idx b = x" "x \<noteq> NULL_IDX" "unat x < length (orders b)"
    and F: "chain (orders b) (o_next (orders b ! unat x)) F" by auto
  let ?os = "(orders b)[unat x := new_order oid price qty is_buy]"
  let ?b' = "b\<lparr>orders := ?os, next_free_order_idx := o_next (orders b ! unat x), id_map := (id_map b)[unat oid := x]\<rparr>"
  have fl: "floating F Q x" using D(4) D(8) by (fastforce simp: floating_def)
  have run: "fill_slot b x oid price qty is_buy = ret ?b'"
    using x oid D(1) by (simp add: fill_slot_def get_order_def set_id_map_def new_order_def)
  have keep: "?os ! unat y = orders b ! unat y" if "y \<noteq> x" for y
    using that by (rule nth_upd_other)
  have "links ?b' F Q S"
    unfolding links_def
  proof (intro conjI allI impI)
    show "chain (orders ?b') (next_free_order_idx ?b') F"
      using chain_cong [OF _ _ F, of ?os] by (simp add: keep floating_neq(1) [OF fl])
    show "level_ok (orders ?b') (levels ?b' s ! p) (Q s p) (S s p)" if "p < MAX_PRICES" for s p
    proof -
      have "level_ok ?os (levels b s ! p) (Q s p) (S s p)"
        by (rule level_ok_cong [OF _ _ D(5) [OF that]]) (simp_all add: keep floating_neq(2) [OF fl])
      then show ?thesis by simp
    qed
  qed (use D in \<open>auto\<close>)
  with run fl show ?thesis by simp
qed

section \<open>Linking at the tail of a level\<close>

lemma level_append:
  assumes ok: "level_ok os lv xs st" and dist: "distinct xs"
    and x: "x \<notin> set xs" "unat x < length os" "x \<noteq> NULL_IDX"
    and os': "length os' = length os"
      "\<And>y. y \<in> set xs \<Longrightarrow> y \<noteq> last xs \<Longrightarrow> os' ! unat y = os ! unat y"
      "xs \<noteq> [] \<Longrightarrow> os' ! unat (last xs) = (os ! unat (last xs))\<lparr>o_next := x\<rparr>"
      "o_next (os' ! unat x) = NULL_IDX" "o_prev (os' ! unat x) = (if xs = [] then NULL_IDX else last xs)"
  shows "level_ok os' (if xs = [] then \<lparr>lv_head = x, lv_tail = x\<rparr> else lv\<lparr>lv_tail := x\<rparr>) (xs @ [x]) st"
proof (cases "xs = []")
  case True
  then show ?thesis using x os' by (auto simp: level_ok_def)
next
  case False
  from ok False obtain p where seg: "dseg os p (lv_head lv) xs (lv_tail lv) NULL_IDX"
    and p: "\<not> st \<longrightarrow> p = NULL_IDX" by (auto simp: level_ok_def)
  have t: "lv_tail lv = last xs" using dseg_last [OF seg] False by simp
  have "last xs \<in> set xs" using False by simp
  then have tlen: "unat (last xs) < length os" using dseg_in [OF seg] by blast
  have "dseg (os[unat (last xs) := (os ! unat (last xs))\<lparr>o_next := x\<rparr>]) p (lv_head lv) xs (last xs) x"
    using dseg_set_next [OF seg False dist] by (simp add: t)
  then have "dseg os' p (lv_head lv) xs (last xs) x"
  proof (rule dseg_cong [rotated 2])
    fix y assume y: "y \<in> set xs"
    show "os' ! unat y = os[unat (last xs) := (os ! unat (last xs))\<lparr>o_next := x\<rparr>] ! unat y"
      using os'(2) [OF y] os'(3) [OF False] tlen by (cases "y = last xs") (simp_all add: nth_upd_other)
  qed (use os'(1) in simp)
  then have "dseg os' p (lv_head lv) (xs @ [x]) x NULL_IDX"
    using x os' False by (auto simp: dseg_append)
  with p False show ?thesis by (auto simp: level_ok_def)
qed

lemma links_append:
  assumes L: "links b F Q S" and fl: "floating F Q x" and x: "unat x < length (orders b)" "x \<noteq> NULL_IDX"
    and p: "p < MAX_PRICES"
    and os': "length os' = length (orders b)"
      "\<And>y. y \<noteq> x \<Longrightarrow> Q s p = [] \<or> y \<noteq> last (Q s p) \<Longrightarrow> os' ! unat y = orders b ! unat y"
      "Q s p \<noteq> [] \<Longrightarrow> os' ! unat (last (Q s p)) = (orders b ! unat (last (Q s p)))\<lparr>o_next := x\<rparr>"
      "o_next (os' ! unat x) = NULL_IDX"
      "o_prev (os' ! unat x) = (if Q s p = [] then NULL_IDX else last (Q s p))"
    and lv': "lv' = (if Q s p = [] then \<lparr>lv_head = x, lv_tail = x\<rparr> else (levels b s ! p)\<lparr>lv_tail := x\<rparr>)"
  shows "links (put_level (b\<lparr>orders := os'\<rparr>) s p lv') F (upd2 Q s p (Q s p @ [x])) S"
proof -
  note D = linksD [OF L]
  let ?b' = "put_level (b\<lparr>orders := os'\<rparr>) s p lv'"
  have xs: "x \<notin> set (Q s' p')" for s' p' using fl by (simp add: floating_def)
  have keep: "os' ! unat y = orders b ! unat y" if "y \<noteq> x" "y \<notin> set (Q s p)" for y
    using os'(2) [OF that(1)] that(2) last_in_set [of "Q s p"] by (cases "Q s p = []") metis+
  have "links ?b' F (upd2 Q s p (Q s p @ [x])) (upd2 S s p (S s p))"
  proof (rule links_update [OF L])
    fix s' p' y assume o: "(s', p') \<noteq> (s, p)"
    show "levels ?b' s' ! p' = levels b s' ! p'" using o by auto
    show "o_next (orders ?b' ! unat y) = o_next (orders b ! unat y) \<and>
        o_prev (orders ?b' ! unat y) = o_prev (orders b ! unat y)" if "y \<in> set (Q s' p')"
    proof -
      have "y \<notin> set (Q s p)" using D(9) [OF o] that by blast
      moreover have "y \<noteq> x" using xs that by blast
      ultimately show ?thesis by (simp add: keep)
    qed
    show "set (Q s' p') \<inter> (set (Q s p @ [x]) \<union> set F) = {}"
      using D(8) [of s' p'] D(9) [OF o] xs [of s' p'] by auto
  next
    have "o_next (os' ! unat y) = o_next (orders b ! unat y)" if "y \<in> set F" for y
    proof -
      have "y \<notin> set (Q s p)" using D(8) [of s p] that by blast
      then show ?thesis by (simp add: keep floating_neq(1) [OF fl that])
    qed
    then have "chain os' (next_free_order_idx b) F"
      using chain_cong [OF _ os'(1) D(3)] by blast
    then show "chain (orders ?b') (next_free_order_idx ?b') F" by simp
    have "level_ok os' lv' (Q s p @ [x]) (S s p)"
      unfolding lv'
    proof (rule level_append [OF D(5) [OF p] D(7)])
      fix y assume "y \<in> set (Q s p)" "y \<noteq> last (Q s p)"
      with xs show "os' ! unat y = orders b ! unat y" by (intro os'(2)) auto
    qed (use xs x os' in simp_all)
    then show "level_ok (orders ?b') (levels ?b' s ! p) (Q s p @ [x]) (S s p)"
      using p D(2) by simp
    show "set (Q s p @ [x]) \<inter> set F = {}"
      using D(8) [of s p] fl by (auto simp: floating_def)
  qed (use D p xs os'(1) in auto)
  then show ?thesis by simp
qed

lemma link_tail_returns:
  assumes L: "links b F Q S" and fl: "floating F Q x" and x: "unat x < length (orders b)" "x \<noteq> NULL_IDX"
    and p: "unat price < MAX_PRICES"
    and new: "o_next (orders b ! unat x) = NULL_IDX" "o_prev (orders b ! unat x) = NULL_IDX"
  shows "returns (link_tail b s price x) (\<lambda>b'.
    links b' F (upd2 Q s (unat price) (Q s (unat price) @ [x])) S \<and> same_rest b b')"
proof -
  note D = linksD [OF L]
  define lv where "lv = levels b s ! unat price"
  let ?xs = "Q s (unat price)"
  have get: "get_level b s price = ret lv"
    using p D(2) by (simp add: get_level_def lv_def)
  obtain pv t where seg: "dseg (orders b) pv (lv_head lv) ?xs t NULL_IDX" and t: "?xs \<noteq> [] \<longrightarrow> lv_tail lv = t"
    using D(5) [OF p, of s] by (auto simp: level_ok_def lv_def)
  show ?thesis
  proof (cases "?xs = []")
    case True
    then have "lv_head lv = NULL_IDX" using dseg_hd [OF seg] by simp
    with get p D(2) have "link_tail b s price x = ret (put_level b s (unat price) \<lparr>lv_head = x, lv_tail = x\<rparr>)"
      by (simp add: link_tail_def)
    moreover have "links (put_level (b\<lparr>orders := orders b\<rparr>) s (unat price) \<lparr>lv_head = x, lv_tail = x\<rparr>) F
        (upd2 Q s (unat price) (?xs @ [x])) S"
      by (rule links_append [OF L fl x p]) (use new True in auto)
    ultimately show ?thesis by (simp add: same_rest_def)
  next
    case False
    then have last: "lv_tail lv = last ?xs" "last ?xs \<in> set ?xs" using dseg_last [OF seg] t by auto
    then have lx: "last ?xs \<noteq> x" "unat (last ?xs) < length (orders b)"
      using fl links_in [OF L] by (auto simp: floating_def)
    have "lv_head lv \<noteq> NULL_IDX" using dseg_hd [OF seg] False dseg_in [OF seg, of "hd ?xs"] by auto
    define os1 where "os1 = (orders b)[unat (last ?xs) := (orders b ! unat (last ?xs))\<lparr>o_next := x\<rparr>]"
    define os2 where "os2 = os1[unat x := (os1 ! unat x)\<lparr>o_prev := last ?xs\<rparr>]"
    have run: "link_tail b s price x = ret (put_level (b\<lparr>orders := os2\<rparr>) s (unat price) (lv\<lparr>lv_tail := x\<rparr>))"
      using get \<open>lv_head lv \<noteq> NULL_IDX\<close> last lx x p D(2)
      by (simp add: link_tail_def Let_def os1_def os2_def)
    have data: "same_data (orders b) os2"
      unfolding os2_def os1_def by (rule same_data_trans [OF same_data_links(1) same_data_links(2)])
    have "links (put_level (b\<lparr>orders := os2\<rparr>) s (unat price) (lv\<lparr>lv_tail := x\<rparr>)) F
        (upd2 Q s (unat price) (?xs @ [x])) S"
      by (rule links_append [OF L fl x p])
         (use new False lx x in \<open>auto simp: os2_def os1_def lv_def nth_upd_other\<close>)
    with run data show ?thesis by (simp add: same_rest_def)
  qed
qed

section \<open>What the slots hold\<close>

definition o_data :: "Order \<Rightarrow> u64 \<times> u64 \<times> u32 \<times> bool" where
  "o_data n = (o_id n, o_price n, o_qty n, o_is_buy n)"

lemma same_data_at: "same_data os os' \<Longrightarrow> o_data (os' ! k) = o_data (os ! k)"
  by (simp add: same_data_def o_data_def)

lemma o_dataD:
  "o_data n = o_data m \<Longrightarrow> o_id n = o_id m \<and> o_price n = o_price m \<and> o_qty n = o_qty m \<and> o_is_buy n = o_is_buy m"
  by (simp add: o_data_def)

text \<open>Every resting order knows its side and price, and \<open>id_map\<close> leads to it.\<close>

definition slots :: "'a ladder_book_scheme \<Rightarrow> (bool \<Rightarrow> nat \<Rightarrow> u32 list) \<Rightarrow> bool" where
  "slots b Q \<longleftrightarrow> (\<forall>s p x. x \<in> set (Q s p) \<longrightarrow>
     o_is_buy (orders b ! unat x) = s \<and> unat (o_price (orders b ! unat x)) = p \<and>
     unat (o_id (orders b ! unat x)) < length (id_map b) \<and>
     id_map b ! unat (o_id (orders b ! unat x)) = x)"

lemma slotsD:
  assumes "slots b Q" and "x \<in> set (Q s p)"
  shows "o_is_buy (orders b ! unat x) = s" and "unat (o_price (orders b ! unat x)) = p"
    and "unat (o_id (orders b ! unat x)) < length (id_map b)"
    and "id_map b ! unat (o_id (orders b ! unat x)) = x"
  using assms unfolding slots_def by blast+

lemma slots_same_id:
  assumes "slots b Q" and "x \<in> set (Q s p)" and "y \<in> set (Q s' p')"
    and "o_id (orders b ! unat x) = o_id (orders b ! unat y)"
  shows "x = y"
  by (metis slotsD(4) assms)

text \<open>The queue of ids and quantities a list of slots stands for.\<close>

definition entries :: "Order list \<Rightarrow> u32 list \<Rightarrow> (nat \<times> nat) list" where
  "entries os xs = map (\<lambda>x. (unat (o_id (os ! unat x)), unat (o_qty (os ! unat x)))) xs"

lemma entries_simps [simp]:
  "entries os [] = []"
  "entries os (x # xs) = (unat (o_id (os ! unat x)), unat (o_qty (os ! unat x))) # entries os xs"
  "entries os (xs @ ys) = entries os xs @ entries os ys"
  "length (entries os xs) = length xs" "entries os xs = [] \<longleftrightarrow> xs = []"
  by (auto simp: entries_def)

lemma entries_cong:
  "(\<And>x. x \<in> set xs \<Longrightarrow> o_data (os' ! unat x) = o_data (os ! unat x)) \<Longrightarrow> entries os' xs = entries os xs"
  unfolding entries_def o_data_def by (rule map_cong [OF refl]) simp

lemma entries_other:
  assumes "x \<notin> set ys" and "\<And>y. y \<noteq> x \<Longrightarrow> o_data (os' ! unat y) = o_data (os ! unat y)"
  shows "entries os' ys = entries os ys"
proof (rule entries_cong)
  fix y assume "y \<in> set ys"
  with assms(1) have "y \<noteq> x" by blast
  then show "o_data (os' ! unat y) = o_data (os ! unat y)" by (rule assms(2))
qed

section \<open>Filling a level\<close>

lemma narrow_sub_eq:
  assumes "y \<le> (x :: u32)"
  shows "narrow_sub x (ucast y) = x - y"
proof (rule word_unat_eq_iff [THEN iffD2])
  have le: "unat y \<le> unat x" using assms by (simp add: word_le_nat_alt)
  have "(ucast y :: u64) \<le> ucast x" using le by (simp add: word_le_nat_alt)
  then have "unat ((ucast x :: u64) - ucast y) = unat x - unat y"
    by (simp add: unat_sub)
  moreover have "unat x - unat y < 4294967296"
    using unat_u32_less [of x] by linarith
  ultimately have "unat (narrow_sub x (ucast y)) = unat x - unat y"
    by (simp add: narrow_sub_def)
  also have "\<dots> = unat (x - y)" using assms by (simp add: unat_sub)
  finally show "unat (narrow_sub x (ucast y)) = unat (x - y)" .
qed

lemma pop_head_returns:
  assumes L: "links b F Q S" and Q: "Q s (unat price) = x # ys"
    and oid: "unat (o_id (orders b ! unat x)) < length (orders b)"
  shows "returns (pop_head b s price x) (\<lambda>b'.
    links b' (x # F) (upd2 Q s (unat price) ys) (upd2 S s (unat price) (ys \<noteq> [])) \<and>
    same_data (orders b) (orders b') \<and>
    id_map b' = (id_map b)[unat (o_id (orders b ! unat x)) := NULL_IDX] \<and>
    ladder_book.more b' = ladder_book.more b)"
proof -
  let ?p = "unat price"
  note D = linksD [OF L]
  have xin: "x \<in> set (Q s ?p)" using Q by simp
  then have x: "x \<noteq> NULL_IDX" "unat x < length (orders b)" using links_in [OF L] by auto
  have p: "?p < MAX_PRICES" by (rule links_price [OF L xin])
  have xF: "x \<notin> set F" and xys: "x \<notin> set ys" using D(7,8) [of s ?p] Q by auto
  define ord where "ord = orders b ! unat x"
  define lv where "lv = levels b s ! ?p"
  define lv' where "lv' = (if o_next ord = NULL_IDX then \<lparr>lv_head = o_next ord, lv_tail = NULL_IDX\<rparr>
    else lv\<lparr>lv_head := o_next ord\<rparr>)"
  have seg: "dseg (orders b) x (o_next ord) ys (lv_tail lv) NULL_IDX"
    using D(5) [OF p, of s] Q by (auto simp: level_ok_def lv_def ord_def)
  define os where "os = (orders b)[unat x := ord\<lparr>o_next := next_free_order_idx b\<rparr>]"
  let ?b' = "put_level (b\<lparr>orders := os, id_map := (id_map b)[unat (o_id ord) := NULL_IDX],
    next_free_order_idx := x\<rparr>) s ?p lv'"
  have keep: "os ! unat y = orders b ! unat y" if "y \<noteq> x" for y
    using that by (simp add: os_def nth_upd_other)
  let ?b1 = "b\<lparr>id_map := (id_map b)[unat (o_id ord) := NULL_IDX]\<rparr>"
  have get: "get_order b x = ret ord" using x by (simp add: get_order_def ord_def)
  have sid: "set_id_map b (o_id ord) NULL_IDX = ret ?b1"
    using oid D(1) by (simp add: set_id_map_def ord_def)
  have lvl: "get_level ?b1 s price = ret lv"
    using p D(2) by (simp add: get_level_def lv_def)
  have plen: "?p < length (levels ?b1 s)" using p D(2) by simp
  have lv2: "(if lv_head (lv\<lparr>lv_head := o_next ord\<rparr>) = NULL_IDX
      then lv\<lparr>lv_head := o_next ord\<rparr>\<lparr>lv_tail := NULL_IDX\<rparr> else lv\<lparr>lv_head := o_next ord\<rparr>) = lv'"
    by (rule PriceLevel.equality) (auto simp: lv'_def)
  have upd: "upd_order (put_level ?b1 s ?p lv') x (\<lambda>n. n\<lparr>o_next := next_free_order_idx (put_level ?b1 s ?p lv')\<rparr>) =
      ret ((put_level ?b1 s ?p lv')\<lparr>orders := os\<rparr>)"
    using x by (simp add: os_def ord_def)
  have run: "pop_head b s price x = ret ?b'"
    unfolding pop_head_def get ebind_ret sid lvl Let_def lv2 set_level_put [OF plen] upd
    by (simp add: put_level_def)
  have data: "same_data (orders b) os"
    unfolding os_def ord_def by (rule same_data_links)
  have seg': "dseg os x (o_next ord) ys (lv_tail lv) NULL_IDX"
    using xys by (intro dseg_cong [OF _ _ seg]) (auto simp: os_def intro: nth_upd_other)
  have ok: "level_ok os lv' ys (ys \<noteq> [])"
  proof (cases "ys = []")
    case True
    then show ?thesis using seg by (simp add: level_ok_def lv'_def)
  next
    case False
    then have "o_next ord \<noteq> NULL_IDX" using seg by (cases ys) auto
    with seg' False show ?thesis by (auto simp: level_ok_def lv'_def)
  qed
  have "links ?b' (x # F) (upd2 Q s ?p ys) (upd2 S s ?p (ys \<noteq> []))"
  proof (rule links_update [OF L])
    fix s' p' y assume o: "(s', p') \<noteq> (s, ?p)"
    show "levels ?b' s' ! p' = levels b s' ! p'" using o by auto
    have xo: "x \<notin> set (Q s' p')" using D(9) [OF o] xin by blast
    show "o_next (orders ?b' ! unat y) = o_next (orders b ! unat y) \<and>
        o_prev (orders ?b' ! unat y) = o_prev (orders b ! unat y)" if "y \<in> set (Q s' p')"
    proof -
      have "y \<noteq> x" using xo that by blast
      then show ?thesis by (simp add: keep)
    qed
    show "set (Q s' p') \<inter> (set ys \<union> set (x # F)) = {}"
      using D(8) [of s' p'] D(9) [OF o] Q xo by auto
  next
    have "o_next (os ! unat y) = o_next (orders b ! unat y)" if "y \<in> set F" for y
      using keep [of y] xF that by metis
    then have "chain os (next_free_order_idx b) F"
      using chain_cong [OF _ _ D(3), of os] by (simp add: os_def)
    then show "chain (orders ?b') (next_free_order_idx ?b') (x # F)" using x by (simp add: os_def)
    show "level_ok (orders ?b') (levels ?b' s ! ?p) ys (ys \<noteq> [])" using ok p D(2) by simp
  qed (use D(1,2,4) D(7,8) [of s ?p] p xF xys Q in \<open>auto simp: os_def\<close>)
  with run data show ?thesis by (simp add: ord_def)
qed

lemma links_stale:
  assumes "links b F Q S" and "\<And>s p. Q s p \<noteq> [] \<Longrightarrow> S s p \<Longrightarrow> S' s p"
  shows "links b F Q S'"
proof -
  have "level_ok os lv (Q s p) (S' s p)" if "level_ok os lv (Q s p) (S s p)" for os lv s p
    using that assms(2) [of s p] unfolding level_ok_def by blast
  note D = linksD [OF assms(1)] and lvl = this
  show ?thesis
    unfolding links_def
  proof (intro conjI allI impI)
    show "level_ok (orders b) (levels b s ! p) (Q s p) (S' s p)" if "p < MAX_PRICES" for s p
      by (rule lvl [OF D(5) [OF that]])
  qed (use D in simp_all)
qed

lemma links_length: "links b F Q S \<Longrightarrow> length (id_map b) = length (orders b)"
  by (simp add: linksD(1))

text \<open>Only the quantity of one slot changes.\<close>

lemma links_set_qty:
  assumes "links b F Q S" and "orders b' = (orders b)[k := (orders b ! k)\<lparr>o_qty := q\<rparr>]"
    and "id_map b' = id_map b" "\<And>s. levels b' s = levels b s" "next_free_order_idx b' = next_free_order_idx b"
  shows "links b' F Q S"
proof (rule links_cong [OF assms(1)])
  fix y :: u32
  show "o_next (orders b' ! unat y) = o_next (orders b ! unat y) \<and> o_prev (orders b' ! unat y) = o_prev (orders b ! unat y)"
    by (cases "k = unat y"; cases "k < length (orders b)") (simp_all add: assms(2) list_update_beyond)
qed (simp_all add: assms)

text \<open>The slots a level loses when its first \<open>n\<close> orders are filled, and what stays.\<close>

definition level_run ::
  "'a ladder_book_scheme \<Rightarrow> u32 list \<Rightarrow> (bool \<Rightarrow> nat \<Rightarrow> u32 list) \<Rightarrow> (bool \<Rightarrow> nat \<Rightarrow> bool) \<Rightarrow>
   bool \<Rightarrow> nat \<Rightarrow> nat \<Rightarrow> 'a ladder_book_scheme \<Rightarrow> bool" where
  "level_run b F Q S s p n b' \<longleftrightarrow>
     links b' (rev (take n (Q s p)) @ F) (upd2 Q s p (drop n (Q s p)))
       (upd2 S s p (drop n (Q s p) \<noteq> [] \<and> (n \<noteq> 0 \<or> S s p))) \<and>
     slots b' (upd2 Q s p (drop n (Q s p))) \<and>
     (\<forall>x. x \<notin> set (Q s p) \<longrightarrow> o_data (orders b' ! unat x) = o_data (orders b ! unat x)) \<and>
     (\<forall>k. id_map b' ! k = (if k \<in> set (map fst (entries (orders b) (take n (Q s p)))) then NULL_IDX else id_map b ! k)) \<and>
     length (orders b') = length (orders b) \<and> ladder_book.more b' = ladder_book.more b"

lemma level_run_0:
  assumes "links b' F Q S" and "slots b' Q"
    and "\<And>x. x \<notin> set (Q s p) \<Longrightarrow> o_data (orders b' ! unat x) = o_data (orders b ! unat x)"
    and "id_map b' = id_map b" "length (orders b') = length (orders b)" "ladder_book.more b' = ladder_book.more b"
  shows "level_run b F Q S s p 0 b'"
proof -
  have "links b' F Q (upd2 S s p (Q s p \<noteq> [] \<and> S s p))"
    by (rule links_stale [OF assms(1)]) (auto simp: upd2_apply)
  with assms show ?thesis by (simp add: level_run_def)
qed

lemma slots_cong:
  assumes "slots b Q" and "\<And>s p x. x \<in> set (Q' s p) \<Longrightarrow> x \<in> set (Q s p)"
    and "\<And>s p x. x \<in> set (Q' s p) \<Longrightarrow> o_id (orders b' ! unat x) = o_id (orders b ! unat x) \<and>
      o_price (orders b' ! unat x) = o_price (orders b ! unat x) \<and> o_is_buy (orders b' ! unat x) = o_is_buy (orders b ! unat x)"
    and "length (id_map b') = length (id_map b)"
    and "\<And>s p x. x \<in> set (Q' s p) \<Longrightarrow> id_map b' ! unat (o_id (orders b ! unat x)) = id_map b ! unat (o_id (orders b ! unat x))"
  shows "slots b' Q'"
  unfolding slots_def
proof (intro allI impI)
  fix s p x assume x: "x \<in> set (Q' s p)"
  note x' = assms(2) [OF x]
  show "o_is_buy (orders b' ! unat x) = s \<and> unat (o_price (orders b' ! unat x)) = p \<and>
      unat (o_id (orders b' ! unat x)) < length (id_map b') \<and> id_map b' ! unat (o_id (orders b' ! unat x)) = x"
    using slotsD [OF assms(1) x'] assms(3) [OF x] assms(4) assms(5) [OF x] by simp
qed

text \<open>One iteration that fills the head completely.\<close>

lemma pop_filled_head:
  assumes L: "links b F Q S" and sl: "slots b Q" and Q: "Q s (unat price) = x # ys"
    and b1: "b1 = b\<lparr>orders := (orders b)[unat x := (orders b ! unat x)\<lparr>o_qty := r\<rparr>]\<rparr>"
  shows "returns (pop_head b1 s price x) (\<lambda>b2.
    links b2 (x # F) (upd2 Q s (unat price) ys) (upd2 S s (unat price) (ys \<noteq> [])) \<and>
    slots b2 (upd2 Q s (unat price) ys) \<and>
    (\<forall>y. y \<noteq> x \<longrightarrow> o_data (orders b2 ! unat y) = o_data (orders b ! unat y)) \<and>
    id_map b2 = (id_map b)[unat (o_id (orders b ! unat x)) := NULL_IDX] \<and>
    length (orders b2) = length (orders b) \<and> ladder_book.more b2 = ladder_book.more b)"
proof -
  let ?p = "unat price"
  have xin: "x \<in> set (Q s ?p)" using Q by simp
  have xlen: "unat x < length (orders b)" using links_in [OF L xin] by simp
  have oid: "o_id (orders b1 ! unat x) = o_id (orders b ! unat x)" using xlen by (simp add: b1)
  have L1: "links b1 F Q S" by (rule links_set_qty [OF L]) (simp_all add: b1)
  have idlen: "unat (o_id (orders b1 ! unat x)) < length (orders b1)"
    using slotsD(3) [OF sl xin] linksD(1) [OF L] oid by (simp add: b1)
  have keep1: "orders b1 ! unat y = orders b ! unat y" if "y \<noteq> x" for y
    using that by (simp add: b1 nth_upd_other)
  show ?thesis
  proof (rule returns_mono [OF pop_head_returns [OF L1 Q idlen]], elim conjE)
    fix b2 assume links2: "links b2 (x # F) (upd2 Q s ?p ys) (upd2 S s ?p (ys \<noteq> []))"
      and data: "same_data (orders b1) (orders b2)"
      and idm: "id_map b2 = (id_map b1)[unat (o_id (orders b1 ! unat x)) := NULL_IDX]"
      and more: "ladder_book.more b2 = ladder_book.more b1"
    have keep: "o_data (orders b2 ! unat y) = o_data (orders b ! unat y)" if "y \<noteq> x" for y
      using same_data_at [OF data] keep1 [OF that] by simp
    have idm': "id_map b2 = (id_map b)[unat (o_id (orders b ! unat x)) := NULL_IDX]"
      using idm unfolding oid by (simp add: b1)
    have out: "y \<in> set (Q s' p') \<and> y \<noteq> x" if "y \<in> set (upd2 Q s ?p ys s' p')" for y s' p'
    proof (cases "(s', p') = (s, ?p)")
      case True
      then show ?thesis using that Q linksD(7) [OF L, of s ?p] by auto
    next
      case False
      then show ?thesis using that xin linksD(9) [OF L False] by (auto simp: upd2_apply)
    qed
    have "slots b2 (upd2 Q s ?p ys)"
    proof (rule slots_cong [OF sl])
      fix s' p' y assume y: "y \<in> set (upd2 Q s ?p ys s' p')"
      show "y \<in> set (Q s' p')" using out [OF y] by simp
      show "o_id (orders b2 ! unat y) = o_id (orders b ! unat y) \<and>
          o_price (orders b2 ! unat y) = o_price (orders b ! unat y) \<and> o_is_buy (orders b2 ! unat y) = o_is_buy (orders b ! unat y)"
        using keep [of y] out [OF y] by (simp add: o_data_def)
      have "o_id (orders b ! unat y) \<noteq> o_id (orders b ! unat x)"
        using slots_same_id [OF sl _ xin, of y s' p'] out [OF y] by auto
      then have "unat (o_id (orders b ! unat y)) \<noteq> unat (o_id (orders b ! unat x))"
        by (simp add: word_unat_eq_iff)
      then show "id_map b2 ! unat (o_id (orders b ! unat y)) = id_map b ! unat (o_id (orders b ! unat y))"
        by (simp add: idm')
    qed (simp add: idm')
    with links2 keep idm' more show "links b2 (x # F) (upd2 Q s ?p ys) (upd2 S s ?p (ys \<noteq> [])) \<and>
        slots b2 (upd2 Q s ?p ys) \<and> (\<forall>y. y \<noteq> x \<longrightarrow> o_data (orders b2 ! unat y) = o_data (orders b ! unat y)) \<and>
        id_map b2 = (id_map b)[unat (o_id (orders b ! unat x)) := NULL_IDX] \<and>
        length (orders b2) = length (orders b) \<and> ladder_book.more b2 = ladder_book.more b"
      using data by (simp add: same_data_def b1)
  qed
qed

lemma level_run_pop:
  assumes Q: "Q s p = x # ys"
    and data: "\<And>y. y \<noteq> x \<Longrightarrow> o_data (orders b' ! unat y) = o_data (orders b ! unat y)"
    and dist: "distinct (x # ys)"
    and idm: "id_map b' = (id_map b)[unat (o_id (orders b ! unat x)) := NULL_IDX]"
    and idlen: "unat (o_id (orders b ! unat x)) < length (id_map b)"
    and len: "length (orders b') = length (orders b)" and more: "ladder_book.more b' = ladder_book.more b"
    and run: "level_run b' (x # F) (upd2 Q s p ys) (upd2 S s p (ys \<noteq> [])) s p n b''"
  shows "level_run b F Q S s p (Suc n) b''"
proof -
  have ent: "entries (orders b') (take n ys) = entries (orders b) (take n ys)"
  proof (rule entries_cong)
    fix y assume "y \<in> set (take n ys)"
    then have "y \<noteq> x" using dist by (auto dest: in_set_takeD)
    then show "o_data (orders b' ! unat y) = o_data (orders b ! unat y)" by (rule data)
  qed
  have stale: "(\<not> length ys \<le> n \<and> (0 < n \<or> ys \<noteq> [])) = (\<not> length ys \<le> n)" by auto
  have idk: "id_map b'' ! k = (if k \<in> set (map fst (entries (orders b) (x # take n ys))) then NULL_IDX else id_map b ! k)"
    for k
    using run idm idlen unfolding level_run_def
    by (auto simp: ent nth_list_update)
  show ?thesis
    using run data len more dist idk unfolding level_run_def
    by (simp add: Q stale)
qed

theorem match_level_returns:
  assumes "links b F Q S" and "slots b Q" and "unat price < MAX_PRICES"
  shows "returns (match_level b s price q) (\<lambda>(b', q'). \<exists>n \<le> length (Q s (unat price)).
    level_run b F Q S s (unat price) n b' \<and>
    fill (entries (orders b) (Q s (unat price))) (unat q) =
      (map fst (entries (orders b) (take n (Q s (unat price)))),
       entries (orders b') (drop n (Q s (unat price))), unat q'))"
  using assms
proof (induction "Q s (unat price)" arbitrary: b F Q S q)
  case Nil
  let ?p = "unat price"
  note L = Nil.prems(1) and Q = Nil.hyps [symmetric]
  have "level_ok (orders b) (levels b s ! ?p) [] (S s ?p)"
    using linksD(5) [OF L Nil.prems(3), of s] by (simp add: Q)
  then have "lv_head (levels b s ! ?p) = NULL_IDX" by (simp add: level_ok_def)
  moreover have "get_level b s price = ret (levels b s ! ?p)"
    using linksD(2) [OF L] Nil.prems(3) by (simp add: get_level_def)
  ultimately have "match_level b s price q = ret (b, q)"
    by (subst match_level.simps) simp
  moreover have "level_run b F Q S s ?p 0 b"
    by (rule level_run_0 [OF L Nil.prems(2)]) simp_all
  ultimately show ?case by (simp add: Q)
next
  case (Cons x ys)
  let ?p = "unat price"
  note L = Cons.prems(1) and sl = Cons.prems(2) and Q = Cons.hyps(2) [symmetric]
  have xin: "x \<in> set (Q s ?p)" by (simp add: Q)
  have x: "x \<noteq> NULL_IDX" "unat x < length (orders b)" using links_in [OF L xin] by auto
  have dist: "distinct (x # ys)" using linksD(7) [OF L, of s ?p] by (simp add: Q)
  define ord where "ord = orders b ! unat x"
  define lv where "lv = levels b s ! ?p"
  have get: "get_level b s price = ret lv"
    using linksD(2) [OF L] Cons.prems(3) by (simp add: get_level_def lv_def)
  have head: "lv_head lv = x"
    using linksD(5) [OF L Cons.prems(3), of s] by (auto simp: Q level_ok_def lv_def)
  have geto: "get_order b x = ret ord" using x by (simp add: get_order_def ord_def)
  show ?case
  proof (cases "q = 0")
    case True
    then have "match_level b s price q = ret (b, q)"
      using get by (subst match_level.simps) simp
    moreover have "level_run b F Q S s ?p 0 b"
      by (rule level_run_0 [OF L sl]) simp_all
    ultimately show ?thesis using True by (auto intro: exI [of _ 0])
  next
    case False
    then have q: "0 < q" by (simp add: word_neq_0_conv)
    define t where "t = min q (o_qty ord)"
    define b1 where "b1 = b\<lparr>orders := (orders b)[unat x := (orders b ! unat x)\<lparr>o_qty := o_qty ord - t\<rparr>]\<rparr>"
    have t: "t \<le> q" "t \<le> o_qty ord" by (simp_all add: t_def)
    have upd: "upd_order b x (\<lambda>n. n\<lparr>o_qty := o_qty ord - t\<rparr>) = ret b1"
      using x by (simp add: b1_def)
    have step: "match_level b s price q = (if o_qty ord - t = 0
        then ebind (pop_head b1 s price x) (\<lambda>b2. match_level b2 s price (q - t)) else ret (b1, q - t))"
      by (subst match_level.simps)
         (simp add: get head x q geto Let_def t_def [symmetric] narrow_sub_eq t b1_def)
    show ?thesis
    proof (cases "o_qty ord \<le> q")
      case True
      then have qt: "t = o_qty ord" "unat (q - t) = unat q - unat (o_qty ord)"
        by (simp_all add: t_def min_absorb2 unat_sub)
      have idlen: "unat (o_id ord) < length (id_map b)" using slotsD(3) [OF sl xin] by (simp add: ord_def)
      have run: "match_level b s price q = ebind (pop_head b1 s price x) (\<lambda>b2. match_level b2 s price (q - t))"
        using step qt by simp
      show ?thesis
        unfolding run
      proof (rule returns_ebindI [OF pop_filled_head [OF L sl Q b1_def]], elim conjE)
        fix b2
        assume L2: "links b2 (x # F) (upd2 Q s ?p ys) (upd2 S s ?p (ys \<noteq> []))"
          and sl2: "slots b2 (upd2 Q s ?p ys)"
          and data: "\<forall>y. y \<noteq> x \<longrightarrow> o_data (orders b2 ! unat y) = o_data (orders b ! unat y)"
          and rest: "id_map b2 = (id_map b)[unat (o_id (orders b ! unat x)) := NULL_IDX]"
            "length (orders b2) = length (orders b)" "ladder_book.more b2 = ladder_book.more b"
        have ent: "entries (orders b2) zs = entries (orders b) zs" if "set zs \<subseteq> set ys" for zs
          using dist data that by (intro entries_cong) auto
        have le: "unat (o_qty ord) \<le> unat q" "unat q \<noteq> 0"
          using True False by (simp_all add: word_le_nat_alt unat_eq_0)
        have IH: "returns (match_level b2 s price (q - t)) (\<lambda>(b', q'). \<exists>n \<le> length ys.
            level_run b2 (x # F) (upd2 Q s ?p ys) (upd2 S s ?p (ys \<noteq> [])) s ?p n b' \<and>
            fill (entries (orders b2) ys) (unat (q - t)) =
              (map fst (entries (orders b2) (take n ys)), entries (orders b') (drop n ys), unat q'))"
          using Cons.hyps(1) [OF _ L2 sl2 Cons.prems(3), of "q - t"] by simp
        show "returns (match_level b2 s price (q - t)) (\<lambda>(b', q'). \<exists>n \<le> length (Q s ?p).
            level_run b F Q S s ?p n b' \<and>
            fill (entries (orders b) (Q s ?p)) (unat q) =
              (map fst (entries (orders b) (take n (Q s ?p))), entries (orders b') (drop n (Q s ?p)), unat q'))"
        proof (rule returns_mono [OF IH], clarify)
          fix b' and q' :: u32 and n
          assume n: "n \<le> length ys"
            and lr: "level_run b2 (x # F) (upd2 Q s ?p ys) (upd2 S s ?p (ys \<noteq> [])) s ?p n b'"
            and fl: "fill (entries (orders b2) ys) (unat (q - t)) =
              (map fst (entries (orders b2) (take n ys)), entries (orders b') (drop n ys), unat q')"
          have "level_run b F Q S s ?p (Suc n) b'"
            by (rule level_run_pop [OF Q _ dist rest(1) _ rest(2,3) lr])
               (use data idlen in \<open>simp_all add: ord_def\<close>)
          moreover have "fill (entries (orders b) ys) (unat q - unat (o_qty ord)) =
              (map fst (entries (orders b) (take n ys)), entries (orders b') (drop n ys), unat q')"
            using fl ent [of ys] ent [OF set_take_subset, of n] qt(2) by simp
          ultimately show "\<exists>n \<le> length (Q s ?p). level_run b F Q S s ?p n b' \<and>
              fill (entries (orders b) (Q s ?p)) (unat q) =
                (map fst (entries (orders b) (take n (Q s ?p))), entries (orders b') (drop n (Q s ?p)), unat q')"
            using n le by (intro exI [of _ "Suc n"]) (simp add: Q ord_def [symmetric])
        qed
      qed
    next
      case False
      then have qt: "t = q" by (simp add: t_def)
      have more: "o_qty ord - q \<noteq> 0" using False by auto
      have lt: "unat q < unat (o_qty ord)" using False by (simp add: word_le_nat_alt)
      have run: "match_level b s price q = ret (b1, 0)" using step qt more by simp
      have L1: "links b1 F Q S" by (rule links_set_qty [OF L]) (simp_all add: b1_def)
      have keep: "orders b1 ! unat y = orders b ! unat y" if "y \<noteq> x" for y
        using that by (simp add: b1_def nth_upd_other)
      have same: "o_id (orders b1 ! unat y) = o_id (orders b ! unat y) \<and>
          o_price (orders b1 ! unat y) = o_price (orders b ! unat y) \<and> o_is_buy (orders b1 ! unat y) = o_is_buy (orders b ! unat y)" for y :: u32
        using x keep [of y] by (cases "y = x") (simp_all add: b1_def)
      have sl1: "slots b1 Q" by (rule slots_cong [OF sl]) (simp_all add: same, simp_all add: b1_def)
      have "level_run b F Q S s ?p 0 b1"
      proof (rule level_run_0 [OF L1 sl1])
        fix y assume "y \<notin> set (Q s ?p)"
        with xin have "y \<noteq> x" by blast
        then show "o_data (orders b1 ! unat y) = o_data (orders b ! unat y)" by (simp add: keep)
      qed (simp_all add: b1_def)
      moreover have "entries (orders b1) ys = entries (orders b) ys"
        by (rule entries_other [of x]) (use keep dist in \<open>simp_all\<close>)
      moreover have "unat (o_qty ord - q) = unat (o_qty ord) - unat q"
        using lt by (intro unat_sub) (simp add: word_le_nat_alt)
      moreover have "o_qty (orders b1 ! unat x) = o_qty ord - q" "o_id (orders b1 ! unat x) = o_id ord"
        using x by (simp_all add: b1_def qt ord_def)
      moreover have "unat q \<noteq> 0" using \<open>q \<noteq> 0\<close> by (simp add: unat_eq_0)
      ultimately have "level_run b F Q S s ?p 0 b1 \<and> fill (entries (orders b) (Q s ?p)) (unat q) =
          (map fst (entries (orders b) (take 0 (Q s ?p))), entries (orders b1) (drop 0 (Q s ?p)), unat (0 :: u32))"
        using lt by (simp add: Q ord_def [symmetric])
      then show ?thesis unfolding run by (auto simp: returns_def)
    qed
  qed
qed

end
