(* ===== verification/Book_Rep.thy ===== *)
theory Book_Rep
  imports Ladder_Rep
begin

text \<open>
  The abstraction relation between an array book and an abstract book, and what each shared
  piece of \<open>Ladder\<close> does to the abstract book it represents.  Both array books are built from
  these lemmas; only their outer matching loops and the price indices differ.
\<close>

section \<open>The abstraction relation\<close>

text \<open>
  In \<open>rep b a F Q K\<close> the set \<open>K\<close> holds the ids whose \<open>id_map\<close> entry is \<open>NULL_IDX\<close> when they
  do not rest: \<open>a_known a\<close> between operations, less the order in hand inside one.
\<close>

definition rep :: "'a ladder_book_scheme \<Rightarrow> abook \<Rightarrow> u32 list \<Rightarrow> (bool \<Rightarrow> nat \<Rightarrow> u32 list) \<Rightarrow> nat set \<Rightarrow> bool" where
  "rep b a F Q K \<longleftrightarrow> links b F Q (a_stale a) \<and> slots b Q \<and> a_cap a = length (orders b) \<and>
     (\<forall>s p. a_q a s p = entries (orders b) (Q s p)) \<and>
     (\<forall>i \<in> K. i < length (orders b) \<longrightarrow> a_loc a i = None \<longrightarrow> id_map b ! i = NULL_IDX)"

definition refines :: "'a ladder_book_scheme \<Rightarrow> abook \<Rightarrow> bool" where
  "refines b a \<longleftrightarrow> awf a \<and> aroom a \<and> (\<exists>F Q. rep b a F Q (a_known a) \<and> a_free a = length F)"

lemma repD:
  assumes "rep b a F Q K"
  shows "links b F Q (a_stale a)" and "slots b Q" and "a_cap a = length (orders b)"
    and "a_q a s p = entries (orders b) (Q s p)"
    and "i \<in> K \<Longrightarrow> i < length (orders b) \<Longrightarrow> a_loc a i = None \<Longrightarrow> id_map b ! i = NULL_IDX"
  using assms unfolding rep_def by blast+

lemma rep_mono: "rep b a F Q K \<Longrightarrow> K' \<subseteq> K \<Longrightarrow> rep b a F Q K'"
  unfolding rep_def by blast

lemma rep_free_known [simp]:
  "rep b (a\<lparr>a_free := n\<rparr>) F Q K = rep b a F Q K" "rep b (a\<lparr>a_known := X\<rparr>) F Q K = rep b a F Q K"
  by (simp_all add: rep_def)

text \<open>The extension of the record plays no part.\<close>

lemma rep_more:
  assumes "rep b a F Q K" and "orders b' = orders b" "bid_levels b' = bid_levels b" "ask_levels b' = ask_levels b"
    "id_map b' = id_map b" "next_free_order_idx b' = next_free_order_idx b"
  shows "rep b' a F Q K"
proof -
  have lv: "levels b' s = levels b s" for s using assms(3,4) by (simp add: levels_def)
  have "links b' F Q (a_stale a)"
    by (rule links_cong [OF repD(1) [OF assms(1)]]) (simp_all add: assms(2-) lv)
  moreover have "slots b' Q"
    by (rule slots_cong [OF repD(2) [OF assms(1)]]) (simp_all add: assms(2-))
  ultimately show ?thesis
    using repD(3,4,5) [OF assms(1)] by (simp add: rep_def assms(2,5))
qed

lemma head_iff:
  assumes "links b F Q S" and "p < MAX_PRICES"
  shows "lv_head (levels b s ! p) = NULL_IDX \<longleftrightarrow> Q s p = []"
proof -
  obtain pv t where seg: "dseg (orders b) pv (lv_head (levels b s ! p)) (Q s p) t NULL_IDX"
    using linksD(5) [OF assms(1,2), of s] by (auto simp: level_ok_def)
  then show ?thesis using dseg_hd [OF seg] dseg_in [OF seg, of "hd (Q s p)"] by auto
qed

lemma rep_head:
  assumes "rep b a F Q K" and "p < MAX_PRICES"
  shows "lv_head (levels b s ! p) = NULL_IDX \<longleftrightarrow> a_q a s p = []"
  using head_iff [OF repD(1) [OF assms(1)] assms(2)] repD(4) [OF assms(1), of s p] by simp

lemma entry_slot:
  assumes "rep b a F Q K" and "i \<in> fst ` set (a_q a s p)"
  obtains x where "x \<in> set (Q s p)" and "unat (o_id (orders b ! unat x)) = i" and "id_map b ! i = x"
    and "i < length (orders b)" and "x \<noteq> NULL_IDX" and "unat x < length (orders b)"
    and "o_is_buy (orders b ! unat x) = s" and "unat (o_price (orders b ! unat x)) = p"
proof -
  from assms(2) repD(4) [OF assms(1), of s p]
  obtain x where x: "x \<in> set (Q s p)" "unat (o_id (orders b ! unat x)) = i"
    by (auto simp: entries_def)
  from slotsD [OF repD(2) [OF assms(1)] x(1)] links_in [OF repD(1) [OF assms(1)] x(1)]
    linksD(1) [OF repD(1) [OF assms(1)]] x that
  show thesis by (metis)
qed

lemma slot_ids_distinct:
  assumes "rep b a F Q K" and "x \<in> set (Q s p)" and "y \<in> set (Q s' p')"
    and "unat (o_id (orders b ! unat x)) = unat (o_id (orders b ! unat y))"
  shows "x = y"
  by (metis slots_same_id [OF repD(2) [OF assms(1)] assms(2,3)] assms(4) unsigned_word_eqI)

text \<open>Looking up an id whose entry has been written.\<close>

lemma find_slot_known:
  assumes rep: "rep b a F Q K" and wf: "awf a" and known: "unat oid \<in> K \<or> a_cap a \<le> unat oid"
  obtains (absent) "a_loc a (unat oid) = None" and "find_slot b oid = None"
  | (found) s p x where "a_loc a (unat oid) = Some (s, p)" and "find_slot b oid = Some x"
      and "x \<in> set (Q s p)" and "unat (o_id (orders b ! unat x)) = unat oid"
      and "id_map b ! unat oid = x" and "unat oid < length (orders b)" and "p < MAX_PRICES"
      and "x \<noteq> NULL_IDX" and "unat x < length (orders b)"
      and "o_is_buy (orders b ! unat x) = s" and "unat (o_price (orders b ! unat x)) = p"
proof (cases "a_loc a (unat oid)")
  case None
  then have "find_slot b oid = None"
    using repD(5) [OF rep, of "unat oid"] repD(3) [OF rep] linksD(1) [OF repD(1) [OF rep]] known
    by (cases "unat oid < length (orders b)") (auto simp: find_slot_def not_less)
  with None absent show thesis by blast
next
  case (Some sp)
  then obtain s p where loc: "a_loc a (unat oid) = Some (s, p)" by (cases sp) auto
  then have "unat oid \<in> fst ` set (a_q a s p)" using awfD(1) [OF wf] by blast
  from entry_slot [OF rep this] obtain x where x: "x \<in> set (Q s p)" "unat (o_id (orders b ! unat x)) = unat oid"
    "id_map b ! unat oid = x" "unat oid < length (orders b)" "x \<noteq> NULL_IDX" "unat x < length (orders b)"
    "o_is_buy (orders b ! unat x) = s" "unat (o_price (orders b ! unat x)) = p" .
  then have "find_slot b oid = Some x"
    using linksD(1) [OF repD(1) [OF rep]] by (simp add: find_slot_def)
  moreover have "p < MAX_PRICES" by (rule links_price [OF repD(1) [OF rep] x(1)])
  ultimately show thesis using loc x found by blast
qed

lemma map_of_entries:
  assumes "rep b a F Q K" and "x \<in> set (Q s p)"
  shows "map_of (a_q a s p) (unat (o_id (orders b ! unat x))) = Some (unat (o_qty (orders b ! unat x)))"
proof -
  have "map_of (entries (orders b) xs) (unat (o_id (orders b ! unat x))) = Some (unat (o_qty (orders b ! unat x)))"
    if "x \<in> set xs" "set xs \<subseteq> set (Q s p)" for xs
    using that
  proof (induction xs)
    case (Cons y xs)
    show ?case
    proof (cases "x = y")
      case False
      then have "unat (o_id (orders b ! unat y)) \<noteq> unat (o_id (orders b ! unat x))"
        using slot_ids_distinct [OF assms(1) assms(2), of y s p] Cons.prems(2) by auto
      with False Cons show ?thesis by simp
    qed simp
  qed simp
  with assms(2) show ?thesis using repD(4) [OF assms(1), of s p] by simp
qed

theorem get_quantity_rep:
  assumes "rep b a F Q K" and "awf a" and "unat oid \<in> K \<or> a_cap a \<le> unat oid"
  shows "returns (get_quantity b oid) (\<lambda>r. unat r = spec_get_quantity a (unat oid))"
proof (rule find_slot_known [OF assms])
  assume "a_loc a (unat oid) = None" "find_slot b oid = None"
  then show ?thesis by (simp add: get_quantity_def spec_get_quantity_def)
next
  fix s p x assume *: "a_loc a (unat oid) = Some (s, p)" "find_slot b oid = Some x" "x \<in> set (Q s p)"
    "unat (o_id (orders b ! unat x)) = unat oid" "unat x < length (orders b)"
  then show ?thesis
    using map_of_entries [OF assms(1) *(3)]
    by (simp add: get_quantity_def get_order_def spec_get_quantity_def)
qed

section \<open>When the operations are specified\<close>

text \<open>
  Adding needs an id that is in range and not resting, unless the pool is empty; cancelling
  and replacing need an id whose entry has been written (or that is out of range) and that is
  not the head of a stale level.
\<close>

definition can_add :: "abook \<Rightarrow> nat \<Rightarrow> bool" where
  "can_add a oid \<longleftrightarrow> a_free a = 0 \<or> (oid < a_cap a \<and> a_loc a oid = None)"

definition submit_ok :: "abook \<Rightarrow> nat \<Rightarrow> nat \<Rightarrow> nat \<Rightarrow> bool \<Rightarrow> bool" where
  "submit_ok a oid price q s = (case spec_match a price q s of (a', q') \<Rightarrow> q' = 0 \<or> can_add a' oid)"

text \<open>
  An id at or above the capacity is not refused: with quantity left and a slot free, \<open>id_map\<close> is
  written at it.
\<close>

definition id_overruns :: "abook \<Rightarrow> nat \<Rightarrow> nat \<Rightarrow> nat \<Rightarrow> bool \<Rightarrow> bool" where
  "id_overruns a oid price q s =
     (case spec_match a price q s of (a', q') \<Rightarrow> 0 < q' \<and> 0 < a_free a' \<and> a_cap a' \<le> oid)"

lemma fill_slot_overruns:
  assumes "rep b a F Q K" and "0 < length F" and "a_cap a \<le> unat oid"
  shows "next_free_order_idx b \<noteq> NULL_IDX"
    and "fill_slot b (next_free_order_idx b) oid price q s = stop OutOfBounds"
proof -
  note L = linksD [OF repD(1) [OF assms(1)]]
  from assms(2) obtain x xs where "F = x # xs" by (cases F) auto
  then have x: "next_free_order_idx b \<noteq> NULL_IDX" "unat (next_free_order_idx b) < length (orders b)"
    using L(3) by auto
  then show "next_free_order_idx b \<noteq> NULL_IDX" by simp
  show "fill_slot b (next_free_order_idx b) oid price q s = stop OutOfBounds"
    using x assms(3) L(1) repD(3) [OF assms(1)]
    by (simp add: fill_slot_def get_order_def upd_order_def set_id_map_def)
qed

lemma can_add_awf: "awf a \<Longrightarrow> can_add a oid \<Longrightarrow> awf (spec_add a oid price q s)"
  by (cases "a_free a = 0") (auto simp: can_add_def intro: spec_add_awf, simp add: spec_add_def)

section \<open>Unlinking and releasing\<close>

lemma same_dataD:
  assumes "same_data os os'"
  shows "o_id (os' ! k) = o_id (os ! k)" and "o_price (os' ! k) = o_price (os ! k)"
    and "o_qty (os' ! k) = o_qty (os ! k)" and "o_is_buy (os' ! k) = o_is_buy (os ! k)"
    and "length os' = length os"
  using assms by (simp_all add: same_data_def)

lemma same_data_entries: "same_data os os' \<Longrightarrow> entries os' xs = entries os xs"
  by (simp add: entries_def same_data_def)

lemma slots_same_data:
  assumes "slots b Q" and "same_data (orders b) (orders b')" and "id_map b' = id_map b"
    and "\<And>s p x. x \<in> set (Q' s p) \<Longrightarrow> x \<in> set (Q s p)"
  shows "slots b' Q'"
  by (rule slots_cong [OF assms(1,4)]) (simp_all add: assms(3) same_dataD [OF assms(2)])

lemma drop_id_entries:
  assumes rep: "rep b a F Q K" and x: "x \<in> set (Q s p)"
  shows "entries (orders b) (remove1 x (Q s p)) = drop_id (unat (o_id (orders b ! unat x))) (a_q a s p)"
proof -
  let ?id = "\<lambda>y. unat (o_id (orders b ! unat y))"
  have dist: "distinct (Q s p)" by (rule linksD(7) [OF repD(1) [OF rep]])
  have "entries (orders b) (filter ((\<noteq>) x) ys) = drop_id (?id x) (entries (orders b) ys)"
    if "set ys \<subseteq> set (Q s p)" for ys
    using that
  proof (induction ys)
    case (Cons y ys)
    then show ?case
      using slot_ids_distinct [OF rep, of y s p x s p] x by (auto simp: drop_id_def)
  qed (simp add: drop_id_def)
  then show ?thesis
    using repD(4) [OF rep, of s p] dist
    by (simp add: distinct_remove1_removeAll removeAll_filter_not_eq)
qed

text \<open>The order sits where the abstract book says; a stale head must not be unlinked.\<close>

definition known_id :: "abook \<Rightarrow> nat \<Rightarrow> bool" where
  "known_id a oid \<longleftrightarrow> oid \<in> a_known a \<or> a_cap a \<le> oid"

definition can_unlink :: "abook \<Rightarrow> nat \<Rightarrow> bool" where
  "can_unlink a oid = (case a_loc a oid of None \<Rightarrow> True
     | Some (s, p) \<Rightarrow> a_stale a s p \<longrightarrow> fst (hd (a_q a s p)) \<noteq> oid)"

text \<open>Replacing unlinks the order unless it keeps its place, and never checks the new price.\<close>

definition replace_ok :: "abook \<Rightarrow> nat \<Rightarrow> nat \<Rightarrow> nat \<Rightarrow> bool" where
  "replace_ok a oid new_price new_qty \<longleftrightarrow> known_id a oid \<and> (case a_loc a oid of None \<Rightarrow> True
     | Some (s, p) \<Rightarrow>
         (p \<noteq> new_price \<or> (spec_get_quantity a oid < new_qty \<and> length (a_q a s p) \<noteq> 1)) \<longrightarrow>
         new_price < MAX_PRICES \<and> can_unlink a oid)"

lemma unlink_rep:
  assumes rep: "rep b a F Q K" and x: "x \<in> set (Q s p)" and oid: "unat (o_id (orders b ! unat x)) = i"
    and loc: "a_loc a i = Some (s, p)" and ok: "can_unlink a i"
  shows "returns (unlink_order b x) (\<lambda>b'.
    rep b' (spec_unlink a i s p) F (upd2 Q s p (remove1 x (Q s p))) (K - {i}) \<and>
    floating F (upd2 Q s p (remove1 x (Q s p))) x \<and> same_rest b b')"
proof -
  note R = repD [OF rep] and D = linksD [OF repD(1) [OF rep]]
  let ?Q = "upd2 Q s p (remove1 x (Q s p))"
  have head: "a_stale a s p \<Longrightarrow> hd (Q s p) \<noteq> x"
  proof
    assume "a_stale a s p" "hd (Q s p) = x"
    with x have "fst (hd (a_q a s p)) = i" using oid by (cases "Q s p") (auto simp: R(4))
    with ok loc \<open>a_stale a s p\<close> show False by (simp add: can_unlink_def)
  qed
  have dist: "distinct (Q s p)" by (rule D(7))
  have sub: "y \<in> set (Q s' p') \<and> y \<noteq> x" if "y \<in> set (?Q s' p')" for y s' p'
  proof (cases "(s', p') = (s, p)")
    case True
    then show ?thesis using that dist by simp
  next
    case False
    then show ?thesis using that x D(9) [OF False] by (auto simp: upd2_apply)
  qed
  have fl: "floating F ?Q x"
    using sub D(8) [of s p] x by (auto simp: floating_def)
  note run = unlink_order_returns [OF R(1) x slotsD(1) [OF R(2) x] slotsD(2) [OF R(2) x] head]
  show ?thesis
  proof (rule returns_mono [OF run])
    fix b' assume b': "links b' F ?Q (upd2 (a_stale a) s p (a_stale a s p \<and> remove1 x (Q s p) \<noteq> [])) \<and>
      same_rest b b' \<and> next_free_order_idx b' = next_free_order_idx b"
    then have data: "same_data (orders b) (orders b')" and idm: "id_map b' = id_map b"
      by (simp_all add: same_rest_def)
    have dr: "entries (orders b) (remove1 x (Q s p)) = drop_id i (a_q a s p)"
      using drop_id_entries [OF rep x] by (simp only: oid)
    then have ne: "remove1 x (Q s p) \<noteq> [] \<longleftrightarrow> drop_id i (a_q a s p) \<noteq> []"
      by (metis entries_simps(5))
    have "rep b' (spec_unlink a i s p) F ?Q (K - {i})"
      unfolding rep_def
    proof (intro conjI allI ballI impI)
      show "links b' F ?Q (a_stale (spec_unlink a i s p))"
        using b' by (simp add: spec_unlink_def ne)
      show "slots b' ?Q" by (rule slots_same_data [OF R(2) data idm]) (simp add: sub)
      show "a_cap (spec_unlink a i s p) = length (orders b')" using R(3) same_dataD(5) [OF data] by simp
      show "a_q (spec_unlink a i s p) s' p' = entries (orders b') (?Q s' p')" for s' p'
        using dr R(4) by (simp add: spec_unlink_def upd2_apply same_data_entries [OF data])
      show "id_map b' ! j = NULL_IDX" if "j \<in> K - {i}" "j < length (orders b')" "a_loc (spec_unlink a i s p) j = None" for j
        using that R(5) [of j] idm same_dataD(5) [OF data] by simp
    qed
    with fl b' show "rep b' (spec_unlink a i s p) F ?Q (K - {i}) \<and> floating F ?Q x \<and> same_rest b b'"
      by blast
  qed
qed

lemma slot_id_neq:
  assumes "rep b a F Q K" and "a_loc a i = None" and "awf a" and "x \<in> set (Q s p)"
  shows "unat (o_id (orders b ! unat x)) \<noteq> i"
proof
  assume "unat (o_id (orders b ! unat x)) = i"
  moreover have "unat (o_id (orders b ! unat x)) \<in> fst ` set (a_q a s p)"
    using assms(4) repD(4) [OF assms(1), of s p] by (force simp: entries_def)
  ultimately show False using awf_loc_None [OF assms(3)] assms(2) by blast
qed

lemma release_rep:
  assumes rep: "rep b a F Q K" and wf: "awf a" and x: "floating F Q x" "unat x < length (orders b)" "x \<noteq> NULL_IDX"
    and oid: "unat oid < length (orders b)" and loc: "a_loc a (unat oid) = None"
  shows "returns (release_slot b x oid) (\<lambda>b'. rep b' a (x # F) Q (insert (unat oid) K) \<and>
    ladder_book.more b' = ladder_book.more b)"
proof (rule returns_mono [OF release_slot_returns [OF repD(1) [OF rep] x oid]], elim conjE)
  note R = repD [OF rep]
  fix b' assume L: "links b' (x # F) Q (a_stale a)" and data: "same_data (orders b) (orders b')"
    and idm: "id_map b' = (id_map b)[unat oid := NULL_IDX]" and more: "ladder_book.more b' = ladder_book.more b"
  have "slots b' Q"
  proof (rule slots_cong [OF R(2)])
    fix s p y assume y: "y \<in> set (Q s p)"
    show "id_map b' ! unat (o_id (orders b ! unat y)) = id_map b ! unat (o_id (orders b ! unat y))"
      using slot_id_neq [OF rep loc wf y] by (simp add: idm)
  qed (simp_all add: idm same_dataD [OF data])
  then have "rep b' a (x # F) Q (insert (unat oid) K)"
    using L R(3) R(4) R(5) oid linksD(1) [OF R(1)]
    by (auto simp: rep_def same_dataD [OF data] same_data_entries [OF data] idm nth_list_update)
  with more show "rep b' a (x # F) Q (insert (unat oid) K) \<and> ladder_book.more b' = ladder_book.more b" by blast
qed

section \<open>Taking a slot and linking it\<close>

lemma fill_slot_rep:
  assumes rep: "rep b a (x # F) Q K" and wf: "awf a" and oid: "unat oid < length (orders b)"
    and loc: "a_loc a (unat oid) = None"
  shows "returns (fill_slot b x oid price qty s) (\<lambda>b'. rep b' a F Q (K - {unat oid}) \<and> floating F Q x \<and>
    orders b' ! unat x = new_order oid price qty s \<and> id_map b' ! unat oid = x \<and>
    length (orders b') = length (orders b) \<and> ladder_book.more b' = ladder_book.more b)"
proof (rule returns_mono [OF fill_slot_returns [OF repD(1) [OF rep] oid]], elim conjE)
  note R = repD [OF rep]
  fix b' assume L: "links b' F Q (a_stale a)" and fl: "floating F Q x"
    and os: "orders b' = (orders b)[unat x := new_order oid price qty s]"
    and idm: "id_map b' = (id_map b)[unat oid := x]" and more: "ladder_book.more b' = ladder_book.more b"
  have x: "unat x < length (orders b)" using linksD(3) [OF R(1)] by simp
  have keep: "orders b' ! unat y = orders b ! unat y" if "y \<in> set (Q s' p')" for y s' p'
    using floating_neq(2) [OF fl that] by (simp add: os nth_upd_other)
  have "slots b' Q"
  proof (rule slots_cong [OF R(2)])
    fix s' p y assume y: "y \<in> set (Q s' p)"
    show "id_map b' ! unat (o_id (orders b ! unat y)) = id_map b ! unat (o_id (orders b ! unat y))"
      using slot_id_neq [OF rep loc wf y] by (simp add: idm)
  qed (simp_all add: idm keep)
  moreover have "entries (orders b') (Q s' p) = entries (orders b) (Q s' p)" for s' p
    by (rule entries_cong) (simp add: keep)
  ultimately have "rep b' a F Q (K - {unat oid})"
    using L R(3) R(4) R(5) by (auto simp: rep_def os idm)
  with fl x oid more linksD(1) [OF R(1)]
  show "rep b' a F Q (K - {unat oid}) \<and> floating F Q x \<and> orders b' ! unat x = new_order oid price qty s \<and>
      id_map b' ! unat oid = x \<and> length (orders b') = length (orders b) \<and> ladder_book.more b' = ladder_book.more b"
    by (simp add: os idm)
qed

text \<open>
  A slot that now stands at the tail of its level, holds its order and is named by
  \<open>id_map\<close>, is a linked order of the abstract book.
\<close>

lemma linked_rep:
  assumes rep: "rep b a F Q K" and wf: "awf a" and loc: "a_loc a i = None"
    and L: "links b' F (upd2 Q s p (Q s p @ [x])) (a_stale a)"
    and fl: "floating F Q x"
    and data: "\<And>y. y \<noteq> x \<Longrightarrow> o_data (orders b' ! unat y) = o_data (orders b ! unat y)"
    and len: "length (orders b') = length (orders b)" and idm: "id_map b' = id_map b"
    and new: "unat (o_id (orders b' ! unat x)) = i" "unat (o_price (orders b' ! unat x)) = p"
      "o_is_buy (orders b' ! unat x) = s" "unat (o_qty (orders b' ! unat x)) = q"
    and named: "i < length (id_map b)" "id_map b ! i = x"
  shows "rep b' (spec_link a i s p q) F (upd2 Q s p (Q s p @ [x])) (insert i K)"
  unfolding rep_def
proof (intro conjI allI ballI impI)
  note R = repD [OF rep]
  have keep: "o_data (orders b' ! unat y) = o_data (orders b ! unat y)" if "y \<in> set (Q s' p')" for y s' p'
    using floating_neq(2) [OF fl that] by (rule data)
  have same: "entries (orders b') (Q s' p') = entries (orders b) (Q s' p')" for s' p'
    by (rule entries_cong) (rule keep)
  show "links b' F (upd2 Q s p (Q s p @ [x])) (a_stale (spec_link a i s p q))"
    using L by (simp add: spec_link_def)
  show "slots b' (upd2 Q s p (Q s p @ [x]))"
    unfolding slots_def
  proof (intro allI impI)
    fix s' p' y assume y: "y \<in> set (upd2 Q s p (Q s p @ [x]) s' p')"
    show "o_is_buy (orders b' ! unat y) = s' \<and> unat (o_price (orders b' ! unat y)) = p' \<and>
        unat (o_id (orders b' ! unat y)) < length (id_map b') \<and> id_map b' ! unat (o_id (orders b' ! unat y)) = y"
    proof (cases "y = x")
      case True
      then show ?thesis
        using y fl new named idm by (auto simp: upd2_apply floating_def split: if_splits)
    next
      case False
      then have "y \<in> set (Q s' p')" using y by (auto simp: upd2_apply split: if_splits)
      from slotsD [OF R(2) this] o_dataD [OF keep [OF this]] show ?thesis by (simp add: idm)
    qed
  qed
  show "a_cap (spec_link a i s p q) = length (orders b')" using R(3) len by simp
  show "a_q (spec_link a i s p q) s' p' = entries (orders b') (upd2 Q s p (Q s p @ [x]) s' p')" for s' p'
    by (simp add: spec_link_def upd2_apply same R(4) new)
  show "id_map b' ! j = NULL_IDX" if "j \<in> insert i K" "j < length (orders b')" "a_loc (spec_link a i s p q) j = None" for j
    using that R(5) [of j] idm len by (auto split: if_splits)
qed

lemma link_rep:
  assumes rep: "rep b a F Q K" and wf: "awf a" and fl: "floating F Q x"
    and x: "unat x < length (orders b)" "x \<noteq> NULL_IDX"
    and new: "orders b ! unat x = new_order oid price qty s"
    and named: "unat oid < length (id_map b)" "id_map b ! unat oid = x"
    and loc: "a_loc a (unat oid) = None" and p: "unat price < MAX_PRICES"
  shows "returns (link_tail b s price x) (\<lambda>b'.
    rep b' (spec_link a (unat oid) s (unat price) (unat qty)) F
      (upd2 Q s (unat price) (Q s (unat price) @ [x])) (insert (unat oid) K) \<and>
    ladder_book.more b' = ladder_book.more b)"
proof (rule returns_mono [OF link_tail_returns [OF repD(1) [OF rep] fl x p]])
  fix b' assume b': "links b' F (upd2 Q s (unat price) (Q s (unat price) @ [x])) (a_stale a) \<and> same_rest b b'"
  then have data: "same_data (orders b) (orders b')" and idm: "id_map b' = id_map b"
    by (simp_all add: same_rest_def)
  note S = same_dataD [OF data]
  have "rep b' (spec_link a (unat oid) s (unat price) (unat qty)) F
      (upd2 Q s (unat price) (Q s (unat price) @ [x])) (insert (unat oid) K)"
    by (rule linked_rep [OF rep wf loc _ fl same_data_at [OF data] S(5) idm])
       (use b' new named in \<open>simp_all add: S\<close>)
  with b' show "rep b' (spec_link a (unat oid) s (unat price) (unat qty)) F
      (upd2 Q s (unat price) (Q s (unat price) @ [x])) (insert (unat oid) K) \<and>
      ladder_book.more b' = ladder_book.more b"
    by (simp add: same_rest_def)
qed (simp_all add: new)

section \<open>Filling a level is sweeping it\<close>

lemma entries_take_drop:
  "take n (entries os xs) = entries os (take n xs)" "drop n (entries os xs) = entries os (drop n xs)"
  by (simp_all add: entries_def take_map drop_map)

theorem match_level_rep:
  assumes rep: "rep b a F Q K" and wf: "awf a" and p: "unat price < MAX_PRICES"
    and sw: "sweep_level a s (unat price) (unat q) = (a', r)"
  shows "returns (match_level b s price q) (\<lambda>(b', q'). unat q' = r \<and> (\<exists>F' Q'. rep b' a' F' Q' K \<and>
    length F' + a_free a = length F + a_free a') \<and> ladder_book.more b' = ladder_book.more b)"
proof (rule returns_mono [OF match_level_returns [OF repD(1,2) [OF rep] p]], clarify)
  note R = repD [OF rep]
  let ?p = "unat price"
  fix b' :: "'a ladder_book_scheme" and q' :: u32 and n
  assume n: "n \<le> length (Q s ?p)" and run: "level_run b F Q (a_stale a) s ?p n b'"
    and fl: "fill (entries (orders b) (Q s ?p)) (unat q) =
      (map fst (entries (orders b) (take n (Q s ?p))), entries (orders b') (drop n (Q s ?p)), unat q')"
  define ids where "ids = map fst (entries (orders b) (take n (Q s ?p)))"
  have fl': "fill (a_q a s ?p) (unat q) = (ids, entries (orders b') (drop n (Q s ?p)), unat q')"
    unfolding ids_def R(4) by (rule fl)
  have a': "a' = a\<lparr>a_q := upd2 (a_q a) s ?p (entries (orders b') (drop n (Q s ?p))),
      a_loc := (\<lambda>i. if i \<in> set ids then None else a_loc a i), a_free := a_free a + length ids,
      a_stale := upd2 (a_stale a) s ?p (entries (orders b') (drop n (Q s ?p)) \<noteq> [] \<and> (ids \<noteq> [] \<or> a_stale a s ?p))\<rparr>"
    and r: "r = unat q'"
    using sw unfolding sweep_level_def fl' prod.case by (simp_all only: prod.inject)
  have ast: "a_stale a' = upd2 (a_stale a) s ?p
      (entries (orders b') (drop n (Q s ?p)) \<noteq> [] \<and> (ids \<noteq> [] \<or> a_stale a s ?p))"
    by (simp add: a')
  have ids0: "ids \<noteq> [] \<longleftrightarrow> n \<noteq> 0 \<and> Q s ?p \<noteq> []" by (simp add: ids_def)
  have idl: "length ids = n" using n by (simp add: ids_def)
  let ?Q = "upd2 Q s ?p (drop n (Q s ?p))"
  have keep: "entries (orders b') (Q s' p') = entries (orders b) (Q s' p')" if "(s', p') \<noteq> (s, ?p)" for s' p'
  proof (rule entries_cong)
    fix x assume "x \<in> set (Q s' p')"
    then have "x \<notin> set (Q s ?p)" using linksD(9) [OF R(1) that] by blast
    then show "o_data (orders b' ! unat x) = o_data (orders b ! unat x)"
      using run by (simp add: level_run_def)
  qed
  have "rep b' a' (rev (take n (Q s ?p)) @ F) ?Q K"
    unfolding rep_def
  proof (intro conjI allI ballI impI)
    have "(drop n (Q s ?p) \<noteq> [] \<and> (n \<noteq> 0 \<or> a_stale a s ?p)) =
        (entries (orders b') (drop n (Q s ?p)) \<noteq> [] \<and> (ids \<noteq> [] \<or> a_stale a s ?p))"
      unfolding ids0 entries_simps(5) by auto
    then show "links b' (rev (take n (Q s ?p)) @ F) ?Q (a_stale a')"
      using run unfolding level_run_def ast by (simp only:)
    show "slots b' ?Q" using run by (simp add: level_run_def)
    show "a_cap a' = length (orders b')" using run R(3) by (simp add: a' level_run_def)
    show "a_q a' s' p' = entries (orders b') (?Q s' p')" for s' p'
      using keep [of s' p'] R(4) by (auto simp: a' upd2_apply)
    show "id_map b' ! i = NULL_IDX" if "i \<in> K" "i < length (orders b')" "a_loc a' i = None" for i
      using run that R(5) [of i] unfolding level_run_def ids_def [symmetric] by (auto simp: a' split: if_splits)
  qed
  moreover have "length (rev (take n (Q s ?p)) @ F) + a_free a = length F + a_free a'"
    using n by (simp add: a' idl)
  moreover have "ladder_book.more b' = ladder_book.more b" using run by (simp add: level_run_def)
  ultimately show "unat q' = r \<and> (\<exists>F' Q'. rep b' a' F' Q' K \<and> length F' + a_free a = length F + a_free a') \<and>
      ladder_book.more b' = ladder_book.more b"
    using r by blast
qed

section \<open>Initialisation\<close>

text \<open>The free list after \<open>init\<close> runs through the slots in order.\<close>

lemma chain_upt:
  assumes "length os = n" and "n \<le> 4294967295"
    and "\<And>i. Suc i < n \<Longrightarrow> o_next (os ! i) = of_nat (Suc i)" and "\<And>i. Suc i = n \<Longrightarrow> o_next (os ! i) = NULL_IDX"
  shows "k < n \<Longrightarrow> chain os (of_nat k) (map of_nat [k..<n])"
proof (induction "n - k" arbitrary: k)
  case 0
  then show ?case by simp
next
  case (Suc d)
  have un: "unat (of_nat k :: u32) = k" using Suc.prems assms(2) by simp
  have k: "(of_nat k :: u32) \<noteq> NULL_IDX"
  proof
    assume "(of_nat k :: u32) = NULL_IDX"
    then have "unat (of_nat k :: u32) = 4294967295" by (simp add: NULL_IDX_def)
    then show False using un Suc.prems assms(2) by simp
  qed
  show ?case
  proof (cases "Suc k < n")
    case True
    have "d = n - Suc k" using Suc.hyps(2) by simp
    from Suc.hyps(1) [OF this True] have "chain os (of_nat (Suc k)) (map of_nat [Suc k..<n])" .
    then show ?thesis
      using Suc.prems un k assms(1) assms(3) [OF True] by (simp add: upt_conv_Cons)
  next
    case False
    then have "Suc k = n" using Suc.prems by simp
    then show ?thesis using un k assms(1) assms(4) [of k] by (simp add: upt_conv_Cons)
  qed
qed

lemma fold_updates:
  assumes "n \<le> length xs"
  shows "length (fold (\<lambda>i ys. ys[i := g i (ys ! i)]) [0..<n] xs) = length xs"
    and "i < length xs \<Longrightarrow> fold (\<lambda>i ys. ys[i := g i (ys ! i)]) [0..<n] xs ! i = (if i < n then g i (xs ! i) else xs ! i)"
  using assms
proof (induction n arbitrary: i)
  case (Suc n)
  {
    case 1
    then show ?case using Suc.IH(1) by simp
  next
    case 2
    then show ?case using Suc.IH(1) Suc.IH(2) [of i] Suc.IH(2) [of n] by (auto simp: nth_list_update)
  }
qed simp_all

lemma chain_free_slots:
  assumes "length xs = n"
  shows "length (chain_free_slots n xs) = n"
    and "i < n \<Longrightarrow> chain_free_slots n xs ! i = (xs ! i)\<lparr>o_next := of_nat (i + 1)\<rparr>"
  using fold_updates [where n = n and xs = xs and g = "\<lambda>i x. x\<lparr>o_next := of_nat (i + 1)\<rparr>"] assms by (simp_all add: chain_free_slots_def)

lemma clear_levels:
  assumes "length lvs = MAX_PRICES"
  shows "length (clear_levels lvs) = MAX_PRICES"
    and "p < MAX_PRICES \<Longrightarrow> clear_levels lvs ! p = \<lparr>lv_head = NULL_IDX, lv_tail = NULL_IDX\<rparr>"
  using fold_updates [where n = MAX_PRICES and xs = lvs and g = "\<lambda>i x. \<lparr>lv_head = NULL_IDX, lv_tail = NULL_IDX\<rparr>"] assms
  by (simp_all add: clear_levels_def)

theorem init_ladder_rep:
  assumes lv: "length (bid_levels b) = MAX_PRICES" "length (ask_levels b) = MAX_PRICES"
    and n: "0 < n" "n \<le> 4294967295"
  shows "returns (init_ladder b n) (\<lambda>b'. refines b' (spec_init n) \<and> ladder_book.more b' = ladder_book.more b \<and>
    id_map b' = vec_resize 0 n (id_map b) \<and> length (orders b') = n)"
proof -
  define os where "os = chain_free_slots n (vec_resize zero_order n (orders b))"
  define os' where "os' = os[n - 1 := (os ! (n - 1))\<lparr>o_next := NULL_IDX\<rparr>]"
  define b' where "b' = b\<lparr>orders := os', id_map := vec_resize 0 n (id_map b), next_free_order_idx := 0,
    bid_levels := clear_levels (bid_levels b), ask_levels := clear_levels (ask_levels b)\<rparr>"
  note os = chain_free_slots [of "vec_resize zero_order n (orders b)" n, folded os_def]
  have run: "init_ladder b n = ret b'"
    using n os(1) by (simp add: init_ladder_def Let_def os_def [symmetric] b'_def os'_def)
  have len: "length os' = n" by (simp add: os'_def os)
  have "chain os' (of_nat 0) (map of_nat [0..<n])"
    by (rule chain_upt [OF len n(2) _ _ n(1)]) (use os in \<open>auto simp: os'_def nth_list_update\<close>)
  then have ch: "chain os' 0 (map of_nat [0..<n])" by simp
  have dist: "distinct (map of_nat [0..<n] :: u32 list)"
  proof (simp add: distinct_map, rule inj_onI)
    fix i j assume ij: "i \<in> {0..<n}" "j \<in> {0..<n}" "(of_nat i :: u32) = of_nat j"
    have "unat (of_nat i :: u32) = i" "unat (of_nat j :: u32) = j" using ij(1,2) n(2) by simp_all
    then show "i = j" using ij(3) by metis
  qed
  have lvl: "levels b' s = (if s then clear_levels (bid_levels b) else clear_levels (ask_levels b))" for s
    by (simp add: b'_def levels_def)
  have sel: "orders b' = os'" "id_map b' = vec_resize 0 n (id_map b)" "next_free_order_idx b' = 0"
    by (simp_all add: b'_def)
  have "links b' (map of_nat [0..<n]) (\<lambda>_ _. []) (\<lambda>_ _. False)"
    unfolding links_def
  proof (intro conjI allI impI)
    show "length (levels b' s) = MAX_PRICES" for s
      using clear_levels(1) [OF lv(1)] clear_levels(1) [OF lv(2)] by (simp add: lvl)
    show "level_ok (orders b') (levels b' s ! p) [] False" if "p < MAX_PRICES" for s p
      using clear_levels(2) [OF lv(1) that] clear_levels(2) [OF lv(2) that] by (simp add: lvl level_ok_def)
  qed (use ch dist len in \<open>simp_all add: sel\<close>)
  then have "rep b' (spec_init n) (map of_nat [0..<n]) (\<lambda>_ _. []) (a_known (spec_init n))"
    using len by (simp add: rep_def spec_init_def slots_def b'_def)
  then have "refines b' (spec_init n)"
    unfolding refines_def using spec_init_awf spec_init_aroom by (force simp: spec_init_def)
  with run len show ?thesis by (simp add: b'_def)
qed

end
