(* ===== verification/Bitset_Book.thy ===== *)
theory Bitset_Book
  imports Price_Bitset Book_Rep
begin

text \<open>
  \<open>FastBitsetOrderBook\<close> (\<open>src/engine/fast_bitset_book.h\<close>): the array book with one
  \<open>PriceBitset\<close> per side telling which price levels hold orders.  All five operations are
  modelled and proved to refine the abstract book, together with the invariant that a bit is
  set exactly when its level is not empty.
\<close>

section \<open>State\<close>

record bitset_book = ladder_book +
  bid_index :: PriceBitset
  ask_index :: PriceBitset

definition side_index :: "bitset_book \<Rightarrow> bool \<Rightarrow> PriceBitset" where
  "side_index b is_buy = (if is_buy then bid_index b else ask_index b)"

definition put_index :: "bitset_book \<Rightarrow> bool \<Rightarrow> PriceBitset \<Rightarrow> bitset_book" where
  "put_index b is_buy ix = (if is_buy then b\<lparr>bid_index := ix\<rparr> else b\<lparr>ask_index := ix\<rparr>)"

text \<open>\<open>index.set(price)\<close> and \<open>index.clear(price)\<close>: the 64-bit price narrows to \<open>uint32_t\<close>.\<close>

definition index_set :: "bitset_book \<Rightarrow> bool \<Rightarrow> u64 \<Rightarrow> bitset_book exec" where
  "index_set b is_buy price =
     ebind (bs_set (side_index b is_buy) (ucast price)) (\<lambda>ix. ret (put_index b is_buy ix))"

definition index_clear :: "bitset_book \<Rightarrow> bool \<Rightarrow> u64 \<Rightarrow> bitset_book exec" where
  "index_clear b is_buy price =
     ebind (bs_clear (side_index b is_buy) (ucast price)) (\<lambda>ix. ret (put_index b is_buy ix))"

text \<open>\<open>if (price_level.head == NULL_IDX) index.clear(price)\<close>\<close>

definition clear_if_empty :: "bitset_book \<Rightarrow> bool \<Rightarrow> u64 \<Rightarrow> bitset_book exec" where
  "clear_if_empty b is_buy price =
     ebind (get_level b is_buy price) (\<lambda>lv.
     if lv_head lv = NULL_IDX then index_clear b is_buy price else ret b)"

section \<open>Operations\<close>

definition init :: "bitset_book \<Rightarrow> nat \<Rightarrow> bitset_book exec" where
  "init b max_orders =
     init_ladder (b\<lparr>bid_index := bs_clear_all (bid_index b), ask_index := bs_clear_all (ask_index b)\<rparr>) max_orders"

definition best_price :: "bitset_book \<Rightarrow> bool \<Rightarrow> u32 option exec" where
  "best_price b is_buy =
     (if is_buy then find_lowest (side_index b False) else find_highest (side_index b True))"

definition not_crossing :: "bool \<Rightarrow> u32 \<Rightarrow> u64 \<Rightarrow> bool" where
  "not_crossing is_buy best incoming_price \<longleftrightarrow>
     is_buy \<and> ucast best > incoming_price \<or> \<not> is_buy \<and> ucast best < incoming_price"

partial_function (option) match ::
  "bitset_book \<Rightarrow> u64 \<Rightarrow> u32 \<Rightarrow> bool \<Rightarrow> (bitset_book \<times> u32) exec" where
  "match b incoming_price incoming_qty is_buy =
     (if incoming_qty > 0 then
        ebind (best_price b is_buy) (\<lambda>best.
        case best of None \<Rightarrow> ret (b, incoming_qty)
        | Some p \<Rightarrow>
            if not_crossing is_buy p incoming_price then ret (b, incoming_qty)
            else
              ebind (match_level b (\<not> is_buy) (ucast p) incoming_qty) (\<lambda>r.
              ebind (clear_if_empty (fst r) (\<not> is_buy) (ucast p)) (\<lambda>b2.
              match b2 incoming_price (snd r) is_buy)))
      else ret (b, incoming_qty))"

definition add_order :: "bitset_book \<Rightarrow> u64 \<Rightarrow> u64 \<Rightarrow> u32 \<Rightarrow> bool \<Rightarrow> bitset_book exec" where
  "add_order b oid price qty is_buy =
     (if next_free_order_idx b = NULL_IDX then ret b
      else let idx = next_free_order_idx b in
        ebind (fill_slot b idx oid price qty is_buy) (\<lambda>b1.
        if length (levels b1 is_buy) \<le> unat price then ret b1
        else
          ebind (get_level b1 is_buy price) (\<lambda>lv.
          ebind (link_tail b1 is_buy price idx) (\<lambda>b2.
          if lv_head lv = NULL_IDX then index_set b2 is_buy price else ret b2))))"

definition submit_order :: "bitset_book \<Rightarrow> u64 \<Rightarrow> u64 \<Rightarrow> u32 \<Rightarrow> bool \<Rightarrow> bitset_book exec" where
  "submit_order b oid price qty is_buy =
     ebind (match b price qty is_buy) (\<lambda>r.
     if snd r > 0 then add_order (fst r) oid price (snd r) is_buy else ret (fst r))"

definition cancel_order :: "bitset_book \<Rightarrow> u64 \<Rightarrow> bitset_book exec" where
  "cancel_order b oid = (case find_slot b oid of
     None \<Rightarrow> ret b
   | Some order_idx \<Rightarrow>
       ebind (get_order b order_idx) (\<lambda>ord.
       ebind (unlink_order b order_idx) (\<lambda>b1.
       ebind (clear_if_empty b1 (o_is_buy ord) (o_price ord)) (\<lambda>b2.
       release_slot b2 order_idx oid))))"

text \<open>
  The linking that \<open>replace_order\<close> does at a new price: the new level's fields and the
  order's \<open>prev\<close>, then the index bit, then the order's \<open>next\<close>.
\<close>

definition relink :: "bitset_book \<Rightarrow> bool \<Rightarrow> u64 \<Rightarrow> u32 \<Rightarrow> bitset_book exec" where
  "relink b is_buy new_price order_idx =
     ebind (get_level b is_buy new_price) (\<lambda>lv.
     ebind
       (if lv_head lv = NULL_IDX then
          ebind (set_level b is_buy new_price \<lparr>lv_head = order_idx, lv_tail = order_idx\<rparr>) (\<lambda>b1.
          upd_order b1 order_idx (\<lambda>n. n\<lparr>o_prev := NULL_IDX\<rparr>))
        else
          ebind (upd_order b order_idx (\<lambda>n. n\<lparr>o_prev := lv_tail lv\<rparr>)) (\<lambda>b1.
          ebind (upd_order b1 (lv_tail lv) (\<lambda>n. n\<lparr>o_next := order_idx\<rparr>)) (\<lambda>b2.
          set_level b2 is_buy new_price (lv\<lparr>lv_tail := order_idx\<rparr>)))) (\<lambda>b3.
     ebind (index_set b3 is_buy new_price) (\<lambda>b4.
     upd_order b4 order_idx (\<lambda>n. n\<lparr>o_next := NULL_IDX\<rparr>))))"

text \<open>The linking it does at the same price: the level still holds another order.\<close>

definition requeue :: "bitset_book \<Rightarrow> bool \<Rightarrow> u64 \<Rightarrow> u32 \<Rightarrow> bitset_book exec" where
  "requeue b is_buy price order_idx =
     ebind (get_level b is_buy price) (\<lambda>lv.
     ebind (upd_order b order_idx (\<lambda>n. n\<lparr>o_prev := lv_tail lv\<rparr>)) (\<lambda>b1.
     ebind (upd_order b1 (lv_tail lv) (\<lambda>n. n\<lparr>o_next := order_idx\<rparr>)) (\<lambda>b2.
     ebind (set_level b2 is_buy price (lv\<lparr>lv_tail := order_idx\<rparr>)) (\<lambda>b3.
     upd_order b3 order_idx (\<lambda>n. n\<lparr>o_next := NULL_IDX\<rparr>)))))"

definition replace_order :: "bitset_book \<Rightarrow> u64 \<Rightarrow> u64 \<Rightarrow> u32 \<Rightarrow> bitset_book exec" where
  "replace_order b oid new_price new_qty = (case find_slot b oid of
     None \<Rightarrow> ret b
   | Some order_idx \<Rightarrow>
       ebind (get_order b order_idx) (\<lambda>ord.
       ebind (get_level b (o_is_buy ord) (o_price ord)) (\<lambda>lv.
       let write = (\<lambda>b'. upd_order b' order_idx (\<lambda>n. n\<lparr>o_qty := new_qty, o_price := new_price\<rparr>)) in
       if o_price ord \<noteq> new_price then
         ebind (unlink_order b order_idx) (\<lambda>b1.
         ebind (clear_if_empty b1 (o_is_buy ord) (o_price ord)) (\<lambda>b2.
         ebind (relink b2 (o_is_buy ord) new_price order_idx) write))
       else if new_qty > o_qty ord then
         if lv_head lv = order_idx \<and> lv_tail lv = order_idx
         then upd_order b order_idx (\<lambda>n. n\<lparr>o_qty := new_qty\<rparr>)
         else
           ebind (unlink_order b order_idx) (\<lambda>b1.
           ebind (requeue b1 (o_is_buy ord) (o_price ord) order_idx) write)
       else write b)))"

section \<open>The index agrees with the levels\<close>

definition indexed :: "bitset_book \<Rightarrow> abook \<Rightarrow> bool" where
  "indexed b a \<longleftrightarrow> (\<forall>s. bs_ok (side_index b s) \<and> bs_prices (side_index b s) = {p. a_q a s p \<noteq> []})"

lemma indexedD:
  assumes "indexed b a"
  shows "bs_ok (side_index b s)" and "bs_prices (side_index b s) = {p. a_q a s p \<noteq> []}"
  using assms by (simp_all add: indexed_def)

lemma indexedI:
  assumes "\<And>s. bs_ok (side_index b s)"
    and "\<And>s p. p \<in> bs_prices (side_index b s) \<longleftrightarrow> a_q a s p \<noteq> []"
  shows "indexed b a"
  unfolding indexed_def using assms by blast

definition bitset_refines :: "bitset_book \<Rightarrow> abook \<Rightarrow> bool" where
  "bitset_refines b a \<longleftrightarrow> refines b a \<and> indexed b a"

lemma side_index_more: "ladder_book.more b' = ladder_book.more b \<Longrightarrow> side_index b' s = side_index b s"
  by (cases b; cases b') (simp add: side_index_def)

lemma side_index_put [simp]:
  "side_index (put_index b s ix) s' = (if s' = s then ix else side_index b s')"
  by (simp add: side_index_def put_index_def)

lemma put_index_simps [simp]:
  "orders (put_index b s ix) = orders b" "id_map (put_index b s ix) = id_map b"
  "next_free_order_idx (put_index b s ix) = next_free_order_idx b"
  "bid_levels (put_index b s ix) = bid_levels b" "ask_levels (put_index b s ix) = ask_levels b"
  "levels (put_index b s ix) = levels b"
  by (auto simp: put_index_def levels_def)

lemma rep_put_index [simp]: "rep (put_index b s ix) a F Q K = rep b a F Q K"
  by (auto elim: rep_more)

lemma unat_price_u32: "unat (price :: u64) < MAX_PRICES \<Longrightarrow> unat (ucast price :: u32) = unat price"
  by (simp add: MAX_PRICES_def)

lemma index_set_returns:
  assumes "bs_ok (side_index b s)" and "unat price < MAX_PRICES"
  shows "returns (index_set b s price) (\<lambda>b'. \<exists>ix. b' = put_index b s ix \<and> bs_ok ix \<and>
    bs_prices ix = insert (unat price) (bs_prices (side_index b s)))"
  unfolding index_set_def
  by (rule returns_ebindI [OF bits.set_law [OF assms(1)]])
     (use assms(2) in \<open>auto simp: unat_price_u32\<close>)

lemma index_clear_returns:
  assumes "bs_ok (side_index b s)" and "unat price < MAX_PRICES"
  shows "returns (index_clear b s price) (\<lambda>b'. \<exists>ix. b' = put_index b s ix \<and> bs_ok ix \<and>
    bs_prices ix = bs_prices (side_index b s) - {unat price})"
  unfolding index_clear_def
  by (rule returns_ebindI [OF bits.clear_law [OF assms(1)]])
     (use assms(2) in \<open>auto simp: unat_price_u32\<close>)

text \<open>
  After a level may have become empty, \<open>clear_if_empty\<close> makes the index agree again.
\<close>

lemma clear_if_empty_rep:
  assumes rep: "rep b a F Q K" and p: "unat price < MAX_PRICES"
    and ok: "\<And>s'. bs_ok (side_index b s')"
    and ix: "\<And>s' p'. (s', p') \<noteq> (s, unat price) \<Longrightarrow> p' \<in> bs_prices (side_index b s') \<longleftrightarrow> a_q a s' p' \<noteq> []"
    and here: "unat price \<in> bs_prices (side_index b s)"
  shows "returns (clear_if_empty b s price) (\<lambda>b'. rep b' a F Q K \<and> indexed b' a \<and>
    (a_q a s (unat price) = [] \<longrightarrow> card (bs_prices (side_index b' s)) < card (bs_prices (side_index b s))))"
proof -
  have get: "get_level b s price = ret (levels b s ! unat price)"
    using linksD(2) [OF repD(1) [OF rep]] p by (simp add: get_level_def)
  note head = rep_head [OF rep p, of s]
  show ?thesis
  proof (cases "a_q a s (unat price) = []")
    case True
    then have run: "clear_if_empty b s price = index_clear b s price"
      using head get by (simp add: clear_if_empty_def)
    have fin: "finite (bs_prices (side_index b s))" by (rule bits.finite_prices [OF ok])
    show ?thesis
      unfolding run
    proof (rule returns_mono [OF index_clear_returns [OF ok p]], elim exE conjE)
      fix b' ix' assume b': "b' = put_index b s ix'" "bs_ok ix'"
        "bs_prices ix' = bs_prices (side_index b s) - {unat price}"
      have "indexed b' a"
      proof (rule indexedI)
        show "p' \<in> bs_prices (side_index b' s') \<longleftrightarrow> a_q a s' p' \<noteq> []" for s' p'
          using ix [of s' p'] b' True by (cases "(s', p') = (s, unat price)") auto
      qed (simp add: ok b')
      moreover have "card (bs_prices (side_index b' s)) < card (bs_prices (side_index b s))"
        using b' card_Diff1_less [OF fin here] by simp
      ultimately show "rep b' a F Q K \<and> indexed b' a \<and>
          (a_q a s (unat price) = [] \<longrightarrow> card (bs_prices (side_index b' s)) < card (bs_prices (side_index b s)))"
        using rep b'(1) by simp
    qed
  next
    case False
    then have "clear_if_empty b s price = ret b" using head get by (simp add: clear_if_empty_def)
    moreover have "indexed b a"
    proof (rule indexedI)
      show "p' \<in> bs_prices (side_index b s') \<longleftrightarrow> a_q a s' p' \<noteq> []" for s' p'
        using ix [of s' p'] here False by (cases "(s', p') = (s, unat price)") auto
    qed (rule ok)
    ultimately show ?thesis using rep False by simp
  qed
qed

section \<open>Matching\<close>

lemma best_price_cases:
  assumes "indexed b a"
  obtains (no_price) "best_price b is_buy = ret None" and "\<And>p. a_q a (\<not> is_buy) p = []"
  | (price) p where "best_price b is_buy = ret (Some p)" and "a_q a (\<not> is_buy) (unat p) \<noteq> []"
      and "unat p < MAX_PRICES"
      and "\<And>q. a_q a (\<not> is_buy) q \<noteq> [] \<Longrightarrow> (if is_buy then unat p \<le> q else q \<le> unat p)"
proof -
  have best: "best_price b is_buy = (if is_buy then find_lowest (side_index b (\<not> is_buy))
      else find_highest (side_index b (\<not> is_buy)))"
    by (simp add: best_price_def)
  note I = indexedD [OF assms]
  show thesis
  proof (rule bits.best_cases [OF I(1), of is_buy "\<not> is_buy"])
    assume "(if is_buy then find_lowest (side_index b (\<not> is_buy)) else find_highest (side_index b (\<not> is_buy))) = ret None"
      and "bs_prices (side_index b (\<not> is_buy)) = {}"
    then show thesis using no_price best I(2) by auto
  next
    fix p assume "(if is_buy then find_lowest (side_index b (\<not> is_buy)) else find_highest (side_index b (\<not> is_buy))) = ret (Some p)"
      and "unat p \<in> bs_prices (side_index b (\<not> is_buy))" and "unat p < MAX_PRICES"
      and "\<And>q. q \<in> bs_prices (side_index b (\<not> is_buy)) \<Longrightarrow> (if is_buy then unat p \<le> q else q \<le> unat p)"
    then show thesis by (intro price [of p]; cases is_buy) (simp_all add: best_price_def I(2))
  qed
qed

theorem match_rep:
  assumes "rep b a F Q K" and "awf a" and "indexed b a"
    and "spec_match a (unat price) (unat q) is_buy = (a', r)"
  shows "returns (match b price q is_buy) (\<lambda>(b', q'). unat q' = r \<and> indexed b' a' \<and>
    (\<exists>F' Q'. rep b' a' F' Q' K \<and> length F' + a_free a = length F + a_free a'))"
  using assms
proof (induction "card (bs_prices (side_index b (\<not> is_buy)))" arbitrary: b a F Q q rule: less_induct)
  case less
  note rep = less.prems(1) and wf = less.prems(2) and ix = less.prems(3) and sp = less.prems(4)
  have stops: ?case if "match b price q is_buy = ret (b, q)" "a' = a" "r = unat q"
    using that rep ix by auto
  show ?case
  proof (cases "q = 0")
    case True
    have "match b price q is_buy = ret (b, q)" by (subst match.simps) (simp add: True)
    moreover have "a' = a \<and> r = unat q" using sp spec_match_none [OF wf, of 0] True by simp
    ultimately show ?thesis using stops by blast
  next
    case False
    then have q: "0 < q" by (simp add: word_neq_0_conv)
    show ?thesis
    proof (rule best_price_cases [OF ix, of is_buy])
      assume none: "best_price b is_buy = ret None" "\<And>p. a_q a (\<not> is_buy) p = []"
      then have "match b price q is_buy = ret (b, q)" by (subst match.simps) (simp add: q)
      moreover have "a' = a \<and> r = unat q" using sp spec_match_none [OF wf, of "unat q" is_buy] none(2) by simp
      ultimately show ?thesis using stops by blast
    next
      fix p assume best: "best_price b is_buy = ret (Some p)" and here: "a_q a (\<not> is_buy) (unat p) \<noteq> []"
        and pmax: "unat p < MAX_PRICES"
        and least: "\<And>q. a_q a (\<not> is_buy) q \<noteq> [] \<Longrightarrow> (if is_buy then unat p \<le> q else q \<le> unat p)"
      have cross: "not_crossing is_buy p price \<longleftrightarrow> \<not> (if is_buy then unat p \<le> unat price else unat price \<le> unat p)"
        by (auto simp: not_crossing_def word_less_nat_alt)
      show ?thesis
      proof (cases "not_crossing is_buy p price")
        case True
        then have "match b price q is_buy = ret (b, q)" by (subst match.simps) (simp add: q best)
        moreover have "a_q a (\<not> is_buy) x = []"
          if "if is_buy then x \<le> unat price else unat price \<le> x" for x
          using that least [of x] True unfolding cross by (cases is_buy) auto
        then have "a' = a \<and> r = unat q"
          using sp spec_match_none [OF wf, of "unat q" is_buy "unat price"] by simp
        ultimately show ?thesis using stops by blast
      next
        case False
        let ?s = "\<not> is_buy" and ?p = "ucast p :: u64"
        have up: "unat ?p = unat p" by simp
        obtain a1 r1 where sw: "sweep_level a ?s (unat ?p) (unat q) = (a1, r1)" by fastforce
        have inc: "unat p \<in> set (crossing is_buy (unat price))"
          using False pmax unfolding cross set_crossing by simp
        have wf1: "awf a1" by (rule sweep_level_awf [OF wf sw])
        have run: "match b price q is_buy =
            ebind (match_level b ?s ?p q) (\<lambda>r. ebind (clear_if_empty (fst r) ?s ?p) (\<lambda>b2.
              match b2 price (snd r) is_buy))"
          by (subst match.simps) (simp add: q best False)
        show ?thesis
          unfolding run
        proof (rule returns_ebindI [OF match_level_rep [OF rep wf _ sw]])
          fix br :: "bitset_book \<times> u32" assume "case br of (b1, q1) \<Rightarrow> unat q1 = r1 \<and> (\<exists>F' Q'. rep b1 a1 F' Q' K \<and>
            length F' + a_free a = length F + a_free a1) \<and> ladder_book.more b1 = ladder_book.more b"
          then obtain b1 q1 F1 Q1 where br: "br = (b1, q1)" and q1: "unat q1 = r1"
            and rep1: "rep b1 a1 F1 Q1 K" and free1: "length F1 + a_free a = length F + a_free a1"
            and more: "ladder_book.more b1 = ladder_book.more b"
            by (cases br) auto
          note side = side_index_more [OF more]
          have next_best: "spec_match a1 (unat price) (unat q1) is_buy = (a', r)"
            using spec_match_best [OF wf inc least, of "unat q" a1 r1] sw sp q1 unfolding up by simp
          have clr: "returns (clear_if_empty b1 ?s ?p) (\<lambda>b'. rep b' a1 F1 Q1 K \<and> indexed b' a1 \<and>
              (a_q a1 ?s (unat ?p) = [] \<longrightarrow> card (bs_prices (side_index b' ?s)) < card (bs_prices (side_index b1 ?s))))"
          proof (rule clear_if_empty_rep [OF rep1])
            show "unat ?p < MAX_PRICES" using pmax by simp
            show "bs_ok (side_index b1 s')" for s' using indexedD(1) [OF ix] by (simp add: side)
            show "p' \<in> bs_prices (side_index b1 s') \<longleftrightarrow> a_q a1 s' p' \<noteq> []" if "(s', p') \<noteq> (?s, unat ?p)" for s' p'
              using sweep_level_frame(3) [OF sw that] indexedD(2) [OF ix, of s'] by (simp add: side)
            show "unat ?p \<in> bs_prices (side_index b1 ?s)" using here indexedD(2) [OF ix] by (simp add: side)
          qed
          show "returns (ebind (clear_if_empty (fst br) ?s ?p) (\<lambda>b2. match b2 price (snd br) is_buy))
            (\<lambda>(b', q'). unat q' = r \<and> indexed b' a' \<and>
              (\<exists>F' Q'. rep b' a' F' Q' K \<and> length F' + a_free a = length F + a_free a'))"
            unfolding br fst_conv snd_conv
          proof (rule returns_ebindI [OF clr], elim conjE)
            fix b2 assume rep2: "rep b2 a1 F1 Q1 K" and ix2: "indexed b2 a1"
              and small: "a_q a1 ?s (unat ?p) = [] \<longrightarrow>
                card (bs_prices (side_index b2 ?s)) < card (bs_prices (side_index b1 ?s))"
            have "returns (match b2 price q1 is_buy) (\<lambda>(b', q'). unat q' = r \<and> indexed b' a' \<and>
              (\<exists>F' Q'. rep b' a' F' Q' K \<and> length F' + a_free a1 = length F1 + a_free a'))"
            proof (cases "q1 = 0")
              case True
              have "match b2 price q1 is_buy = ret (b2, q1)" by (subst match.simps) (simp add: True)
              moreover have "a' = a1 \<and> r = unat q1"
                using next_best spec_match_none [OF wf1, of 0] True by simp
              ultimately show ?thesis using rep2 ix2 by auto
            next
              case False
              then have "r1 \<noteq> 0" using q1 by (metis unat_eq_0)
              then have "a_q a1 ?s (unat ?p) = []" using sweep_level_left [OF sw] by blast
              with small have "card (bs_prices (side_index b2 ?s)) < card (bs_prices (side_index b ?s))"
                by (simp add: side)
              from less.hyps [OF this rep2 wf1 ix2 next_best] show ?thesis .
            qed
            then show "returns (match b2 price q1 is_buy) (\<lambda>(b', q'). unat q' = r \<and> indexed b' a' \<and>
              (\<exists>F' Q'. rep b' a' F' Q' K \<and> length F' + a_free a = length F + a_free a'))"
              by (rule returns_mono) (use free1 in fastforce)
          qed
        qed (simp add: pmax)
      qed
    qed
  qed
qed

section \<open>Adding and submitting\<close>

lemma indexed_cong: "indexed b a \<Longrightarrow> (\<And>s. side_index b' s = side_index b s) \<Longrightarrow> a_q a' = a_q a \<Longrightarrow> indexed b' a'"
  by (simp add: indexed_def)

lemma add_order_rep:
  fixes price :: u64 and q :: u32 and s :: bool
  assumes rep: "rep b a F Q (a_known a)" and wf: "awf a" and ix: "indexed b a" and free: "a_free a = length F"
    and ok: "can_add a (unat oid)"
  defines "a' \<equiv> spec_add a (unat oid) (unat price) (unat q) s"
  shows "returns (add_order b oid price q s) (\<lambda>b'. indexed b' a' \<and>
    (\<exists>F' Q'. rep b' a' F' Q' (a_known a') \<and> a_free a' = length F'))"
proof (cases F)
  case Nil
  then have "next_free_order_idx b = NULL_IDX" using linksD(3) [OF repD(1) [OF rep]] by simp
  then have "add_order b oid price q s = ret b" by (simp add: add_order_def)
  moreover have "a' = a" using free Nil by (simp add: a'_def spec_add_def)
  ultimately show ?thesis using rep ix free by auto
next
  case (Cons x F1)
  note rep1 = rep [unfolded Cons]
  have x: "next_free_order_idx b = x" "x \<noteq> NULL_IDX" "unat x < length (orders b)"
    using linksD(3) [OF repD(1) [OF rep1]] by auto
  have oid: "unat oid < length (orders b)" and loc: "a_loc a (unat oid) = None"
    using ok free Cons repD(3) [OF rep] by (auto simp: can_add_def)
  have run: "add_order b oid price q s = ebind (fill_slot b x oid price q s) (\<lambda>b1.
      if length (levels b1 s) \<le> unat price then ret b1
      else ebind (get_level b1 s price) (\<lambda>lv. ebind (link_tail b1 s price x) (\<lambda>b2.
        if lv_head lv = NULL_IDX then index_set b2 s price else ret b2)))"
    using x by (simp add: add_order_def Let_def)
  show ?thesis
    unfolding run
  proof (rule returns_ebindI [OF fill_slot_rep [OF rep1 wf oid loc]], elim conjE)
    fix b1 assume rep2: "rep b1 a F1 Q (a_known a - {unat oid})" and fl: "floating F1 Q x"
      and new: "orders b1 ! unat x = new_order oid price q s" and named: "id_map b1 ! unat oid = x"
      and len: "length (orders b1) = length (orders b)" and more: "ladder_book.more b1 = ladder_book.more b"
    note side = side_index_more [OF more]
    have lvlen: "length (levels b1 s) = MAX_PRICES" by (rule linksD(2) [OF repD(1) [OF rep2]])
    show "returns (if length (levels b1 s) \<le> unat price then ret b1
      else ebind (get_level b1 s price) (\<lambda>lv. ebind (link_tail b1 s price x) (\<lambda>b2.
        if lv_head lv = NULL_IDX then index_set b2 s price else ret b2)))
      (\<lambda>b'. indexed b' a' \<and> (\<exists>F' Q'. rep b' a' F' Q' (a_known a') \<and> a_free a' = length F'))"
    proof (cases "MAX_PRICES \<le> unat price")
      case True
      then have a': "a' = a\<lparr>a_free := length F1, a_known := a_known a - {unat oid}\<rparr>"
        using free Cons by (simp add: a'_def spec_add_def)
      have "indexed b1 a'" by (rule indexed_cong [OF ix side]) (simp add: a')
      moreover have "rep b1 a' F1 Q (a_known a')" using rep2 by (simp add: a')
      ultimately show ?thesis using True lvlen a' by auto
    next
      case False
      then have p: "unat price < MAX_PRICES" by simp
      define a2 where "a2 = spec_link a (unat oid) s (unat price) (unat q)"
      have a': "a' = a2\<lparr>a_free := length F1, a_known := insert (unat oid) (a_known a)\<rparr>"
        using free Cons p by (simp add: a'_def a2_def spec_add_def spec_link_def)
      have known: "insert (unat oid) (a_known a - {unat oid}) = a_known a'" by (auto simp: a')
      have q2: "a_q a2 = upd2 (a_q a) s (unat price) (a_q a s (unat price) @ [(unat oid, unat q)])"
        by (simp add: a2_def spec_link_def)
      have get: "get_level b1 s price = ret (levels b1 s ! unat price)"
        using lvlen p by (simp add: get_level_def)
      note head = rep_head [OF rep2 p, of s]
      have "unat oid < length (id_map b1)" using oid len linksD(1) [OF repD(1) [OF rep2]] by simp
      note link = link_rep [OF rep2 wf fl _ x(2) new this named loc p, unfolded known, folded a2_def]
      have "returns (ebind (link_tail b1 s price x) (\<lambda>b2.
          if lv_head (levels b1 s ! unat price) = NULL_IDX then index_set b2 s price else ret b2))
        (\<lambda>b'. indexed b' a' \<and> (\<exists>F' Q'. rep b' a' F' Q' (a_known a') \<and> a_free a' = length F'))"
      proof (rule returns_ebindI [OF link], simp add: len x, elim conjE)
        fix b2 assume rep3: "rep b2 a2 F1 (upd2 Q s (unat price) (Q s (unat price) @ [x])) (a_known a')"
          and more2: "ladder_book.more b2 = ladder_book.more b1"
        note side2 = side_index_more [OF more2, unfolded side]
        have rep4: "rep b2 a' F1 (upd2 Q s (unat price) (Q s (unat price) @ [x])) (a_known a')"
          using rep3 by (subst (1) a') simp
        have fin: "a_free a' = length F1" by (simp add: a')
        have others: "p' \<in> bs_prices (side_index b2 s') \<longleftrightarrow> a_q a' s' p' \<noteq> []" if "(s', p') \<noteq> (s, unat price)" for s' p'
          using that indexedD(2) [OF ix, of s'] by (auto simp: side2 a' q2 upd2_apply)
        have here: "a_q a' s (unat price) \<noteq> []" by (simp add: a' q2)
        show "returns (if lv_head (levels b1 s ! unat price) = NULL_IDX then index_set b2 s price else ret b2)
          (\<lambda>b'. indexed b' a' \<and> (\<exists>F' Q'. rep b' a' F' Q' (a_known a') \<and> a_free a' = length F'))"
        proof (cases "a_q a s (unat price) = []")
          case True
          have "returns (index_set b2 s price)
            (\<lambda>b'. indexed b' a' \<and> (\<exists>F' Q'. rep b' a' F' Q' (a_known a') \<and> a_free a' = length F'))"
          proof (rule returns_mono [OF index_set_returns [OF _ p]])
            show "bs_ok (side_index b2 s)" using indexedD(1) [OF ix] by (simp add: side2)
            fix b' assume "\<exists>ix. b' = put_index b2 s ix \<and> bs_ok ix \<and>
              bs_prices ix = insert (unat price) (bs_prices (side_index b2 s))"
            then obtain ix' where b': "b' = put_index b2 s ix'" "bs_ok ix'"
              "bs_prices ix' = insert (unat price) (bs_prices (side_index b2 s))" by blast
            have "indexed b' a'"
            proof (rule indexedI)
              show "bs_ok (side_index b' s')" for s' using b' indexedD(1) [OF ix] by (simp add: side2)
              show "p' \<in> bs_prices (side_index b' s') \<longleftrightarrow> a_q a' s' p' \<noteq> []" for s' p'
                using b' here others [of s' p'] by (cases "(s', p') = (s, unat price)") auto
            qed
            with rep4 fin b'(1) show "indexed b' a' \<and> (\<exists>F' Q'. rep b' a' F' Q' (a_known a') \<and> a_free a' = length F')"
              by auto
          qed
          then show ?thesis using head True by simp
        next
          case False
          have "indexed b2 a'"
          proof (rule indexedI)
            show "bs_ok (side_index b2 s')" for s' using indexedD(1) [OF ix] by (simp add: side2)
            show "p' \<in> bs_prices (side_index b2 s') \<longleftrightarrow> a_q a' s' p' \<noteq> []" for s' p'
              using here others [of s' p'] False indexedD(2) [OF ix, of s]
              by (cases "(s', p') = (s, unat price)") (auto simp: side2)
          qed
          with rep4 fin show ?thesis using head False by auto
        qed
      qed
      then show ?thesis using p lvlen get by simp
    qed
  qed
qed

theorem match_refines:
  assumes ref: "bitset_refines b a" and sp: "spec_match a (unat price) (unat q) s = (a1, r)"
  shows "returns (match b price q s) (\<lambda>(b', q'). unat q' = r \<and> bitset_refines b' a1)"
proof -
  from ref obtain F Q where rep: "rep b a F Q (a_known a)" and free: "a_free a = length F"
    and wf: "awf a" and room: "aroom a" and ix: "indexed b a"
    by (auto simp: bitset_refines_def refines_def)
  have "a_known a1 = a_known a" using sp unfolding spec_match_def by (rule sweep_frame(2))
  moreover have "awf a1" "aroom a1" by (rule spec_match_awf [OF wf sp], rule spec_match_aroom [OF wf room sp])
  ultimately show ?thesis
    by (intro returns_mono [OF match_rep [OF rep wf ix sp]])
       (use free in \<open>auto simp: bitset_refines_def refines_def\<close>)
qed

theorem add_order_refines:
  assumes ref: "bitset_refines b a" and ok: "can_add a (unat oid)"
  shows "returns (add_order b oid price q s) (\<lambda>b'.
    bitset_refines b' (spec_add a (unat oid) (unat price) (unat q) s))"
proof -
  from ref obtain F Q where rep: "rep b a F Q (a_known a)" and free: "a_free a = length F"
    and wf: "awf a" and room: "aroom a" and ix: "indexed b a"
    by (auto simp: bitset_refines_def refines_def)
  show ?thesis
    by (rule returns_mono [OF add_order_rep [OF rep wf ix free ok]])
       (use can_add_awf [OF wf ok] spec_add_aroom [OF room] in \<open>auto simp: bitset_refines_def refines_def\<close>)
qed

theorem submit_order_refines:
  assumes ref: "bitset_refines b a" and ok: "submit_ok a (unat oid) (unat price) (unat q) s"
  shows "returns (submit_order b oid price q s) (\<lambda>b'.
    bitset_refines b' (spec_submit a (unat oid) (unat price) (unat q) s))"
proof -
  obtain a1 r where sp: "spec_match a (unat price) (unat q) s = (a1, r)" by fastforce
  show ?thesis
    unfolding submit_order_def
  proof (rule returns_ebindI [OF match_refines [OF ref sp]], clarify)
    fix b1 :: bitset_book and q1 :: u32 assume q1: "r = unat q1" and ref1: "bitset_refines b1 a1"
    have pos: "0 < q1 \<longleftrightarrow> 0 < unat q1" by (simp add: word_less_nat_alt)
    have "can_add a1 (unat oid)" if "0 < q1" using ok that pos by (simp add: submit_ok_def sp q1)
    then show "returns (if 0 < snd (b1, q1) then add_order (fst (b1, q1)) oid price (snd (b1, q1)) s
        else ret (fst (b1, q1))) (\<lambda>b'. bitset_refines b' (spec_submit a (unat oid) (unat price) (unat q) s))"
      using add_order_refines [OF ref1, of oid price q1 s] ref1 pos by (simp add: spec_submit_def sp q1)
  qed
qed

theorem submit_order_overruns:
  assumes ref: "bitset_refines b a" and out: "id_overruns a (unat oid) (unat price) (unat q) s"
  shows "submit_order b oid price q s = stop OutOfBounds"
proof -
  obtain a1 r where sp: "spec_match a (unat price) (unat q) s = (a1, r)" by fastforce
  obtain b1 q1 where m: "match b price q s = ret (b1, q1)" and q1: "unat q1 = r" and ref1: "bitset_refines b1 a1"
    using match_refines [OF ref sp] by (auto simp: returns_def)
  from ref1 obtain F Q where rep: "rep b1 a1 F Q (a_known a1)" "a_free a1 = length F"
    by (auto simp: bitset_refines_def refines_def)
  have "0 < q1" "0 < length F" "a_cap a1 \<le> unat oid"
    using out q1 rep(2) by (auto simp: id_overruns_def sp word_less_nat_alt)
  then show ?thesis
    using fill_slot_overruns [OF rep(1)] by (simp add: submit_order_def m add_order_def)
qed

theorem get_quantity_refines:
  assumes "bitset_refines b a" and "unat oid \<in> a_known a \<or> a_cap a \<le> unat oid"
  shows "returns (get_quantity b oid) (\<lambda>r. unat r = spec_get_quantity a (unat oid))"
  using assms get_quantity_rep unfolding bitset_refines_def refines_def by blast

section \<open>Initialising\<close>

theorem init_refines:
  assumes "length (bid_levels b) = MAX_PRICES" and "length (ask_levels b) = MAX_PRICES"
    and "0 < n" and "n \<le> 4294967295"
  shows "returns (init b n) (\<lambda>b'. bitset_refines b' (spec_init n))"
  unfolding init_def
proof (rule returns_mono [OF init_ladder_rep [OF _ _ assms(3,4)]])
  let ?b = "b\<lparr>bid_index := bs_clear_all (bid_index b), ask_index := bs_clear_all (ask_index b)\<rparr>"
  show "length (bid_levels ?b) = MAX_PRICES" "length (ask_levels ?b) = MAX_PRICES" using assms by simp_all
next
  let ?b = "b\<lparr>bid_index := bs_clear_all (bid_index b), ask_index := bs_clear_all (ask_index b)\<rparr>"
  fix b' assume "refines b' (spec_init n) \<and> ladder_book.more b' = ladder_book.more ?b \<and>
    id_map b' = vec_resize 0 n (id_map ?b) \<and> length (orders b') = n"
  then have ref: "refines b' (spec_init n)" and more: "ladder_book.more b' = ladder_book.more ?b" by auto
  have "indexed b' (spec_init n)"
    unfolding indexed_def side_index_more [OF more]
    by (simp add: side_index_def bs_clear_all_new bs_new_ok bs_new_prices spec_init_def)
  with ref show "bitset_refines b' (spec_init n)" by (simp add: bitset_refines_def)
qed

section \<open>Cancelling\<close>

text \<open>Unlinking an order and clearing its level's bit when the level becomes empty.\<close>

lemma unlink_and_clear_rep:
  assumes rep: "rep b a F Q K" and ix: "indexed b a" and x: "x \<in> set (Q s p)"
    and oid: "unat (o_id (orders b ! unat x)) = i" and loc: "a_loc a i = Some (s, p)" and ok: "can_unlink a i"
    and ord: "o_is_buy ord = s" "unat (o_price ord) = p"
  shows "returns (ebind (unlink_order b x) (\<lambda>b1. clear_if_empty b1 (o_is_buy ord) (o_price ord))) (\<lambda>b'.
    rep b' (spec_unlink a i s p) F (upd2 Q s p (remove1 x (Q s p))) (K - {i}) \<and>
    floating F (upd2 Q s p (remove1 x (Q s p))) x \<and> indexed b' (spec_unlink a i s p) \<and>
    same_data (orders b) (orders b') \<and> id_map b' = id_map b)"
proof (rule returns_ebindI [OF unlink_rep [OF rep x oid loc ok]], elim conjE)
  let ?Q = "upd2 Q s p (remove1 x (Q s p))" and ?a = "spec_unlink a i s p"
  fix b1 assume rep1: "rep b1 ?a F ?Q (K - {i})" and fl: "floating F ?Q x" and same: "same_rest b b1"
  have side: "side_index b1 s' = side_index b s'" for s'
    using same by (intro side_index_more) (simp add: same_rest_def)
  have p: "p < MAX_PRICES" by (rule links_price [OF repD(1) [OF rep] x])
  have "a_q a s p \<noteq> []" using x repD(4) [OF rep, of s p] by auto
  then have here: "p \<in> bs_prices (side_index b s)" using indexedD(2) [OF ix] by simp
  have get: "get_level b1 s (o_price ord) = ret (levels b1 s ! p)"
    using linksD(2) [OF repD(1) [OF rep1]] p ord(2) by (simp add: get_level_def)
  have keep: "returns (clear_if_empty b1 s (o_price ord)) (\<lambda>b'. (rep b' ?a F ?Q (K - {i}) \<and> indexed b' ?a \<and>
      (a_q ?a s (unat (o_price ord)) = [] \<longrightarrow> card (bs_prices (side_index b' s)) < card (bs_prices (side_index b1 s)))))"
    by (rule clear_if_empty_rep [OF rep1])
       (use p ord(2) here indexedD [OF ix] in \<open>auto simp: side spec_unlink_def upd2_apply\<close>)
  have frame: "orders b' = orders b1 \<and> id_map b' = id_map b1" if "clear_if_empty b1 s (o_price ord) = ret b'" for b'
    using that by (auto simp: clear_if_empty_def index_clear_def ebind_eq_ret split: if_splits)
  show "returns (clear_if_empty b1 (o_is_buy ord) (o_price ord)) (\<lambda>b'. rep b' ?a F ?Q (K - {i}) \<and>
      floating F ?Q x \<and> indexed b' ?a \<and> same_data (orders b) (orders b') \<and> id_map b' = id_map b)"
    using keep frame fl same unfolding ord(1) returns_def same_rest_def by metis
qed

theorem cancel_order_refines:
  assumes ref: "bitset_refines b a" and ok: "known_id a (unat oid)" "can_unlink a (unat oid)"
  shows "returns (cancel_order b oid) (\<lambda>b'. bitset_refines b' (spec_cancel a (unat oid)))"
proof -
  from ref obtain F Q where rep: "rep b a F Q (a_known a)" and free: "a_free a = length F"
    and wf: "awf a" and room: "aroom a" and ix: "indexed b a"
    by (auto simp: bitset_refines_def refines_def)
  have final: "awf (spec_cancel a (unat oid))" "aroom (spec_cancel a (unat oid))"
    by (rule spec_cancel_awf [OF wf], rule spec_cancel_aroom [OF wf room])
  show ?thesis
  proof (rule find_slot_known [OF rep wf ok(1) [unfolded known_id_def]])
    assume "a_loc a (unat oid) = None" and "find_slot b oid = None"
    then show ?thesis using ref by (simp add: cancel_order_def spec_cancel_def)
  next
    fix s p x assume loc: "a_loc a (unat oid) = Some (s, p)" and fs: "find_slot b oid = Some x"
      and x: "x \<in> set (Q s p)" and oidx: "unat (o_id (orders b ! unat x)) = unat oid"
      and len: "unat oid < length (orders b)" and xs: "x \<noteq> NULL_IDX" "unat x < length (orders b)"
      and ord: "o_is_buy (orders b ! unat x) = s" "unat (o_price (orders b ! unat x)) = p"
    let ?a = "spec_unlink a (unat oid) s p"
    have run: "cancel_order b oid = ebind (ebind (unlink_order b x) (\<lambda>b1.
        clear_if_empty b1 (o_is_buy (orders b ! unat x)) (o_price (orders b ! unat x)))) (\<lambda>b2. release_slot b2 x oid)"
      using fs xs by (simp add: cancel_order_def get_order_def ebind_assoc)
    have wf1: "awf ?a" by (rule spec_unlink_awf [OF wf loc])
    show ?thesis
      unfolding run
    proof (rule returns_ebindI [OF unlink_and_clear_rep [OF rep ix x oidx loc ok(2) ord]], elim conjE)
      fix b2 assume rep2: "rep b2 ?a F (upd2 Q s p (remove1 x (Q s p))) (a_known a - {unat oid})"
        and fl: "floating F (upd2 Q s p (remove1 x (Q s p))) x" and ix2: "indexed b2 ?a"
        and data: "same_data (orders b) (orders b2)"
      have "length (orders b2) = length (orders b)" using data by (simp add: same_data_def)
      then have x2: "unat x < length (orders b2)" and oid2: "unat oid < length (orders b2)"
        using xs len by simp_all
      have known: "insert (unat oid) (a_known a - {unat oid}) = a_known a"
        using loc awfD(4) [OF wf] by auto
      show "returns (release_slot b2 x oid) (\<lambda>b'. bitset_refines b' (spec_cancel a (unat oid)))"
      proof (rule returns_mono [OF release_rep [OF rep2 wf1 fl x2 xs(1) oid2]], simp, unfold known, elim conjE)
        fix b' assume rep': "rep b' ?a (x # F) (upd2 Q s p (remove1 x (Q s p))) (a_known a)"
          and more: "ladder_book.more b' = ladder_book.more b2"
        have a': "spec_cancel a (unat oid) = ?a\<lparr>a_free := Suc (a_free a)\<rparr>"
          using loc by (simp add: spec_cancel_def)
        have "indexed b' (spec_cancel a (unat oid))"
          by (rule indexed_cong [OF ix2 side_index_more [OF more]]) (simp add: a')
        moreover have "refines b' (spec_cancel a (unat oid))"
          unfolding refines_def using final rep' free by (auto simp: a')
        ultimately show "bitset_refines b' (spec_cancel a (unat oid))" by (simp add: bitset_refines_def)
      qed
    qed
  qed
qed

section \<open>Replacing\<close>

text \<open>The slots after \<open>relink\<close> or \<open>requeue\<close> have put \<open>x\<close> behind \<open>xs\<close>.\<close>

definition put_behind :: "Order list \<Rightarrow> u32 list \<Rightarrow> u32 \<Rightarrow> Order list" where
  "put_behind os xs x =
     (let os1 = os[unat x := (os ! unat x)\<lparr>o_prev := (if xs = [] then NULL_IDX else last xs)\<rparr>];
          os2 = (if xs = [] then os1
                 else os1[unat (last xs) := (os1 ! unat (last xs))\<lparr>o_next := x\<rparr>]) in
      os2[unat x := (os2 ! unat x)\<lparr>o_next := NULL_IDX\<rparr>])"

lemma put_behind:
  assumes "unat x < length os" and "x \<notin> set xs" and "\<And>y. y \<in> set xs \<Longrightarrow> unat y < length os"
  shows "length (put_behind os xs x) = length os"
    and "y \<noteq> x \<Longrightarrow> xs = [] \<or> y \<noteq> last xs \<Longrightarrow> put_behind os xs x ! unat y = os ! unat y"
    and "xs \<noteq> [] \<Longrightarrow> put_behind os xs x ! unat (last xs) = (os ! unat (last xs))\<lparr>o_next := x\<rparr>"
    and "o_next (put_behind os xs x ! unat x) = NULL_IDX"
    and "o_prev (put_behind os xs x ! unat x) = (if xs = [] then NULL_IDX else last xs)"
    and "same_data os (put_behind os xs x)"
proof -
  have last: "xs \<noteq> [] \<Longrightarrow> last xs \<noteq> x \<and> unat (last xs) < length os"
    using assms(2,3) by (metis last_in_set)
  show "length (put_behind os xs x) = length os" by (simp add: put_behind_def Let_def)
  show "y \<noteq> x \<Longrightarrow> xs = [] \<or> y \<noteq> last xs \<Longrightarrow> put_behind os xs x ! unat y = os ! unat y"
    by (auto simp: put_behind_def Let_def nth_upd_other)
  show "xs \<noteq> [] \<Longrightarrow> put_behind os xs x ! unat (last xs) = (os ! unat (last xs))\<lparr>o_next := x\<rparr>"
    using last by (simp add: put_behind_def Let_def nth_upd_other)
  show "o_next (put_behind os xs x ! unat x) = NULL_IDX"
    using assms(1) by (simp add: put_behind_def Let_def)
  show "o_prev (put_behind os xs x ! unat x) = (if xs = [] then NULL_IDX else last xs)"
    using assms(1) last not_sym [of "last xs" x] by (auto simp: put_behind_def Let_def nth_upd_other)
  show "same_data os (put_behind os xs x)"
  proof (cases "xs = []")
    case True
    show ?thesis
      by (simp only: True put_behind_def Let_def simp_thms if_True)
         (rule same_data_trans [OF same_data_links(2) same_data_links(1)])
  next
    case False
    show ?thesis
      by (simp only: False put_behind_def Let_def if_False)
         (rule same_data_trans [OF same_data_trans [OF same_data_links(2) same_data_links(1)] same_data_links(1)])
  qed
qed

text \<open>
  The effect of \<open>relink\<close> and of \<open>requeue\<close>: the same slots and level; only \<open>relink\<close> sets the
  index bit.
\<close>

definition tail_level :: "'a ladder_book_scheme \<Rightarrow> bool \<Rightarrow> nat \<Rightarrow> u32 list \<Rightarrow> u32 \<Rightarrow> PriceLevel" where
  "tail_level b s p xs x =
     (if xs = [] then \<lparr>lv_head = x, lv_tail = x\<rparr> else (levels b s ! p)\<lparr>lv_tail := x\<rparr>)"

lemma level_at:
  assumes "links b F Q S" and "p < MAX_PRICES"
  shows "lv_head (levels b s ! p) = NULL_IDX \<longleftrightarrow> Q s p = []"
    and "Q s p \<noteq> [] \<Longrightarrow> lv_tail (levels b s ! p) = last (Q s p)"
    and "p < length (levels b s)"
proof -
  show "lv_head (levels b s ! p) = NULL_IDX \<longleftrightarrow> Q s p = []" by (rule head_iff [OF assms])
  obtain pv t where seg: "dseg (orders b) pv (lv_head (levels b s ! p)) (Q s p) t NULL_IDX"
    and t: "Q s p \<noteq> [] \<longrightarrow> lv_tail (levels b s ! p) = t"
    using linksD(5) [OF assms(1,2), of s] by (auto simp: level_ok_def)
  show "Q s p \<noteq> [] \<Longrightarrow> lv_tail (levels b s ! p) = last (Q s p)" using t dseg_last [OF seg] by simp
  show "p < length (levels b s)" using linksD(2) [OF assms(1)] assms(2) by simp
qed

lemma levels_more [simp]:
  fixes b :: bitset_book
  shows "levels (b\<lparr>bid_index := i\<rparr>) s = levels b s" "levels (b\<lparr>ask_index := i\<rparr>) s = levels b s"
  by (simp_all add: levels_def)

lemma put_level_put_index: "put_index (put_level b s p lv) s' ix = put_level (put_index b s' ix) s p lv"
  by (simp add: put_index_def put_level_def)

lemma put_index_orders: "put_index (b\<lparr>orders := os\<rparr>) s ix = (put_index b s ix)\<lparr>orders := os\<rparr>"
  by (simp add: put_index_def)

lemma side_index_put_level [simp]: "side_index (put_level b s p lv) = side_index b"
  by (auto simp: side_index_def put_level_def)

lemma side_index_orders [simp]: "side_index (b\<lparr>orders := os\<rparr>) = side_index b"
  by (auto simp: side_index_def)

lemma requeue_run:
  assumes L: "links b F Q S" and fl: "floating F Q x" and x: "unat x < length (orders b)"
    and p: "unat price < MAX_PRICES" and ne: "Q s (unat price) \<noteq> []"
  shows "requeue b s price x = ret (put_level (b\<lparr>orders := put_behind (orders b) (Q s (unat price)) x\<rparr>)
    s (unat price) (tail_level b s (unat price) (Q s (unat price)) x))"
proof -
  note lv = level_at [OF L p, of s]
  have last: "unat (last (Q s (unat price))) < length (orders b)"
    using links_in [OF L last_in_set [OF ne]] by simp
  show ?thesis
    using lv ne last x
    by (simp add: requeue_def get_level_def put_behind_def Let_def tail_level_def)
qed

lemma relink_returns:
  assumes L: "links b F Q S" and fl: "floating F Q x" and x: "unat x < length (orders b)"
    and p: "unat price < MAX_PRICES" and ok: "bs_ok (side_index b s)"
  shows "returns (relink b s price x) (\<lambda>b'. \<exists>ix.
    b' = put_level ((put_index b s ix)\<lparr>orders := put_behind (orders b) (Q s (unat price)) x\<rparr>)
      s (unat price) (tail_level b s (unat price) (Q s (unat price)) x) \<and>
    bs_ok ix \<and> bs_prices ix = insert (unat price) (bs_prices (side_index b s)))"
proof -
  let ?xs = "Q s (unat price)" and ?p = "unat price"
  note lv = level_at [OF L p, of s]
  have last: "unat (last ?xs) < length (orders b)" if "?xs \<noteq> []"
    using links_in [OF L last_in_set [OF that]] by simp
  define os1 where "os1 = (orders b)[unat x := (orders b ! unat x)\<lparr>o_prev := (if ?xs = [] then NULL_IDX else last ?xs)\<rparr>]"
  define os2 where "os2 = (if ?xs = [] then os1
    else os1[unat (last ?xs) := (os1 ! unat (last ?xs))\<lparr>o_next := x\<rparr>])"
  have os: "put_behind (orders b) ?xs x = os2[unat x := (os2 ! unat x)\<lparr>o_next := NULL_IDX\<rparr>]"
    by (simp add: put_behind_def Let_def os1_def os2_def)
  define b3 where "b3 = put_level (b\<lparr>orders := os2\<rparr>) s ?p (tail_level b s ?p ?xs x)"
  have step: "relink b s price x = ebind (index_set b3 s price) (\<lambda>b4. upd_order b4 x (\<lambda>n. n\<lparr>o_next := NULL_IDX\<rparr>))"
    using lv last x
    by (cases "?xs = []") (simp_all add: relink_def get_level_def b3_def os2_def os1_def tail_level_def)
  have b3: "side_index b3 = side_index b" "orders b3 = os2" "length os2 = length (orders b)"
    by (simp_all add: b3_def os2_def os1_def)
  show ?thesis
    unfolding step
  proof (rule returns_ebindI [OF index_set_returns [OF _ p]])
    show "bs_ok (side_index b3 s)" using ok by (simp add: b3)
    fix b4 assume "\<exists>ix. b4 = put_index b3 s ix \<and> bs_ok ix \<and> bs_prices ix = insert ?p (bs_prices (side_index b3 s))"
    then obtain ix where ix: "b4 = put_index b3 s ix" "bs_ok ix" "bs_prices ix = insert ?p (bs_prices (side_index b s))"
      by (auto simp: b3)
    then have "upd_order b4 x (\<lambda>n. n\<lparr>o_next := NULL_IDX\<rparr>) =
        ret (put_level ((put_index b s ix)\<lparr>orders := put_behind (orders b) ?xs x\<rparr>) s ?p (tail_level b s ?p ?xs x))"
      using x b3 by (simp add: os) (simp add: b3_def put_level_put_index put_index_orders)
    with ix show "returns (upd_order b4 x (\<lambda>n. n\<lparr>o_next := NULL_IDX\<rparr>)) (\<lambda>b'. \<exists>ix.
        b' = put_level ((put_index b s ix)\<lparr>orders := put_behind (orders b) ?xs x\<rparr>) s ?p (tail_level b s ?p ?xs x) \<and>
        bs_ok ix \<and> bs_prices ix = insert ?p (bs_prices (side_index b s)))"
      by auto
  qed
qed

lemma write_order_returns:
  "unat x < length (orders b) \<Longrightarrow> upd_order b x (\<lambda>n. n\<lparr>o_qty := q, o_price := price\<rparr>) =
     ret (b\<lparr>orders := (orders b)[unat x := (orders b ! unat x)\<lparr>o_qty := q, o_price := price\<rparr>]\<rparr>)"
  by simp

lemma tail_level_put_index [simp]: "tail_level (put_index b s ix) = tail_level b"
  by (simp add: tail_level_def fun_eq_iff)

text \<open>The order stands behind its new queue with its new price and quantity.\<close>

lemma placed_rep:
  fixes b :: bitset_book
  assumes rep: "rep b a F Q K" and wf: "awf a" and loc: "a_loc a i = None" and fl: "floating F Q x"
    and x: "unat x < length (orders b)" "x \<noteq> NULL_IDX"
    and named: "i < length (id_map b)" "id_map b ! i = x"
    and held: "unat (o_id (orders b ! unat x)) = i" "o_is_buy (orders b ! unat x) = s"
    and p: "unat price < MAX_PRICES"
  defines "xs \<equiv> Q s (unat price)"
  defines "b1 \<equiv> put_level (b\<lparr>orders := put_behind (orders b) xs x\<rparr>) s (unat price) (tail_level b s (unat price) xs x)"
  shows "returns (upd_order b1 x (\<lambda>n. n\<lparr>o_qty := q, o_price := price\<rparr>)) (\<lambda>b2.
    rep b2 (spec_link a i s (unat price) (unat q)) F (upd2 Q s (unat price) (xs @ [x])) (insert i K) \<and>
    side_index b2 = side_index b)"
proof -
  note L = repD(1) [OF rep]
  have xs: "x \<notin> set xs" using fl by (simp add: floating_def xs_def)
  have inx: "unat y < length (orders b)" if "y \<in> set xs" for y using links_in [OF L] that by (simp add: xs_def)
  note P = put_behind [OF x(1) xs inx]
  have L1: "links b1 F (upd2 Q s (unat price) (xs @ [x])) (a_stale a)"
    unfolding b1_def xs_def
    by (rule links_append [OF L fl x p]) (use P in \<open>simp_all add: xs_def tail_level_def\<close>)
  have os1: "orders b1 = put_behind (orders b) xs x" by (simp add: b1_def)
  define b2 where "b2 = b1\<lparr>orders := (orders b1)[unat x := (orders b1 ! unat x)\<lparr>o_qty := q, o_price := price\<rparr>]\<rparr>"
  have x1: "unat x < length (orders b1)" using x P(1) by (simp add: os1)
  have run: "upd_order b1 x (\<lambda>n. n\<lparr>o_qty := q, o_price := price\<rparr>) = ret b2"
    using x1 by (simp add: b2_def)
  have L2: "links b2 F (upd2 Q s (unat price) (xs @ [x])) (a_stale a)"
  proof (rule links_cong [OF L1])
    fix y :: u32
    show "o_next (orders b2 ! unat y) = o_next (orders b1 ! unat y) \<and> o_prev (orders b2 ! unat y) = o_prev (orders b1 ! unat y)"
      using x1 by (cases "y = x") (simp_all add: b2_def nth_upd_other)
  qed (simp_all add: b2_def)
  note S = same_dataD [OF P(6), unfolded xs_def]
  have "rep b2 (spec_link a i s (unat price) (unat q)) F (upd2 Q s (unat price) (Q s (unat price) @ [x])) (insert i K)"
  proof (rule linked_rep [OF rep wf loc _ fl])
    show "o_data (orders b2 ! unat y) = o_data (orders b ! unat y)" if "y \<noteq> x" for y
      using same_data_at [OF P(6)] that by (simp add: b2_def os1 nth_upd_other)
  qed (use L2 x1 named held P(1) in \<open>simp_all add: b2_def os1 S xs_def\<close>, simp_all add: b1_def)
  then show ?thesis using run by (simp add: b2_def b1_def xs_def)
qed

lemma indexed_link:
  assumes ix: "indexed b a" and ok: "\<And>s'. bs_ok (side_index b' s')"
    and set: "\<And>s' p'. p' \<in> bs_prices (side_index b' s') \<longleftrightarrow> p' \<in> bs_prices (side_index b s') \<or> (s', p') = (s, p)"
  shows "indexed b' (spec_link a i s p q)"
proof (rule indexedI)
  show "p' \<in> bs_prices (side_index b' s') \<longleftrightarrow> a_q (spec_link a i s p q) s' p' \<noteq> []" for s' p'
    using set [of p' s'] indexedD(2) [OF ix, of s'] by (auto simp: spec_link_def upd2_apply)
qed (rule ok)

text \<open>An order that keeps its place only changes its quantity.\<close>

lemma set_qty_entries:
  assumes rep: "rep b a F Q K" and x: "x \<in> set (Q s p)"
    and os: "\<And>y. y \<noteq> x \<Longrightarrow> o_data (os' ! unat y) = o_data (orders b ! unat y)"
    and new: "o_id (os' ! unat x) = o_id (orders b ! unat x)" "unat (o_qty (os' ! unat x)) = q"
  shows "entries os' (Q s p) = set_qty (unat (o_id (orders b ! unat x))) q (a_q a s p)"
proof -
  have "entries os' ys = set_qty (unat (o_id (orders b ! unat x))) q (entries (orders b) ys)"
    if "set ys \<subseteq> set (Q s p)" for ys
    using that
  proof (induction ys)
    case (Cons y ys)
    show ?case
    proof (cases "y = x")
      case True
      then show ?thesis using Cons new by (simp add: set_qty_def)
    next
      case False
      then have "unat (o_id (orders b ! unat y)) \<noteq> unat (o_id (orders b ! unat x))"
        using slot_ids_distinct [OF rep _ x, of y s p] Cons.prems by auto
      then show ?thesis using Cons o_dataD [OF os [OF False]] by (simp add: set_qty_def)
    qed
  qed (simp add: set_qty_def)
  then show ?thesis using repD(4) [OF rep, of s p] by simp
qed

lemma keep_place_rep:
  fixes b :: bitset_book
  assumes rep: "rep b a F Q K" and ix: "indexed b a" and x: "x \<in> set (Q s p)"
    and held: "unat (o_id (orders b ! unat x)) = i" "o_is_buy (f (orders b ! unat x)) = s"
    and f: "o_id (f (orders b ! unat x)) = o_id (orders b ! unat x)" "unat (o_price (f (orders b ! unat x))) = p"
      "o_next (f (orders b ! unat x)) = o_next (orders b ! unat x)" "o_prev (f (orders b ! unat x)) = o_prev (orders b ! unat x)"
      "unat (o_qty (f (orders b ! unat x))) = q"
  defines "a' \<equiv> a\<lparr>a_q := upd2 (a_q a) s p (set_qty i q (a_q a s p))\<rparr>"
  shows "returns (upd_order b x f) (\<lambda>b'. rep b' a' F Q K \<and> indexed b' a')"
proof -
  note R = repD [OF rep]
  have xl: "unat x < length (orders b)" using links_in [OF R(1) x] by simp
  define os where "os = (orders b)[unat x := f (orders b ! unat x)]"
  define b' where "b' = b\<lparr>orders := os\<rparr>"
  have keep: "os ! unat y = orders b ! unat y" if "y \<noteq> x" for y using that by (simp add: os_def nth_upd_other)
  have here: "os ! unat x = f (orders b ! unat x)" using xl by (simp add: os_def)
  have px: "o_is_buy (orders b ! unat x) = s" "unat (o_price (orders b ! unat x)) = p"
    using slotsD [OF R(2) x] by simp_all
  have same: "o_next (os ! unat y) = o_next (orders b ! unat y) \<and> o_prev (os ! unat y) = o_prev (orders b ! unat y) \<and>
      o_id (os ! unat y) = o_id (orders b ! unat y) \<and> unat (o_price (os ! unat y)) = unat (o_price (orders b ! unat y)) \<and>
      o_is_buy (os ! unat y) = o_is_buy (orders b ! unat y)" for y :: u32
    using keep [of y] f held(2) here px by (cases "y = x") simp_all
  have L: "links b' F Q (a_stale a')"
    unfolding a'_def abook.simps
    by (rule links_cong [where b = b]) (use R(1) same in \<open>simp_all add: b'_def a'_def, simp_all add: os_def\<close>)
  have "slots b' Q"
    unfolding slots_def
  proof (intro allI impI)
    fix s' p' y assume y: "y \<in> set (Q s' p')"
    show "o_is_buy (orders b' ! unat y) = s' \<and> unat (o_price (orders b' ! unat y)) = p' \<and>
        unat (o_id (orders b' ! unat y)) < length (id_map b') \<and> id_map b' ! unat (o_id (orders b' ! unat y)) = y"
      using slotsD [OF R(2) y] same [of y] by (simp add: b'_def)
  qed
  moreover have "a_q a' s' p' = entries (orders b') (Q s' p')" for s' p'
  proof (cases "(s', p') = (s, p)")
    case True
    then show ?thesis
      using set_qty_entries [OF rep x, of os q] keep here f held by (simp add: a'_def b'_def)
  next
    case False
    then have "x \<notin> set (Q s' p')" using x linksD(9) [OF R(1) False] by blast
    then have "entries os (Q s' p') = entries (orders b) (Q s' p')"
      by (rule entries_other) (simp add: keep)
    then show ?thesis using R(4) False by (auto simp: a'_def b'_def upd2_apply)
  qed
  ultimately have "rep b' a' F Q K"
    using L R(3,5) by (simp add: rep_def) (simp add: a'_def b'_def os_def)
  moreover have "indexed b' a'"
  proof (rule indexedI)
    have "a_q a' s' p' = [] \<longleftrightarrow> a_q a s' p' = []" for s' p' by (auto simp: a'_def upd2_apply)
    then show "p' \<in> bs_prices (side_index b' s') \<longleftrightarrow> a_q a' s' p' \<noteq> []" for s' p'
      using indexedD(2) [OF ix, of s'] by (simp add: b'_def)
  qed (simp add: b'_def indexedD(1) [OF ix])
  ultimately show ?thesis using xl by (simp add: b'_def os_def)
qed

lemma replace_move:
  fixes b :: bitset_book
  assumes rep: "rep b a F Q K" and wf: "awf a" and x: "x \<in> set (Q s p)"
    and held: "unat (o_id (orders b ! unat x)) = i" and loc: "a_loc a i = Some (s, p)"
    and rep1: "rep b1 (spec_unlink a i s p) F (upd2 Q s p (remove1 x (Q s p))) (K - {i})"
    and fl: "floating F (upd2 Q s p (remove1 x (Q s p))) x"
    and data: "same_data (orders b) (orders b1)" "id_map b1 = id_map b"
    and price: "unat price < MAX_PRICES" and i: "i \<in> K"
  defines "xs \<equiv> upd2 Q s p (remove1 x (Q s p)) s (unat price)"
  shows "returns (upd_order (put_level (b1\<lparr>orders := put_behind (orders b1) xs x\<rparr>) s (unat price)
      (tail_level b1 s (unat price) xs x)) x (\<lambda>n. n\<lparr>o_qty := q, o_price := price\<rparr>)) (\<lambda>b2.
    (\<exists>Q'. rep b2 (spec_link (spec_unlink a i s p) i s (unat price) (unat q)) F Q' K) \<and> side_index b2 = side_index b1)"
proof -
  have wf1: "awf (spec_unlink a i s p)" by (rule spec_unlink_awf [OF wf loc])
  have loc1: "a_loc (spec_unlink a i s p) i = None" by simp
  note sl = slotsD [OF repD(2) [OF rep] x, unfolded held]
  have x1: "unat x < length (orders b1)" "x \<noteq> NULL_IDX"
    using links_in [OF repD(1) [OF rep] x] same_dataD(5) [OF data(1)] by simp_all
  have k: "insert i (K - {i}) = K" using i by blast
  note D = same_dataD [OF data(1)]
  have named: "i < length (id_map b1)" "id_map b1 ! i = x" using sl data(2) by simp_all
  have held1: "unat (o_id (orders b1 ! unat x)) = i" "o_is_buy (orders b1 ! unat x) = s" using held sl D by simp_all
  show ?thesis
    by (rule returns_mono [OF placed_rep [OF rep1 wf1 loc1 fl x1 named held1 price, folded xs_def, unfolded k]]) blast
qed

theorem replace_order_refines:
  assumes ref: "bitset_refines b a" and ok: "replace_ok a (unat oid) (unat new_price) (unat new_qty)"
  shows "returns (replace_order b oid new_price new_qty) (\<lambda>b'.
    bitset_refines b' (spec_replace a (unat oid) (unat new_price) (unat new_qty)))"
proof -
  let ?i = "unat oid" and ?np = "unat new_price" and ?a' = "spec_replace a (unat oid) (unat new_price) (unat new_qty)"
  from ref obtain F Q where rep: "rep b a F Q (a_known a)" and free: "a_free a = length F"
    and wf: "awf a" and room: "aroom a" and ix: "indexed b a"
    by (auto simp: bitset_refines_def refines_def)
  have known: "unat oid \<in> a_known a \<or> a_cap a \<le> unat oid" using ok by (simp add: replace_ok_def known_id_def)
  have room': "aroom ?a'" by (rule spec_replace_aroom [OF room])
  have free': "a_free ?a' = a_free a" "a_known ?a' = a_known a"
    by (auto simp: spec_replace_def split: option.splits prod.splits)
  have finish: "bitset_refines b' ?a'" if "rep b' ?a' F Q' (a_known a)" "indexed b' ?a'" "awf ?a'" for b' Q'
    using that room' free free' by (auto simp: bitset_refines_def refines_def)
  show ?thesis
  proof (rule find_slot_known [OF rep wf known])
    assume "a_loc a ?i = None" and "find_slot b oid = None"
    then show ?thesis using ref by (simp add: replace_order_def spec_replace_def)
  next
    fix s p x assume loc: "a_loc a ?i = Some (s, p)" and fs: "find_slot b oid = Some x"
      and x: "x \<in> set (Q s p)" and oidx: "unat (o_id (orders b ! unat x)) = ?i"
      and p: "p < MAX_PRICES" and xs: "unat x < length (orders b)"
      and ord: "o_is_buy (orders b ! unat x) = s" "unat (o_price (orders b ! unat x)) = p"
    define o1 where "o1 = orders b ! unat x"
    define wr where "wr = (\<lambda>b' :: bitset_book. upd_order b' x (\<lambda>n. n\<lparr>o_qty := new_qty, o_price := new_price\<rparr>))"
    note L = repD(1) [OF rep]
    have iK: "?i \<in> a_known a" using loc awfD(4) [OF wf] by blast
    have get: "get_order b x = ret o1" using xs by (simp add: get_order_def o1_def)
    have qty: "spec_get_quantity a ?i = unat (o_qty o1)"
      using map_of_entries [OF rep x] loc oidx by (simp add: spec_get_quantity_def o1_def)
    have eqp: "o_price o1 = new_price \<longleftrightarrow> p = ?np" using ord(2) by (auto simp: o1_def word_unat_eq_iff)
    define linked where "linked = spec_link (spec_unlink a ?i s p) ?i s ?np (unat new_qty)"
    have lvl: "get_level b (o_is_buy o1) (o_price o1) = ret (levels b s ! p)"
      using linksD(2) [OF L] p ord by (simp add: get_level_def o1_def)
    have step: "replace_order b oid new_price new_qty = (if o_price o1 \<noteq> new_price then
          ebind (ebind (unlink_order b x) (\<lambda>b1. clear_if_empty b1 (o_is_buy o1) (o_price o1)))
            (\<lambda>b2. ebind (relink b2 (o_is_buy o1) new_price x) wr)
        else if new_qty > o_qty o1 then
          if lv_head (levels b s ! p) = x \<and> lv_tail (levels b s ! p) = x then upd_order b x (\<lambda>n. n\<lparr>o_qty := new_qty\<rparr>)
          else ebind (unlink_order b x) (\<lambda>b1. ebind (requeue b1 (o_is_buy o1) (o_price o1) x) wr)
        else wr b)"
      by (simp only: replace_order_def fs option.case get lvl ebind_ret Let_def wr_def ebind_assoc)
    have wfl: "awf linked" if "?np < MAX_PRICES"
      unfolding linked_def using that iK
      by (intro spec_link_awf spec_unlink_awf [OF wf loc]) simp_all
    have keep: ?thesis if "?a' = a\<lparr>a_q := upd2 (a_q a) s p (set_qty ?i (unat new_qty) (a_q a s p))\<rparr>"
      "replace_order b oid new_price new_qty = upd_order b x f" "o_is_buy (f o1) = s" "o_id (f o1) = o_id o1"
      "unat (o_price (f o1)) = p" "o_next (f o1) = o_next o1" "o_prev (f o1) = o_prev o1" "unat (o_qty (f o1)) = unat new_qty" for f
    proof -
      have "awf ?a'" unfolding that(1) by (rule awf_set_qty [OF wf])
      moreover have "returns (upd_order b x f) (\<lambda>b'. rep b' ?a' F Q (a_known a) \<and> indexed b' ?a')"
        unfolding that(1)
        by (rule keep_place_rep [OF rep ix x oidx]) (use that in \<open>simp_all add: o1_def\<close>)
      ultimately show ?thesis unfolding that(2) by (auto intro: finish elim!: returns_mono)
    qed
    show ?thesis
    proof (cases "p = ?np")
      case False
      then have a': "?a' = linked" using loc by (simp add: spec_replace_def linked_def)
      have np: "?np < MAX_PRICES" and can: "can_unlink a ?i"
        using ok loc False by (simp_all add: replace_ok_def)
      let ?Q = "upd2 Q s p (remove1 x (Q s p))"
      have run: "replace_order b oid new_price new_qty =
          ebind (ebind (unlink_order b x) (\<lambda>b1. clear_if_empty b1 (o_is_buy o1) (o_price o1)))
            (\<lambda>b2. ebind (relink b2 s new_price x) wr)"
        using False ord step eqp by (simp add: o1_def)
      show ?thesis
        unfolding run a'
      proof (rule returns_ebindI [OF unlink_and_clear_rep [OF rep ix x oidx loc can]], simp_all only: o1_def ord, elim conjE)
        fix b2 assume rep2: "rep b2 (spec_unlink a ?i s p) F ?Q (a_known a - {?i})"
          and fl: "floating F ?Q x" and ix2: "indexed b2 (spec_unlink a ?i s p)"
          and data: "same_data (orders b) (orders b2)" "id_map b2 = id_map b"
        have x2: "unat x < length (orders b2)" using xs same_dataD(5) [OF data(1)] by simp
        show "returns (ebind (relink b2 s new_price x) wr) (\<lambda>b'. bitset_refines b' linked)"
        proof (rule returns_ebindI [OF relink_returns [OF repD(1) [OF rep2] fl x2 np indexedD(1) [OF ix2]]], elim exE conjE)
          fix b3 ix' assume b3: "b3 = put_level ((put_index b2 s ix')\<lparr>orders := put_behind (orders b2) (?Q s ?np) x\<rparr>)
              s ?np (tail_level b2 s ?np (?Q s ?np) x)"
            and ix': "bs_ok ix'" "bs_prices ix' = insert ?np (bs_prices (side_index b2 s))"
          let ?b = "put_index b2 s ix'"
          have rep3: "rep ?b (spec_unlink a ?i s p) F ?Q (a_known a - {?i})" using rep2 by simp
          have "returns (wr b3) (\<lambda>b4. (\<exists>Q'. rep b4 linked F Q' (a_known a)) \<and> side_index b4 = side_index ?b)"
            using replace_move [OF rep wf x oidx loc rep3 fl _ _ np iK, of new_qty] data
            by (simp add: b3 wr_def linked_def)
          then show "returns (wr b3) (\<lambda>b'. bitset_refines b' linked)"
          proof (rule returns_mono, elim conjE exE)
            fix b4 Q' assume rep4: "rep b4 linked F Q' (a_known a)" and side: "side_index b4 = side_index ?b"
            have "indexed b4 linked"
              unfolding linked_def
              by (rule indexed_link [OF ix2]) (use ix' indexedD(1) [OF ix2] in \<open>auto simp: side\<close>)
            then show "bitset_refines b4 linked" using finish rep4 wfl [OF np] by (simp add: a')
          qed
        qed
      qed
    next
      case True
      have alone: "lv_head (levels b s ! p) = x \<and> lv_tail (levels b s ! p) = x \<longleftrightarrow> length (a_q a s p) = 1"
      proof -
        obtain pv t where seg: "dseg (orders b) pv (lv_head (levels b s ! p)) (Q s p) t NULL_IDX"
          and t: "lv_tail (levels b s ! p) = t"
          using linksD(5) [OF L p, of s] x by (auto simp: level_ok_def)
        have ends: "lv_head (levels b s ! p) = hd (Q s p)" "t = last (Q s p)"
          using dseg_hd [OF seg] dseg_last [OF seg] x by auto
        have "distinct (Q s p)" by (rule linksD(7) [OF L])
        then have "hd (Q s p) = x \<and> last (Q s p) = x \<longleftrightarrow> length (Q s p) = 1"
          using x by (cases "Q s p") (auto split: if_splits)
        then show ?thesis using ends t repD(4) [OF rep, of s p] by simp
      qed
      have nqty: "o_qty o1 < new_qty \<longleftrightarrow> spec_get_quantity a ?i < unat new_qty" by (simp add: qty word_less_nat_alt)
      show ?thesis
      proof (cases "spec_get_quantity a ?i < unat new_qty \<and> length (a_q a s p) \<noteq> 1")
        case False
        then have a': "?a' = a\<lparr>a_q := upd2 (a_q a) s p (set_qty ?i (unat new_qty) (a_q a s p))\<rparr>"
          using True loc by (auto simp: spec_replace_def)
        show ?thesis
        proof (cases "o_qty o1 < new_qty")
          case inc: True
          then have "replace_order b oid new_price new_qty = upd_order b x (\<lambda>n. n\<lparr>o_qty := new_qty\<rparr>)"
            using step True eqp False nqty alone ord by (simp add: o1_def)
          then show ?thesis by (rule keep [OF a']) (use ord in \<open>simp_all add: o1_def\<close>)
        next
          case dec: False
          then have "replace_order b oid new_price new_qty = upd_order b x (\<lambda>n. n\<lparr>o_qty := new_qty, o_price := new_price\<rparr>)"
            using step True eqp by (simp add: wr_def)
          then show ?thesis by (rule keep [OF a']) (use ord True in \<open>simp_all add: o1_def\<close>)
        qed
      next
        case move: True
        then have a': "?a' = linked" using True loc by (simp add: spec_replace_def linked_def)
        have np: "?np < MAX_PRICES" and can: "can_unlink a ?i"
          using ok loc move by (auto simp: replace_ok_def)
        let ?Q = "upd2 Q s p (remove1 x (Q s p))"
        have run: "replace_order b oid new_price new_qty =
            ebind (unlink_order b x) (\<lambda>b1. ebind (requeue b1 s new_price x) wr)"
          using step True eqp move nqty alone ord by (auto simp: o1_def)
        show ?thesis
          unfolding run a'
        proof (rule returns_ebindI [OF unlink_rep [OF rep x oidx loc can]], elim conjE)
          fix b2 assume rep2: "rep b2 (spec_unlink a ?i s p) F ?Q (a_known a - {?i})"
            and fl: "floating F ?Q x" and same: "same_rest b b2"
          then have data: "same_data (orders b) (orders b2)" "id_map b2 = id_map b" by (simp_all add: same_rest_def)
          have side: "side_index b2 s' = side_index b s'" for s'
            using same by (intro side_index_more) (simp add: same_rest_def)
          have x2: "unat x < length (orders b2)" using xs same_dataD(5) [OF data(1)] by simp
          have "length (remove1 x (Q s p)) \<noteq> 0"
            using move x repD(4) [OF rep, of s p] by (cases "Q s p") (auto simp: length_remove1)
          then have ne: "?Q s ?np \<noteq> []" using True by simp
          note req = requeue_run [OF repD(1) [OF rep2] fl x2 np ne]
          have "returns (ebind (requeue b2 s new_price x) wr)
              (\<lambda>b4. (\<exists>Q'. rep b4 linked F Q' (a_known a)) \<and> side_index b4 = side_index b2)"
            using replace_move [OF rep wf x oidx loc rep2 fl data np iK, of new_qty]
            by (simp add: req wr_def linked_def)
          then show "returns (ebind (requeue b2 s new_price x) wr) (\<lambda>b'. bitset_refines b' linked)"
          proof (rule returns_mono, elim conjE exE)
            fix b4 Q' assume rep4: "rep b4 linked F Q' (a_known a)" and side4: "side_index b4 = side_index b2"
            have "indexed b4 linked"
            proof (rule indexedI)
              have "a_q a s p \<noteq> []" using x repD(4) [OF rep, of s p] by auto
              then show "p' \<in> bs_prices (side_index b4 s') \<longleftrightarrow> a_q linked s' p' \<noteq> []" for s' p'
                using indexedD(2) [OF ix, of s'] True
                by (auto simp: side4 side linked_def spec_link_def spec_unlink_def upd2_apply)
            qed (simp add: side4 side indexedD(1) [OF ix])
            then show "bitset_refines b4 linked" using finish rep4 wfl [OF np] by (simp add: a')
          qed
        qed
      qed
    qed
  qed
qed

end
