(* ===== verification/Fast_Book.thy ===== *)
theory Fast_Book
  imports Book_Rep
begin

text \<open>
  \<open>FastOrderBook\<close> (\<open>src/engine/fast_book.h\<close>): the array book without price indices.  Matching
  scans the ladder price by price in a 64-bit signed counter.  The operations refine the
  abstract book as long as the scan ends; where it runs off the ladder with quantity left,
  the counter overflows.
\<close>

type_synonym fast_book = ladder_book

section \<open>Operations\<close>

definition fast_init :: "fast_book \<Rightarrow> nat \<Rightarrow> fast_book exec" where
  "fast_init b max_orders = init_ladder b max_orders"

text \<open>\<open>p += step\<close> on \<open>int64_t\<close>.\<close>

definition next_price :: "bool \<Rightarrow> int \<Rightarrow> int exec" where
  "next_price is_buy p = (let p' = (if is_buy then p + 1 else p - 1) in
     if p' < -9223372036854775808 \<or> 9223372036854775807 < p' then stop SignedOverflow else ret p')"

text \<open>
  The \<open>for\<close> loop of \<open>match\<close>: a price off the ladder is skipped before the limit price is
  looked at.
\<close>

partial_function (option) scan_prices ::
  "fast_book \<Rightarrow> u64 \<Rightarrow> u32 \<Rightarrow> bool \<Rightarrow> int \<Rightarrow> (fast_book \<times> u32) exec" where
  "scan_prices b end_price incoming_qty is_buy p =
     (if incoming_qty > 0 then
        if p < 0 \<or> int (length (levels b (\<not> is_buy))) \<le> p then
          ebind (next_price is_buy p) (\<lambda>p'. scan_prices b end_price incoming_qty is_buy p')
        else if is_buy \<and> p > int (unat end_price) then ret (b, incoming_qty)
        else if \<not> is_buy \<and> p < int (unat end_price) then ret (b, incoming_qty)
        else
          ebind (match_level b (\<not> is_buy) (of_int p) incoming_qty) (\<lambda>r.
          ebind (next_price is_buy p) (\<lambda>p'. scan_prices (fst r) end_price (snd r) is_buy p'))
      else ret (b, incoming_qty))"

definition fast_match :: "fast_book \<Rightarrow> u64 \<Rightarrow> u32 \<Rightarrow> bool \<Rightarrow> (fast_book \<times> u32) exec" where
  "fast_match b incoming_price incoming_qty is_buy =
     scan_prices b incoming_price incoming_qty is_buy
       (if is_buy then 0 else int (length (levels b (\<not> is_buy))) - 1)"

definition fast_add_order :: "fast_book \<Rightarrow> u64 \<Rightarrow> u64 \<Rightarrow> u32 \<Rightarrow> bool \<Rightarrow> fast_book exec" where
  "fast_add_order b oid price qty is_buy =
     (if next_free_order_idx b = NULL_IDX then ret b
      else let idx = next_free_order_idx b in
        ebind (fill_slot b idx oid price qty is_buy) (\<lambda>b1.
        if length (levels b1 is_buy) \<le> unat price then ret b1
        else link_tail b1 is_buy price idx))"

definition fast_submit_order :: "fast_book \<Rightarrow> u64 \<Rightarrow> u64 \<Rightarrow> u32 \<Rightarrow> bool \<Rightarrow> fast_book exec" where
  "fast_submit_order b oid price qty is_buy =
     ebind (fast_match b price qty is_buy) (\<lambda>r.
     if snd r > 0 then fast_add_order (fst r) oid price (snd r) is_buy else ret (fst r))"

definition fast_cancel_order :: "fast_book \<Rightarrow> u64 \<Rightarrow> fast_book exec" where
  "fast_cancel_order b oid = (case find_slot b oid of
     None \<Rightarrow> ret b
   | Some order_idx \<Rightarrow>
       ebind (unlink_order b order_idx) (\<lambda>b1. release_slot b1 order_idx oid))"

definition fast_get_quantity :: "fast_book \<Rightarrow> u64 \<Rightarrow> u32 exec" where
  "fast_get_quantity b oid = get_quantity b oid"

section \<open>Scanning\<close>

text \<open>The prices the scan still has to look at.\<close>

definition remaining :: "bool \<Rightarrow> nat \<Rightarrow> int \<Rightarrow> nat list" where
  "remaining is_buy price p =
     (if is_buy then [nat p..<min (Suc price) MAX_PRICES] else rev [price..<nat (p + 1)])"

definition on_ladder :: "int \<Rightarrow> bool" where
  "on_ladder p \<longleftrightarrow> 0 \<le> p \<and> p < int MAX_PRICES"

lemma remaining_start: "remaining is_buy price (if is_buy then 0 else int MAX_PRICES - 1) = crossing is_buy price"
  by (simp add: remaining_def crossing_def)

lemma remaining_Cons:
  assumes "on_ladder p" and "if is_buy then p \<le> int price else int price \<le> p"
  shows "remaining is_buy price p = nat p # remaining is_buy price (if is_buy then p + 1 else p - 1)"
proof (cases is_buy)
  case True
  then have "nat p < min (Suc price) MAX_PRICES" using assms by (auto simp: on_ladder_def)
  moreover have "nat (p + 1) = Suc (nat p)" using assms(1) unfolding on_ladder_def by linarith
  ultimately show ?thesis using True by (simp add: remaining_def upt_conv_Cons)
next
  case False
  then have "nat (p + 1) = Suc (nat p)" "price \<le> nat p" using assms unfolding on_ladder_def by auto
  then show ?thesis using False by (simp add: remaining_def)
qed

lemma remaining_Nil:
  assumes "if is_buy then int price < p else p < int price"
  shows "remaining is_buy price p = []"
  using assms by (auto simp: remaining_def)

lemma next_price_in:
  assumes "on_ladder p"
  shows "next_price is_buy p = ret (if is_buy then p + 1 else p - 1)"
  using assms by (simp add: next_price_def on_ladder_def MAX_PRICES_def)

lemma remaining_off: "is_buy \<Longrightarrow> int MAX_PRICES \<le> p \<Longrightarrow> remaining is_buy price p = []"
  "\<not> is_buy \<Longrightarrow> p < 0 \<Longrightarrow> remaining is_buy price p = []"
  by (auto simp: remaining_def)

text \<open>Off the ladder with quantity left: the scan goes on until the counter overflows.\<close>

lemma scan_off_ladder:
  assumes "0 < q" and "\<And>s. length (levels b s) = MAX_PRICES"
    and "if is_buy then int MAX_PRICES \<le> p \<and> p \<le> 9223372036854775807 else p < 0 \<and> -9223372036854775808 \<le> p"
  shows "scan_prices b price q is_buy p = stop SignedOverflow"
  using assms(3)
proof (induction "nat (if is_buy then 9223372036854775807 - p else p + 9223372036854775808)" arbitrary: p rule: less_induct)
  case less
  let ?p = "if is_buy then p + 1 else p - 1"
  have off: "p < 0 \<or> int (length (levels b (\<not> is_buy))) \<le> p"
    using less.prems by (auto simp: assms(2) split: if_splits)
  then have step: "scan_prices b price q is_buy p = ebind (next_price is_buy p) (\<lambda>p'. scan_prices b price q is_buy p')"
    using assms(1) by (subst scan_prices.simps) simp
  show ?case
  proof (cases "?p < -9223372036854775808 \<or> 9223372036854775807 < ?p")
    case True
    then show ?thesis unfolding step by (simp add: next_price_def Let_def)
  next
    case False
    then have "scan_prices b price q is_buy ?p = stop SignedOverflow"
      using less.prems by (intro less.hyps) (auto split: if_splits)
    then show ?thesis unfolding step using False by (simp add: next_price_def Let_def)
  qed
qed

text \<open>
  The scan computes the sweep over the remaining prices, unless it leaves the ladder with
  quantity left.
\<close>

definition runs_off :: "bool \<Rightarrow> nat \<Rightarrow> bool" where
  "runs_off is_buy price \<longleftrightarrow> (if is_buy then MAX_PRICES \<le> Suc price else price = 0)"

lemma unat_of_ladder: "on_ladder p \<Longrightarrow> unat (of_int p :: u64) = nat p"
proof -
  assume p: "on_ladder p"
  then have "(of_int p :: u64) = of_nat (nat p)" by (simp add: on_ladder_def)
  moreover have "nat p < 18446744073709551616" using p unfolding on_ladder_def MAX_PRICES_def by linarith
  ultimately show ?thesis by simp
qed

lemma scan_prices_rep:
  assumes "rep b a F Q K" and "awf a"
    and "on_ladder p \<or> runs_off is_buy (unat price) \<and> p = (if is_buy then int MAX_PRICES else -1)"
    and "sweep a (\<not> is_buy) (remaining is_buy (unat price) p) (unat q) = (a', r)"
  shows "if r = 0 \<or> \<not> runs_off is_buy (unat price)
    then returns (scan_prices b price q is_buy p) (\<lambda>(b', q'). unat q' = r \<and>
      (\<exists>F' Q'. rep b' a' F' Q' K \<and> length F' + a_free a = length F + a_free a'))
    else scan_prices b price q is_buy p = stop SignedOverflow"
  using assms
proof (induction "nat (if is_buy then int MAX_PRICES - p else p + 1)" arbitrary: b a F Q q p rule: less_induct)
  case less
  note rep = less.prems(1) and wf = less.prems(2) and sw = less.prems(4)
  note lvl = linksD(2) [OF repD(1) [OF rep]]
  have stops: ?case if "scan_prices b price q is_buy p = ret (b, q)" "a' = a" "r = unat q"
    "unat q = 0 \<or> \<not> runs_off is_buy (unat price)"
    using that rep by auto
  show ?case
  proof (cases "q = 0")
    case True
    have "scan_prices b price q is_buy p = ret (b, q)" by (subst scan_prices.simps) (simp add: True)
    moreover have "a' = a \<and> r = unat q" using sw sweep_idle [OF wf, of 0] True by simp
    ultimately show ?thesis using stops True by simp
  next
    case False
    then have q: "0 < q" "unat q \<noteq> 0" by (simp_all add: word_neq_0_conv unat_eq_0)
    show ?thesis
    proof (cases "on_ladder p")
      case off: False
      then have p: "runs_off is_buy (unat price)" "p = (if is_buy then int MAX_PRICES else -1)"
        using less.prems(3) by simp_all
      have "remaining is_buy (unat price) p = []" using p(2) by (simp add: remaining_def)
      then have "r = unat q" using sw by simp
      moreover have "scan_prices b price q is_buy p = stop SignedOverflow"
        using p(2) by (intro scan_off_ladder q(1) lvl) (simp add: MAX_PRICES_def)
      ultimately show ?thesis using p(1) q(2) by simp
    next
      case on: True
      then have in_range: "\<not> (p < 0 \<or> int (length (levels b (\<not> is_buy))) \<le> p)"
        by (simp add: on_ladder_def lvl)
      show ?thesis
      proof (cases "if is_buy then p \<le> int (unat price) else int (unat price) \<le> p")
        case False
        then have "scan_prices b price q is_buy p = ret (b, q)"
          using q(1) in_range by (subst scan_prices.simps) (auto split: if_splits)
        moreover have "a' = a \<and> r = unat q"
          using sw remaining_Nil [of is_buy "unat price" p] False by (simp split: if_splits)
        moreover have "\<not> runs_off is_buy (unat price)"
          using False on unfolding runs_off_def on_ladder_def
          by (cases is_buy) (simp_all only: if_True if_False, linarith+)
        ultimately show ?thesis using stops by blast
      next
        case True
        let ?s = "\<not> is_buy" and ?p' = "if is_buy then p + 1 else p - 1"
        note up = unat_of_ladder [OF on]
        obtain a1 r1 where lv: "sweep_level a ?s (unat (of_int p :: u64)) (unat q) = (a1, r1)" by fastforce
        have wf1: "awf a1" by (rule sweep_level_awf [OF wf lv])
        have rest: "sweep a1 ?s (remaining is_buy (unat price) ?p') r1 = (a', r)"
          using sw lv up remaining_Cons [OF on True] by simp
        have run: "scan_prices b price q is_buy p = ebind (match_level b ?s (of_int p) q) (\<lambda>br.
            scan_prices (fst br) price (snd br) is_buy ?p')"
          using q(1) in_range True next_price_in [OF on]
          by (subst scan_prices.simps) (auto split: if_splits)
        have inside: "on_ladder ?p' \<or> runs_off is_buy (unat price) \<and> ?p' = (if is_buy then int MAX_PRICES else -1)"
        proof -
          define n where "n = unat price"
          show ?thesis
            using on True unfolding n_def [symmetric] by (auto simp: on_ladder_def runs_off_def split: if_splits)
        qed
        have small: "nat (if is_buy then int MAX_PRICES - ?p' else ?p' + 1) < nat (if is_buy then int MAX_PRICES - p else p + 1)"
          using on by (auto simp: on_ladder_def)
        have "unat (of_int p :: u64) < MAX_PRICES" using up on unfolding on_ladder_def by linarith
        from match_level_rep [OF rep wf this lv] obtain b1 q1 F1 Q1 where lvl1: "match_level b ?s (of_int p) q = ret (b1, q1)"
          and q1: "unat q1 = r1" and rep1: "rep b1 a1 F1 Q1 K" and free1: "length F1 + a_free a = length F + a_free a1"
          by (auto simp: returns_def)
        have "if r = 0 \<or> \<not> runs_off is_buy (unat price)
          then returns (scan_prices b1 price q1 is_buy ?p') (\<lambda>(b', q'). unat q' = r \<and>
            (\<exists>F' Q'. rep b' a' F' Q' K \<and> length F' + a_free a1 = length F1 + a_free a'))
          else scan_prices b1 price q1 is_buy ?p' = stop SignedOverflow"
          by (rule less.hyps [OF small rep1 wf1 inside]) (simp add: q1 rest)
        moreover have "length F' + a_free a1 = length F1 + a_free a' \<longleftrightarrow> length F' + a_free a = length F + a_free a'"
          for F' :: "u32 list" using free1 by auto
        ultimately show ?thesis
          unfolding run lvl1 ebind_ret fst_conv snd_conv by (simp only:)
      qed
    qed
  qed
qed

theorem fast_match_rep:
  assumes rep: "rep b a F Q K" and wf: "awf a"
    and sp: "spec_match a (unat price) (unat q) is_buy = (a', r)"
  shows "if r = 0 \<or> \<not> runs_off is_buy (unat price)
    then returns (fast_match b price q is_buy) (\<lambda>(b', q'). unat q' = r \<and>
      (\<exists>F' Q'. rep b' a' F' Q' K \<and> length F' + a_free a = length F + a_free a'))
    else fast_match b price q is_buy = stop SignedOverflow"
proof -
  have "on_ladder (if is_buy then 0 else int MAX_PRICES - 1)" by (simp add: on_ladder_def MAX_PRICES_def)
  moreover have "sweep a (\<not> is_buy) (remaining is_buy (unat price) (if is_buy then 0 else int MAX_PRICES - 1)) (unat q) = (a', r)"
    using sp unfolding remaining_start spec_match_def .
  ultimately show ?thesis
    unfolding fast_match_def linksD(2) [OF repD(1) [OF rep]]
    by (intro scan_prices_rep [OF rep wf]) simp_all
qed

section \<open>The operations refine the abstract book\<close>

definition fast_submit_ok :: "abook \<Rightarrow> nat \<Rightarrow> nat \<Rightarrow> nat \<Rightarrow> bool \<Rightarrow> bool" where
  "fast_submit_ok a oid price q s \<longleftrightarrow> submit_ok a oid price q s \<and>
     (snd (spec_match a price q s) = 0 \<or> \<not> runs_off s price)"

lemma fast_add_order_rep:
  fixes price :: u64 and q :: u32 and s :: bool
  assumes rep: "rep b a F Q (a_known a)" and wf: "awf a" and free: "a_free a = length F"
    and ok: "can_add a (unat oid)"
  defines "a' \<equiv> spec_add a (unat oid) (unat price) (unat q) s"
  shows "returns (fast_add_order b oid price q s) (\<lambda>b'. \<exists>F' Q'. rep b' a' F' Q' (a_known a') \<and> a_free a' = length F')"
proof (cases F)
  case Nil
  then have "next_free_order_idx b = NULL_IDX" using linksD(3) [OF repD(1) [OF rep]] by simp
  then have "fast_add_order b oid price q s = ret b" by (simp add: fast_add_order_def)
  moreover have "a' = a" using free Nil by (simp add: a'_def spec_add_def)
  ultimately show ?thesis using rep free by auto
next
  case (Cons x F1)
  note rep1 = rep [unfolded Cons]
  have x: "next_free_order_idx b = x" "x \<noteq> NULL_IDX" "unat x < length (orders b)"
    using linksD(3) [OF repD(1) [OF rep1]] by auto
  have oid: "unat oid < length (orders b)" and loc: "a_loc a (unat oid) = None"
    using ok free Cons repD(3) [OF rep] by (auto simp: can_add_def)
  have run: "fast_add_order b oid price q s = ebind (fill_slot b x oid price q s) (\<lambda>b1.
      if length (levels b1 s) \<le> unat price then ret b1 else link_tail b1 s price x)"
    using x by (simp add: fast_add_order_def Let_def)
  show ?thesis
    unfolding run
  proof (rule returns_ebindI [OF fill_slot_rep [OF rep1 wf oid loc]], elim conjE)
    fix b1 :: fast_book assume rep2: "rep b1 a F1 Q (a_known a - {unat oid})" and fl: "floating F1 Q x"
      and new: "orders b1 ! unat x = new_order oid price q s" and named: "id_map b1 ! unat oid = x"
      and len: "length (orders b1) = length (orders b)"
    have lvlen: "length (levels b1 s) = MAX_PRICES" by (rule linksD(2) [OF repD(1) [OF rep2]])
    show "returns (if length (levels b1 s) \<le> unat price then ret b1 else link_tail b1 s price x)
      (\<lambda>b'. \<exists>F' Q'. rep b' a' F' Q' (a_known a') \<and> a_free a' = length F')"
    proof (cases "MAX_PRICES \<le> unat price")
      case True
      then have "a' = a\<lparr>a_free := length F1, a_known := a_known a - {unat oid}\<rparr>"
        using free Cons by (simp add: a'_def spec_add_def)
      then show ?thesis using True lvlen rep2 by auto
    next
      case False
      then have p: "unat price < MAX_PRICES" by simp
      define a2 where "a2 = spec_link a (unat oid) s (unat price) (unat q)"
      have a': "a' = a2\<lparr>a_free := length F1, a_known := insert (unat oid) (a_known a)\<rparr>"
        using free Cons p by (simp add: a'_def a2_def spec_add_def spec_link_def)
      have known: "insert (unat oid) (a_known a - {unat oid}) = a_known a'" by (auto simp: a')
      have "unat oid < length (id_map b1)" using oid len linksD(1) [OF repD(1) [OF rep2]] by simp
      moreover have "unat x < length (orders b1)" using len x by simp
      ultimately have "returns (link_tail b1 s price x) (\<lambda>b'. \<exists>Q'. rep b' a2 F1 Q' (a_known a'))"
        using link_rep [OF rep2 wf fl _ x(2) new _ named loc p, unfolded known, folded a2_def]
        by (auto elim!: returns_mono)
      then show ?thesis using p lvlen by (auto simp: a' elim!: returns_mono)
    qed
  qed
qed

theorem fast_submit_order_refines:
  assumes ref: "refines b a" and ok: "fast_submit_ok a (unat oid) (unat price) (unat q) s"
  shows "returns (fast_submit_order b oid price q s) (\<lambda>b'. refines b' (spec_submit a (unat oid) (unat price) (unat q) s))"
proof -
  from ref obtain F Q where rep: "rep b a F Q (a_known a)" and free: "a_free a = length F"
    and wf: "awf a" and room: "aroom a"
    by (auto simp: refines_def)
  obtain a1 r where sp: "spec_match a (unat price) (unat q) s = (a1, r)" by fastforce
  have wf1: "awf a1" by (rule spec_match_awf [OF wf sp])
  have known: "a_known a1 = a_known a" using sp unfolding spec_match_def by (rule sweep_frame(2))
  have room': "aroom (spec_submit a (unat oid) (unat price) (unat q) s)" by (rule spec_submit_aroom [OF wf room])
  have "returns (fast_match b price q s) (\<lambda>(b', q'). unat q' = r \<and>
      (\<exists>F' Q'. rep b' a1 F' Q' (a_known a) \<and> length F' + a_free a = length F + a_free a1))"
    using fast_match_rep [OF rep wf sp] ok by (auto simp: fast_submit_ok_def sp split: if_splits)
  then obtain b1 q1 F1 Q1 where m: "fast_match b price q s = ret (b1, q1)" and q1: "unat q1 = r"
    and rep1: "rep b1 a1 F1 Q1 (a_known a1)" and free1: "a_free a1 = length F1"
    using free known by (auto simp: returns_def)
  show ?thesis
  proof (cases "q1 = 0")
    case True
    then have "spec_submit a (unat oid) (unat price) (unat q) s = a1" using q1 by (simp add: spec_submit_def sp)
    then show ?thesis
      using True m rep1 free1 wf1 room' by (auto simp: fast_submit_order_def refines_def)
  next
    case False
    then have r: "0 < r" "0 < q1" using q1 by (metis unat_eq_0 gr0I, simp add: word_neq_0_conv)
    have sub: "spec_submit a (unat oid) (unat price) (unat q) s = spec_add a1 (unat oid) (unat price) (unat q1) s"
      using r q1 by (simp add: spec_submit_def sp)
    have add: "can_add a1 (unat oid)" using ok r by (simp add: fast_submit_ok_def submit_ok_def sp)
    have "awf (spec_add a1 (unat oid) (unat price) (unat q1) s)" by (rule can_add_awf [OF wf1 add])
    then show ?thesis
      using r m room' unfolding sub
      by (auto simp: fast_submit_order_def refines_def intro: returns_mono [OF fast_add_order_rep [OF rep1 wf1 free1 add]])
  qed
qed

text \<open>Where the scan runs off the ladder with quantity left, \<open>submit_order\<close> is undefined.\<close>

theorem fast_submit_order_overflows:
  assumes ref: "refines b a" and left: "0 < snd (spec_match a (unat price) (unat q) s)"
    and off: "runs_off s (unat price)"
  shows "fast_submit_order b oid price q s = stop SignedOverflow"
proof -
  from ref obtain F Q where rep: "rep b a F Q (a_known a)" and wf: "awf a" by (auto simp: refines_def)
  obtain a1 r where sp: "spec_match a (unat price) (unat q) s = (a1, r)" by fastforce
  with fast_match_rep [OF rep wf sp] left off show ?thesis by (simp add: fast_submit_order_def)
qed

theorem fast_submit_order_overruns:
  assumes ref: "refines b a" and out: "id_overruns a (unat oid) (unat price) (unat q) s" and on: "\<not> runs_off s (unat price)"
  shows "fast_submit_order b oid price q s = stop OutOfBounds"
proof -
  from ref obtain F Q where rep: "rep b a F Q (a_known a)" and free: "a_free a = length F" and wf: "awf a"
    by (auto simp: refines_def)
  obtain a1 r where sp: "spec_match a (unat price) (unat q) s = (a1, r)" by fastforce
  obtain b1 q1 F1 Q1 where m: "fast_match b price q s = ret (b1, q1)" and q1: "unat q1 = r"
    and rep1: "rep b1 a1 F1 Q1 (a_known a)" "length F1 + a_free a = length F + a_free a1"
    using fast_match_rep [OF rep wf sp] on by (auto simp: returns_def)
  have "0 < q1" "0 < length F1" "a_cap a1 \<le> unat oid"
    using out q1 rep1(2) free by (auto simp: id_overruns_def sp word_less_nat_alt)
  then show ?thesis
    using fill_slot_overruns [OF rep1(1)] by (simp add: fast_submit_order_def m fast_add_order_def)
qed

theorem fast_cancel_order_refines:
  assumes ref: "refines b a" and ok: "known_id a (unat oid)" "can_unlink a (unat oid)"
  shows "returns (fast_cancel_order b oid) (\<lambda>b'. refines b' (spec_cancel a (unat oid)))"
proof -
  from ref obtain F Q where rep: "rep b a F Q (a_known a)" and free: "a_free a = length F"
    and wf: "awf a" and room: "aroom a"
    by (auto simp: refines_def)
  have final: "awf (spec_cancel a (unat oid))" "aroom (spec_cancel a (unat oid))"
    by (rule spec_cancel_awf [OF wf], rule spec_cancel_aroom [OF wf room])
  show ?thesis
  proof (rule find_slot_known [OF rep wf ok(1) [unfolded known_id_def]])
    assume "a_loc a (unat oid) = None" and "find_slot b oid = None"
    then show ?thesis using ref by (simp add: fast_cancel_order_def spec_cancel_def)
  next
    fix s p x assume loc: "a_loc a (unat oid) = Some (s, p)" and fs: "find_slot b oid = Some x"
      and x: "x \<in> set (Q s p)" and oidx: "unat (o_id (orders b ! unat x)) = unat oid"
      and len: "unat oid < length (orders b)" and xs: "x \<noteq> NULL_IDX" "unat x < length (orders b)"
    let ?a = "spec_unlink a (unat oid) s p"
    have wf1: "awf ?a" by (rule spec_unlink_awf [OF wf loc])
    have "returns (ebind (unlink_order b x) (\<lambda>b1. release_slot b1 x oid)) (\<lambda>b'. refines b' (spec_cancel a (unat oid)))"
    proof (rule returns_ebindI [OF unlink_rep [OF rep x oidx loc ok(2)]], elim conjE)
      fix b2 assume rep2: "rep b2 ?a F (upd2 Q s p (remove1 x (Q s p))) (a_known a - {unat oid})"
        and fl: "floating F (upd2 Q s p (remove1 x (Q s p))) x" and same: "same_rest b b2"
      then have len2: "unat x < length (orders b2)" "unat oid < length (orders b2)"
        using xs len by (simp_all add: same_rest_def same_data_def)
      have known: "insert (unat oid) (a_known a - {unat oid}) = a_known a"
        using loc awfD(4) [OF wf] by auto
      have a': "spec_cancel a (unat oid) = ?a\<lparr>a_free := Suc (a_free a)\<rparr>" using loc by (simp add: spec_cancel_def)
      have "returns (release_slot b2 x oid) (\<lambda>b'. rep b' ?a (x # F) (upd2 Q s p (remove1 x (Q s p))) (a_known a))"
        using release_rep [OF rep2 wf1 fl len2(1) xs(1) len2(2), unfolded known] by (auto elim!: returns_mono)
      then show "returns (release_slot b2 x oid) (\<lambda>b'. refines b' (spec_cancel a (unat oid)))"
      proof (rule returns_mono)
        fix b' :: fast_book assume "rep b' ?a (x # F) (upd2 Q s p (remove1 x (Q s p))) (a_known a)"
        then show "refines b' (spec_cancel a (unat oid))"
          unfolding refines_def using final free by (auto simp: a')
      qed
    qed
    then show ?thesis by (simp add: fast_cancel_order_def fs)
  qed
qed

theorem fast_get_quantity_refines:
  assumes "refines b a" and "known_id a (unat oid)"
  shows "returns (fast_get_quantity b oid) (\<lambda>r. unat r = spec_get_quantity a (unat oid))"
  using assms get_quantity_rep unfolding refines_def known_id_def fast_get_quantity_def by blast

theorem fast_init_refines:
  assumes "length (bid_levels b) = MAX_PRICES" and "length (ask_levels b) = MAX_PRICES"
    and "0 < n" and "n \<le> 4294967295"
  shows "returns (fast_init b n) (\<lambda>b'. refines b' (spec_init n))"
  unfolding fast_init_def by (rule returns_mono [OF init_ladder_rep [OF assms]]) simp

end
