(* ===== verification/Book_Interface.thy ===== *)
theory Book_Interface
  imports Bitset_Book Fast_Book
begin

text \<open>
  The interface the benchmark drives (\<open>BookOps\<close> in \<open>src/benchmark_book.cpp\<close>): a locale with
  the four operations and the laws they promise towards the abstract book.  What holds of
  every run of commands is proved once inside it; both array books interpret it.
\<close>

section \<open>The interface\<close>

record 'b BookOps =
  bo_init :: "'b \<Rightarrow> nat \<Rightarrow> 'b exec"
  bo_submit_order :: "'b \<Rightarrow> u64 \<Rightarrow> u64 \<Rightarrow> u32 \<Rightarrow> bool \<Rightarrow> 'b exec"
  bo_cancel_order :: "'b \<Rightarrow> u64 \<Rightarrow> 'b exec"
  bo_get_quantity :: "'b \<Rightarrow> u64 \<Rightarrow> u32 exec"

definition bitset_ops :: "bitset_book BookOps" where
  "bitset_ops = \<lparr>bo_init = init, bo_submit_order = submit_order, bo_cancel_order = cancel_order,
     bo_get_quantity = get_quantity\<rparr>"

definition fast_ops :: "fast_book BookOps" where
  "fast_ops = \<lparr>bo_init = fast_init, bo_submit_order = fast_submit_order,
     bo_cancel_order = fast_cancel_order, bo_get_quantity = fast_get_quantity\<rparr>"

section \<open>Runs of commands\<close>

datatype command = Submit u64 u64 u32 bool | Cancel u64

fun do_command :: "'b BookOps \<Rightarrow> command \<Rightarrow> 'b \<Rightarrow> 'b exec" where
  "do_command ops (Submit oid price qty is_buy) b = bo_submit_order ops b oid price qty is_buy"
| "do_command ops (Cancel oid) b = bo_cancel_order ops b oid"

fun run_with :: "(command \<Rightarrow> 'b \<Rightarrow> 'b exec) \<Rightarrow> command list \<Rightarrow> 'b \<Rightarrow> 'b exec" where
  "run_with step [] b = ret b"
| "run_with step (c # cs) b = ebind (step c b) (run_with step cs)"

definition run_commands :: "'b BookOps \<Rightarrow> command list \<Rightarrow> 'b \<Rightarrow> 'b exec" where
  "run_commands ops = run_with (do_command ops)"

lemma run_commands_simps [simp]:
  "run_commands ops [] b = ret b" "run_commands ops (c # cs) b = ebind (do_command ops c b) (run_commands ops cs)"
  by (simp_all add: run_commands_def)

fun spec_command :: "command \<Rightarrow> abook \<Rightarrow> abook" where
  "spec_command (Submit oid price qty is_buy) a = spec_submit a (unat oid) (unat price) (unat qty) is_buy"
| "spec_command (Cancel oid) a = spec_cancel a (unat oid)"

fun spec_commands :: "command list \<Rightarrow> abook \<Rightarrow> abook" where
  "spec_commands [] a = a"
| "spec_commands (c # cs) a = spec_commands cs (spec_command c a)"

text \<open>Commands within the specification; \<open>ok\<close> is the book's own condition on a submit.\<close>

type_synonym submit_cond = "abook \<Rightarrow> nat \<Rightarrow> nat \<Rightarrow> nat \<Rightarrow> bool \<Rightarrow> bool"

fun command_ok :: "submit_cond \<Rightarrow> command \<Rightarrow> abook \<Rightarrow> bool" where
  "command_ok ok (Submit oid price qty is_buy) a = ok a (unat oid) (unat price) (unat qty) is_buy"
| "command_ok ok (Cancel oid) a = (known_id a (unat oid) \<and> can_unlink a (unat oid))"

fun commands_ok :: "submit_cond \<Rightarrow> command list \<Rightarrow> abook \<Rightarrow> bool" where
  "commands_ok ok [] a = True"
| "commands_ok ok (c # cs) a = (command_ok ok c a \<and> commands_ok ok cs (spec_command c a))"

lemma spec_commands_append: "spec_commands (cs @ ds) a = spec_commands ds (spec_commands cs a)"
  by (induction cs arbitrary: a) auto

lemma commands_ok_append:
  "commands_ok ok (cs @ ds) a \<longleftrightarrow> commands_ok ok cs a \<and> commands_ok ok ds (spec_commands cs a)"
  by (induction cs arbitrary: a) auto

lemma commands_ok_mono:
  assumes "\<And>a oid price qty s. ok a oid price qty s \<Longrightarrow> ok' a oid price qty s"
  shows "commands_ok ok cs a \<Longrightarrow> commands_ok ok' cs a"
proof (induction cs arbitrary: a)
  case (Cons c cs)
  then show ?case using assms by (cases c) auto
qed simp

text \<open>
  What a book that takes commands promises: \<open>refs n b a\<close> says that \<open>b\<close> stands for \<open>a\<close> and can take
  \<open>n\<close> more commands.
\<close>

locale command_book =
  fixes step :: "command \<Rightarrow> 'b \<Rightarrow> 'b exec"
    and refs :: "nat \<Rightarrow> 'b \<Rightarrow> abook \<Rightarrow> bool"
    and sub_ok :: submit_cond
  assumes refs_wf: "refs n b a \<Longrightarrow> awf a \<and> aroom a"
    and command_law: "refs (Suc n) b a \<Longrightarrow> command_ok sub_ok c a \<Longrightarrow>
      returns (step c b) (\<lambda>b'. refs n b' (spec_command c a))"
begin

lemma run_law:
  "refs (length cs + n) b a \<Longrightarrow> commands_ok sub_ok cs a \<Longrightarrow>
   returns (run_with step cs b) (\<lambda>b'. refs n b' (spec_commands cs a))"
proof (induction cs arbitrary: b a)
  case (Cons c cs)
  then have "returns (step c b) (\<lambda>b'. refs (length cs + n) b' (spec_command c a))"
    by (intro command_law) simp_all
  then show ?case
    using Cons by (auto elim: returns_ebindI)
qed simp

text \<open>Commands leave the two sides of the book uncrossed.\<close>

lemma spec_commands_uncrossed: "uncrossed a \<Longrightarrow> refs (length cs + n) b a \<Longrightarrow> commands_ok sub_ok cs a \<Longrightarrow>
    uncrossed (spec_commands cs a)"
proof (induction cs arbitrary: b a)
  case (Cons c cs)
  obtain b' where b': "refs (length cs + n) b' (spec_command c a)"
    using command_law [of "length cs + n" b a c] Cons.prems(2,3) by (auto simp: returns_def)
  have "awf a" using refs_wf [OF Cons.prems(2)] by simp
  then have "uncrossed (spec_command c a)"
    using Cons.prems(1) by (cases c) (auto intro: spec_submit_uncrossed spec_cancel_uncrossed)
  then show ?case using Cons.IH [OF _ b'] Cons.prems(3) by simp
qed simp

end

text \<open>The four operations of \<open>BookOps\<close>.\<close>

locale order_book =
  fixes ops :: "'b BookOps"
    and shaped :: "'b \<Rightarrow> bool"
    and refs :: "'b \<Rightarrow> abook \<Rightarrow> bool"
    and sub_ok :: submit_cond
  assumes refs_wf: "refs b a \<Longrightarrow> awf a \<and> aroom a"
    and init_law: "shaped b \<Longrightarrow> 0 < n \<Longrightarrow> n \<le> 4294967295 \<Longrightarrow>
      returns (bo_init ops b n) (\<lambda>b'. refs b' (spec_init n))"
    and submit_law: "refs b a \<Longrightarrow> sub_ok a (unat oid) (unat price) (unat qty) s \<Longrightarrow>
      returns (bo_submit_order ops b oid price qty s)
        (\<lambda>b'. refs b' (spec_submit a (unat oid) (unat price) (unat qty) s))"
    and cancel_law: "refs b a \<Longrightarrow> known_id a (unat oid) \<Longrightarrow> can_unlink a (unat oid) \<Longrightarrow>
      returns (bo_cancel_order ops b oid) (\<lambda>b'. refs b' (spec_cancel a (unat oid)))"
    and quantity_law: "refs b a \<Longrightarrow> known_id a (unat oid) \<Longrightarrow>
      returns (bo_get_quantity ops b oid) (\<lambda>r. unat r = spec_get_quantity a (unat oid))"

sublocale order_book \<subseteq> commands: command_book "do_command ops" "\<lambda>_. refs" sub_ok
proof unfold_locales
  show "awf a \<and> aroom a" if "refs b a" for b a using that by (rule refs_wf)
  show "returns (do_command ops c b) (\<lambda>b'. refs b' (spec_command c a))" if "refs b a" "command_ok sub_ok c a" for b a c
    using that by (cases c) (auto intro: submit_law cancel_law)
qed

context order_book begin

lemma command_refines:
  "refs b a \<Longrightarrow> command_ok sub_ok c a \<Longrightarrow> returns (do_command ops c b) (\<lambda>b'. refs b' (spec_command c a))"
  by (rule commands.command_law)

lemma run_refines:
  "refs b a \<Longrightarrow> commands_ok sub_ok cs a \<Longrightarrow> returns (run_commands ops cs b) (\<lambda>b'. refs b' (spec_commands cs a))"
  unfolding run_commands_def by (rule commands.run_law)

lemma run_from_init:
  assumes "shaped b" and "0 < n" and "n \<le> 4294967295" and "commands_ok sub_ok cs (spec_init n)"
  shows "returns (ebind (bo_init ops b n) (run_commands ops cs)) (\<lambda>b'. refs b' (spec_commands cs (spec_init n)) \<and>
    uncrossed (spec_commands cs (spec_init n)))"
proof (rule returns_ebindI [OF init_law [OF assms(1-3)]])
  fix b0 assume b0: "refs b0 (spec_init n)"
  have "uncrossed (spec_commands cs (spec_init n))"
    using commands.spec_commands_uncrossed [OF spec_init_uncrossed b0 assms(4)] .
  with run_refines [OF b0 assms(4)] show "returns (run_commands ops cs b0)
      (\<lambda>b'. refs b' (spec_commands cs (spec_init n)) \<and> uncrossed (spec_commands cs (spec_init n)))"
    by (auto elim: returns_mono)
qed

lemma run_then_quantity:
  assumes "shaped b" and "0 < n" and "n \<le> 4294967295" and "commands_ok sub_ok cs (spec_init n)"
    and "known_id (spec_commands cs (spec_init n)) (unat oid)"
  shows "returns (ebind (ebind (bo_init ops b n) (run_commands ops cs)) (\<lambda>b'. bo_get_quantity ops b' oid))
    (\<lambda>r. unat r = spec_get_quantity (spec_commands cs (spec_init n)) (unat oid))"
  using run_from_init [OF assms(1-4)] quantity_law [OF _ assms(5)] by (auto elim: returns_ebindI)

end

section \<open>The two array books\<close>

definition array_shaped :: "'a ladder_book_scheme \<Rightarrow> bool" where
  "array_shaped b \<longleftrightarrow> length (bid_levels b) = MAX_PRICES \<and> length (ask_levels b) = MAX_PRICES"

interpretation bitset_if: order_book bitset_ops array_shaped bitset_refines submit_ok
proof unfold_locales
  show "bitset_refines b a \<Longrightarrow> awf a \<and> aroom a" for b a
    by (simp add: bitset_refines_def refines_def)
  show "array_shaped b \<Longrightarrow> 0 < n \<Longrightarrow> n \<le> 4294967295 \<Longrightarrow>
      returns (bo_init bitset_ops b n) (\<lambda>b'. bitset_refines b' (spec_init n))" for b n
    by (simp add: bitset_ops_def array_shaped_def init_refines)
qed (simp_all add: bitset_ops_def submit_order_refines cancel_order_refines get_quantity_refines known_id_def)

interpretation fast_if: order_book fast_ops array_shaped refines fast_submit_ok
proof unfold_locales
  show "refines b a \<Longrightarrow> awf a \<and> aroom a" for b :: fast_book and a by (simp add: refines_def)
  show "array_shaped b \<Longrightarrow> 0 < n \<Longrightarrow> n \<le> 4294967295 \<Longrightarrow>
      returns (bo_init fast_ops b n) (\<lambda>b'. refines b' (spec_init n))" for b n
    by (simp add: fast_ops_def array_shaped_def fast_init_refines)
qed (simp_all add: fast_ops_def fast_submit_order_refines fast_cancel_order_refines fast_get_quantity_refines)

lemma fast_ok_submit_ok: "fast_submit_ok a oid price qty s \<Longrightarrow> submit_ok a oid price qty s"
  by (simp add: fast_submit_ok_def)

end
