(* ===== verification/Simple_Book.thy ===== *)
theory Simple_Book
  imports Book_Interface
begin

text \<open>
  \<open>NaiveOrderBook\<close> (\<open>src/engine/simple_book.h\<close>): a sorted map from prices to lists of orders per
  side, and a hash map from ids to locations that hold a list iterator.  The iterator is the
  address of the list's node, which no other node of the book has while it is in use.  The
  book has no capacity and takes any 64-bit price.
\<close>

section \<open>State\<close>

record naive_order =
  n_id :: u64
  n_price :: u64
  n_qty :: u32
  n_is_buy :: bool

type_synonym node = nat
type_synonym order_list = "(node \<times> naive_order) list"

record OrderLocation =
  loc_price :: u64
  loc_is_buy :: bool
  loc_itr :: node

text \<open>\<open>std::map\<close> as the list of its entries in the order of its comparator.\<close>

record naive_book =
  total_trades :: int
  bids :: "(u64 \<times> order_list) list"
  asks :: "(u64 \<times> order_list) list"
  order_lookup :: "u64 \<rightharpoonup> OrderLocation"
  next_node :: node

definition naive_new :: naive_book where
  "naive_new = \<lparr>total_trades = 0, bids = [], asks = [], order_lookup = Map.empty, next_node = 0\<rparr>"

definition side_map :: "naive_book \<Rightarrow> bool \<Rightarrow> (u64 \<times> order_list) list" where
  "side_map nb is_buy = (if is_buy then bids nb else asks nb)"

definition put_side :: "naive_book \<Rightarrow> bool \<Rightarrow> (u64 \<times> order_list) list \<Rightarrow> naive_book" where
  "put_side nb is_buy m = (if is_buy then nb\<lparr>bids := m\<rparr> else nb\<lparr>asks := m\<rparr>)"

text \<open>\<open>std::greater\<close> for the bids, the default order for the asks.\<close>

definition comes_before :: "bool \<Rightarrow> u64 \<Rightarrow> u64 \<Rightarrow> bool" where
  "comes_before is_buy p p' = (if is_buy then p' < p else p < p')"

text \<open>\<open>map[price]\<close>, which inserts an empty list for a new key, with a change of the list.\<close>

fun at_price :: "bool \<Rightarrow> u64 \<Rightarrow> (order_list \<Rightarrow> order_list) \<Rightarrow> (u64 \<times> order_list) list \<Rightarrow> (u64 \<times> order_list) list" where
  "at_price s p f [] = [(p, f [])]"
| "at_price s p f ((k, l) # m) =
     (if p = k then (k, f l) # m
      else if comes_before s p k then (p, f []) # (k, l) # m
      else (k, l) # at_price s p f m)"

section \<open>Operations\<close>

text \<open>\<open>total_trades++\<close> on \<open>int\<close>.\<close>

definition count_trade :: "int \<Rightarrow> int exec" where
  "count_trade t = (if t = 2147483647 then stop SignedOverflow else ret (t + 1))"

text \<open>
  \<open>process_list\<close>: the list, the incoming quantity, the trade counter and the lookup table.
  Erasing the result of a \<open>find\<close> that found nothing is undefined.
\<close>

function process_list :: "order_list \<Rightarrow> u32 \<Rightarrow> int \<Rightarrow> (u64 \<rightharpoonup> OrderLocation) \<Rightarrow>
    (order_list \<times> u32 \<times> int \<times> (u64 \<rightharpoonup> OrderLocation)) exec" where
  "process_list [] qty t lk = ret ([], qty, t, lk)"
| "process_list ((nd, resting) # rest) qty t lk =
     (if qty > 0 then
        let traded = min qty (n_qty resting) in
        ebind (count_trade t) (\<lambda>t'.
        if n_qty resting - traded = 0 then
          (case lk (n_id resting) of
             None \<Rightarrow> stop BadIterator
           | Some _ \<Rightarrow> process_list rest (qty - traded) t' (lk(n_id resting := None)))
        else process_list ((nd, resting\<lparr>n_qty := n_qty resting - traded\<rparr>) # rest) (qty - traded) t' lk)
      else ret ((nd, resting) # rest, qty, t, lk))"
  by pat_completeness auto

termination
proof (relation "measure (\<lambda>(l, q, t, lk). length l + unat q)", goal_cases)
  case (2 nd resting rest qty t lk traded t')
  have "unat (qty - traded) \<le> unat qty" using 2(2) by (simp add: unat_sub)
  then show ?case by simp
next
  case (3 nd resting rest qty t lk traded t')
  have "traded = qty" using 3(2,3) by (auto simp: min_def split: if_splits)
  with 3(1) show ?case by (simp add: unat_gt_0 word_neq_0_conv [symmetric])
qed simp

text \<open>Whether the best price \<open>p\<close> of the other side does not meet the incoming limit.\<close>

definition does_not_cross :: "bool \<Rightarrow> u64 \<Rightarrow> u64 \<Rightarrow> bool" where
  "does_not_cross is_buy price p = (if is_buy then price < p else price > p)"

partial_function (option) naive_match ::
  "naive_book \<Rightarrow> u64 \<Rightarrow> u32 \<Rightarrow> bool \<Rightarrow> (naive_book \<times> u32) exec" where
  "naive_match nb price qty is_buy =
     (if qty > 0 then
        (case side_map nb (\<not> is_buy) of
           [] \<Rightarrow> ret (nb, qty)
         | (best, l) # m \<Rightarrow>
             if does_not_cross is_buy price best then ret (nb, qty)
             else
               ebind (process_list l qty (total_trades nb) (order_lookup nb)) (\<lambda>(l', qty', t', lk').
               naive_match ((put_side nb (\<not> is_buy) (if l' = [] then m else (best, l') # m))
                 \<lparr>total_trades := t', order_lookup := lk'\<rparr>) price qty' is_buy))
      else ret (nb, qty))"

definition naive_add_order :: "naive_book \<Rightarrow> u64 \<Rightarrow> u64 \<Rightarrow> u32 \<Rightarrow> bool \<Rightarrow> naive_book exec" where
  "naive_add_order nb oid price qty is_buy =
     ebind (naive_match nb price qty is_buy) (\<lambda>(nb1, left).
     if left > 0 then
       let nd = next_node nb1;
           ord = \<lparr>n_id = oid, n_price = price, n_qty = left, n_is_buy = is_buy\<rparr> in
       ret ((put_side nb1 is_buy (at_price is_buy price (\<lambda>l. l @ [(nd, ord)]) (side_map nb1 is_buy)))
         \<lparr>order_lookup := (order_lookup nb1)(oid \<mapsto> \<lparr>loc_price = price, loc_is_buy = is_buy, loc_itr = nd\<rparr>),
          next_node := nd + 1\<rparr>)
     else ret nb1)"

text \<open>Erasing by an iterator that is not of this list is undefined.\<close>

definition naive_cancel_order :: "naive_book \<Rightarrow> u64 \<Rightarrow> naive_book exec" where
  "naive_cancel_order nb oid = (case order_lookup nb oid of
     None \<Rightarrow> ret nb
   | Some loc \<Rightarrow>
       (case map_of (side_map nb (loc_is_buy loc)) (loc_price loc) of
          None \<Rightarrow> stop BadIterator
        | Some l \<Rightarrow>
            if loc_itr loc \<notin> fst ` set l then stop BadIterator
            else ret ((put_side nb (loc_is_buy loc)
              (at_price (loc_is_buy loc) (loc_price loc) (filter (\<lambda>x. fst x \<noteq> loc_itr loc)) (side_map nb (loc_is_buy loc))))
              \<lparr>order_lookup := (order_lookup nb)(oid := None)\<rparr>)))"

definition has_order :: "naive_book \<Rightarrow> u64 \<Rightarrow> bool" where
  "has_order nb oid \<longleftrightarrow> order_lookup nb oid \<noteq> None"

section \<open>The sorted map\<close>

definition ordered :: "bool \<Rightarrow> (u64 \<times> order_list) list \<Rightarrow> bool" where
  "ordered s m \<longleftrightarrow> sorted_wrt (comes_before s) (map fst m)"

definition level_of :: "(u64 \<times> order_list) list \<Rightarrow> u64 \<Rightarrow> order_list" where
  "level_of m p = (case map_of m p of None \<Rightarrow> [] | Some l \<Rightarrow> l)"

lemma ordered_simps [simp]:
  "ordered s []" "ordered s ((k, l) # m) \<longleftrightarrow> (\<forall>x \<in> set m. comes_before s k (fst x)) \<and> ordered s m"
  by (auto simp: ordered_def)

lemma level_of_simps [simp]:
  "level_of [] p = []" "level_of ((k, l) # m) p = (if p = k then l else level_of m p)"
  by (simp_all add: level_of_def)

lemma comes_before_trans: "comes_before s p q \<Longrightarrow> comes_before s q r \<Longrightarrow> comes_before s p r"
  by (auto simp: comes_before_def split: if_splits)

lemma comes_before_total: "p \<noteq> q \<Longrightarrow> \<not> comes_before s p q \<Longrightarrow> comes_before s q p"
  by (auto simp: comes_before_def split: if_splits)

lemma comes_before_irrefl [simp]: "\<not> comes_before s p p"
  by (simp add: comes_before_def)

lemma level_of_before: "\<forall>x \<in> set m. comes_before s p (fst x) \<Longrightarrow> level_of m p = []"
  by (induction m) auto

lemma fst_at_price: "fst ` set (at_price s p f m) = insert p (fst ` set m)"
  by (induction s p f m rule: at_price.induct) auto

lemma at_price_ordered: "ordered s m \<Longrightarrow> ordered s (at_price s p f m)"
proof (induction s p f m rule: at_price.induct)
  case (2 s p f k l m)
  show ?case
  proof (cases "p = k \<or> comes_before s p k")
    case True
    then show ?thesis using 2 comes_before_trans by auto
  next
    case False
    then have k: "comes_before s k p" by (auto intro: comes_before_total)
    have "comes_before s k (fst x)" if "x \<in> set (at_price s p f m)" for x
    proof -
      have "fst x \<in> insert p (fst ` set m)" using fst_at_price [of s p f m] that by blast
      then show ?thesis using 2(2) k by auto
    qed
    then show ?thesis using False 2 by auto
  qed
qed simp

lemma level_of_at_price:
  assumes "ordered s m"
  shows "level_of (at_price s p f m) p' = (if p' = p then f (level_of m p) else level_of m p')"
  using assms
proof (induction s p f m rule: at_price.induct)
  case (2 s p f k l m)
  have "level_of m p = []" if "comes_before s p k"
    using 2(2) that by (intro level_of_before [of _ s]) (auto intro: comes_before_trans)
  then show ?case using 2 by auto
qed simp

lemma side_map_simps [simp]:
  "side_map (put_side nb s m) s' = (if s' = s then m else side_map nb s')"
  "side_map (nb\<lparr>total_trades := t\<rparr>) s' = side_map nb s'" "side_map (nb\<lparr>order_lookup := lk\<rparr>) s' = side_map nb s'"
  "side_map (nb\<lparr>next_node := n\<rparr>) s' = side_map nb s'"
  "order_lookup (put_side nb s m) = order_lookup nb" "next_node (put_side nb s m) = next_node nb"
  "total_trades (put_side nb s m) = total_trades nb"
  by (simp_all add: side_map_def put_side_def)

section \<open>Filling one list\<close>

definition entries_of :: "order_list \<Rightarrow> (nat \<times> nat) list" where
  "entries_of l = map (\<lambda>x. (unat (n_id (snd x)), unat (n_qty (snd x)))) l"

definition tags :: "order_list \<Rightarrow> (node \<times> u64) list" where
  "tags l = map (\<lambda>x. (fst x, n_id (snd x))) l"

lemma entries_of_simps [simp]:
  "entries_of [] = []" "entries_of (x # l) = (unat (n_id (snd x)), unat (n_qty (snd x))) # entries_of l"
  "entries_of (l @ l') = entries_of l @ entries_of l'" "entries_of l = [] \<longleftrightarrow> l = []" "length (entries_of l) = length l"
  by (simp_all add: entries_of_def)

lemma tags_simps [simp]:
  "tags [] = []" "tags (x # l) = (fst x, n_id (snd x)) # tags l" "tags (l @ l') = tags l @ tags l'"
  by (simp_all add: tags_def)

lemma process_list_returns:
  assumes "fill (entries_of l) (unat qty) = (ids, ys, r)"
    and "distinct (map fst (entries_of l))" and "\<And>x. x \<in> set l \<Longrightarrow> lk (n_id (snd x)) \<noteq> None"
    and "t + int (length l) \<le> 2147483647"
  shows "returns (process_list l qty t lk) (\<lambda>(l', qty', t', lk'). unat qty' = r \<and> entries_of l' = ys \<and>
    tags l' = drop (length ids) (tags l) \<and> lk' = (\<lambda>i. if unat i \<in> set ids then None else lk i) \<and>
    t \<le> t' \<and> t' \<le> t + int (length ids) + (if r = 0 then 1 else 0))"
  using assms
proof (induction l qty t lk arbitrary: ids ys r rule: process_list.induct)
  case (1 qty t lk)
  then show ?case by auto
next
  case (2 nd resting rest qty t lk)
  let ?i = "n_id resting" and ?R = "n_qty resting"
  have none: "unat i \<noteq> unat ?i" if "i \<noteq> ?i" for i using that unsigned_word_eqI by metis
  show ?case
  proof (cases "qty = 0")
    case True
    then show ?thesis using 2(3) by auto
  next
    case pos: False
    have count: "count_trade t = ret (t + 1)" using 2(6) by (simp add: count_trade_def)
    show ?thesis
    proof (cases "?R \<le> qty")
      case True
      have q: "unat (qty - ?R) = unat qty - unat ?R" using True by (rule unat_sub)
      have le: "unat ?R \<le> unat qty" using True by (simp add: word_le_nat_alt)
      have min: "min qty ?R = ?R" using True by (simp add: min_def)
      obtain ids' where ids: "ids = unat ?i # ids'" and fill: "fill (entries_of rest) (unat (qty - ?R)) = (ids', ys, r)"
        using 2(3) le pos by (auto simp: q unat_eq_0 split: prod.splits)
      have fresh: "?i \<noteq> n_id (snd x)" if "x \<in> set rest" for x
        using 2(4) that by (force simp: entries_of_def)
      obtain loc where loc: "lk ?i = Some loc" using 2(5) [of "(nd, resting)"] by auto
      have ih: "returns (process_list rest (qty - ?R) (t + 1) (lk(?i := None))) (\<lambda>(l', qty', t', lk'). unat qty' = r \<and>
        entries_of l' = ys \<and> tags l' = drop (length ids') (tags rest) \<and>
        lk' = (\<lambda>i. if unat i \<in> set ids' then None else (lk(?i := None)) i) \<and>
        t + 1 \<le> t' \<and> t' \<le> t + 1 + int (length ids') + (if r = 0 then 1 else 0))"
      proof (rule 2(1) [OF _ min [symmetric] _ loc fill])
        show "(lk(?i := None)) (n_id (snd x)) \<noteq> None" if "x \<in> set rest" for x
          using 2(5) [of x] fresh [OF that] that by simp
      qed (use pos 2(4,5,6) fresh in \<open>auto simp: word_neq_0_conv\<close>)
      have run: "process_list ((nd, resting) # rest) qty t lk = process_list rest (qty - ?R) (t + 1) (lk(?i := None))"
        using pos loc by (simp add: min count word_neq_0_conv)
      show ?thesis
        unfolding run by (rule returns_mono [OF ih]) (auto simp: ids fun_eq_iff dest: none)
    next
      case False
      then have less: "qty < ?R" by simp
      have min: "min qty ?R = qty" using less by (simp add: min_def order.strict_implies_order)
      have R: "?R - qty \<noteq> 0" "unat (?R - qty) = unat ?R - unat qty" using less by (auto simp: unat_sub)
      have "process_list ((nd, resting) # rest) qty t lk = ret ((nd, resting\<lparr>n_qty := ?R - qty\<rparr>) # rest, 0, t + 1, lk)"
        using pos R(1) by (simp add: min count word_neq_0_conv)
      moreover have "ids = [] \<and> ys = (unat ?i, unat ?R - unat qty) # entries_of rest \<and> r = 0"
        using 2(3) less pos by (auto simp: word_less_nat_alt unat_eq_0)
      ultimately show ?thesis using R(2) by simp
    qed
  qed
qed

section \<open>The abstraction relation\<close>

text \<open>
  The lists are the queues; a location names the list and the node of the order.  The trade
  counter, the resting orders and the commands still to come stay below a bound \<open>K\<close>, at most
  \<open>INT_MAX\<close>: a trade either takes a resting order away or ends an incoming one.
\<close>

definition naive_rep :: "naive_book \<Rightarrow> abook \<Rightarrow> bool" where
  "naive_rep nb a \<longleftrightarrow>
     (\<forall>s. ordered s (side_map nb s)) \<and>
     (\<forall>s p. a_q a s (unat p) = entries_of (level_of (side_map nb s) p)) \<and>
     (\<forall>s p. distinct (map fst (level_of (side_map nb s) p))) \<and>
     (\<forall>s p x. x \<in> set (tags (level_of (side_map nb s) p)) \<longrightarrow> fst x < next_node nb \<and>
        order_lookup nb (snd x) = Some \<lparr>loc_price = p, loc_is_buy = s, loc_itr = fst x\<rparr>) \<and>
     (\<forall>oid. order_lookup nb oid = None \<longleftrightarrow> a_loc a (unat oid) = None)"

definition trade_room :: "int \<Rightarrow> nat \<Rightarrow> naive_book \<Rightarrow> abook \<Rightarrow> bool" where
  "trade_room K n nb a \<longleftrightarrow> 0 \<le> total_trades nb \<and>
     total_trades nb + int (card (dom (a_loc a))) + int n \<le> K \<and> K \<le> 2147483647"

definition naive_refines :: "int \<Rightarrow> nat \<Rightarrow> naive_book \<Rightarrow> abook \<Rightarrow> bool" where
  "naive_refines K n nb a \<longleftrightarrow> awf a \<and> aroom a \<and> naive_rep nb a \<and> trade_room K n nb a"

lemma naive_repD:
  assumes "naive_rep nb a"
  shows "ordered s (side_map nb s)" and "a_q a s (unat p) = entries_of (level_of (side_map nb s) p)"
    and "distinct (map fst (level_of (side_map nb s) p))"
    and "x \<in> set (tags (level_of (side_map nb s) p)) \<Longrightarrow> fst x < next_node nb \<and>
      order_lookup nb (snd x) = Some \<lparr>loc_price = p, loc_is_buy = s, loc_itr = fst x\<rparr>"
    and "order_lookup nb oid = None \<longleftrightarrow> a_loc a (unat oid) = None"
  using assms unfolding naive_rep_def by blast+

lemma tags_fst: "map fst l = map fst (tags l)"
  by (simp add: tags_def comp_def)

lemma tags_in: "y \<in> set l \<Longrightarrow> (fst y, n_id (snd y)) \<in> set (tags l)"
  by (auto simp: tags_def)

lemma unat_price: "p < 18446744073709551616 \<Longrightarrow> \<exists>p' :: u64. p = unat p'"
  by (rule exI [of _ "of_nat p"]) simp

text \<open>The head of the map is the best price of its side.\<close>

lemma map_head_best:
  assumes rep: "naive_rep nb a" and wf: "awf a" and m: "side_map nb s = (best, l) # m" and q: "a_q a s x \<noteq> []"
  shows "if s then x \<le> unat best else unat best \<le> x"
proof -
  have "x < MAX_PRICES" using awfD(3) [OF wf, of x s] q by force
  then obtain x' :: u64 where x: "x = unat x'" using unat_price [of x] by (auto simp: MAX_PRICES_def)
  have "level_of ((best, l) # m) x' \<noteq> []" using q naive_repD(2) [OF rep, of s x'] by (simp add: x m)
  then have "x' = best \<or> comes_before s best x'"
    using naive_repD(1) [OF rep, of s] by (auto simp: m level_of_def dest!: map_of_SomeD split: option.splits if_splits)
  then show ?thesis by (auto simp: x comes_before_def word_le_nat_alt word_less_nat_alt split: if_splits)
qed

text \<open>Filling the list of one price is the abstract \<open>sweep_level\<close>.\<close>

lemma process_level:
  assumes ref: "naive_refines K (Suc n) nb a" and m: "side_map nb s = (best, l) # m"
    and lvl: "sweep_level a s (unat best) (unat qty) = (a1, r)"
  shows "returns (process_list l qty (total_trades nb) (order_lookup nb)) (\<lambda>(l', qty', t', lk'). unat qty' = r \<and>
    (l' = [] \<longleftrightarrow> a_q a1 s (unat best) = []) \<and>
    naive_refines K (if r = 0 then n else Suc n)
      ((put_side nb s (if l' = [] then m else (best, l') # m))\<lparr>total_trades := t', order_lookup := lk'\<rparr>) a1)"
proof -
  from ref have wf: "awf a" and room: "aroom a" and rep: "naive_rep nb a" and trades: "trade_room K (Suc n) nb a"
    by (simp_all add: naive_refines_def)
  note R = naive_repD [OF rep]
  have l: "level_of (side_map nb s) best = l" by (simp add: m)
  have q: "a_q a s (unat best) = entries_of l" using R(2) [of s best] by (simp add: l)
  have dist: "distinct (map fst (entries_of l))" using awfD(2) [OF wf, of s "unat best"] by (simp add: q)
  obtain ids ys where fill: "fill (entries_of l) (unat qty) = (ids, ys, r)"
    using lvl by (auto simp: sweep_level_def q split: prod.splits)
  then have a1: "a1 = a\<lparr>a_q := upd2 (a_q a) s (unat best) ys,
      a_loc := (\<lambda>i. if i \<in> set ids then None else a_loc a i), a_free := a_free a + length ids,
      a_stale := upd2 (a_stale a) s (unat best) (ys \<noteq> [] \<and> (ids \<noteq> [] \<or> a_stale a s (unat best)))\<rparr>"
    using lvl by (simp add: sweep_level_def q)
  have ids: "map fst (entries_of l) = ids @ map fst ys" by (rule fill_ids [OF fill])
  have fin: "finite (dom (a_loc a))" using room by (simp add: aroom_def)
  have wf1: "awf a1" by (rule sweep_level_awf [OF wf lvl])
  note card = sweep_level_dom(2) [OF wf lvl fin]
  have room1: "aroom a1"
    using sweep_level_dom [OF wf lvl fin] room sweep_level_frame(1) [OF lvl] by (auto simp: aroom_def finite_subset)
  have "fst ` set (entries_of l) \<subseteq> dom (a_loc a)" using awfD(1) [OF wf, of _ s "unat best"] by (auto simp: q)
  then have "card (fst ` set (entries_of l)) \<le> card (dom (a_loc a))" using fin by (rule card_mono [rotated])
  then have len: "length l \<le> card (dom (a_loc a))" using distinct_card [OF dist] by simp
  have run: "returns (process_list l qty (total_trades nb) (order_lookup nb)) (\<lambda>(l', qty', t', lk'). unat qty' = r \<and>
      entries_of l' = ys \<and> tags l' = drop (length ids) (tags l) \<and>
      lk' = (\<lambda>i. if unat i \<in> set ids then None else order_lookup nb i) \<and>
      total_trades nb \<le> t' \<and> t' \<le> total_trades nb + int (length ids) + (if r = 0 then 1 else 0))"
  proof (rule process_list_returns [OF fill dist])
    show "order_lookup nb (n_id (snd x)) \<noteq> None" if "x \<in> set l" for x
      using R(4) [of "(fst x, n_id (snd x))" s best] tags_in [OF that] by (simp add: l)
  qed (use trades len in \<open>simp add: trade_room_def\<close>)
  show ?thesis
  proof (rule returns_mono [OF run], clarify)
    fix l' qty' t' assume l': "tags l' = drop (length ids) (tags l)" and ys: "ys = entries_of l'" and r: "r = unat qty'"
      and t': "total_trades nb \<le> t'" "t' \<le> total_trades nb + int (length ids) + (if unat qty' = 0 then 1 else 0)"
    define lk' where "lk' = (\<lambda>i. if unat i \<in> set ids then None else order_lookup nb i)"
    define m' where "m' = (if l' = [] then m else (best, l') # m)"
    define nb' where "nb' = (put_side nb s m')\<lparr>total_trades := t', order_lookup := lk'\<rparr>"
    have here: "level_of m best = []"
      using R(1) [of s] by (intro level_of_before [of _ s]) (simp add: m)
    have lev: "level_of (side_map nb' s') p = (if s' = s \<and> p = best then l' else level_of (side_map nb s') p)" for s' p
      using here by (auto simp: nb'_def m'_def m)
    have queue: "a_q a1 s' (unat p) = entries_of (level_of (side_map nb' s') p)" for s' p
      using R(2) [of s' p] unsigned_word_eqI [of p best] by (auto simp: lev a1 ys upd2_apply)
    have sub: "x \<in> set (tags (level_of (side_map nb s') p))" if "x \<in> set (tags (level_of (side_map nb' s') p))" for x s' p
      using that set_drop_subset [of "length ids" "tags l"] by (auto simp: lev l l' split: if_splits)
    have "naive_rep nb' a1"
      unfolding naive_rep_def
    proof (intro conjI allI impI)
      show "ordered s' (side_map nb' s')" for s'
        using R(1) [of s'] R(1) [of s] by (cases "s' = s") (auto simp: nb'_def m'_def m)
      show "a_q a1 s' (unat p) = entries_of (level_of (side_map nb' s') p)" for s' p by (rule queue)
      show "distinct (map fst (level_of (side_map nb' s') p))" for s' p
        using R(3) [of s' p] R(3) [of s best] by (simp add: lev tags_fst l' l drop_map [symmetric])
      show "order_lookup nb' oid = None \<longleftrightarrow> a_loc a1 (unat oid) = None" for oid
        using R(5) [of oid] by (simp add: nb'_def lk'_def a1)
      fix s' p x assume x: "x \<in> set (tags (level_of (side_map nb' s') p))"
      note old = R(4) [OF sub [OF x]]
      then show "fst x < next_node nb'" by (simp add: nb'_def)
      have "unat (snd x) \<in> fst ` set (a_q a1 s' (unat p))"
        using x by (force simp: queue tags_def entries_of_def)
      then have "unat (snd x) \<notin> set ids" using awfD(1) [OF wf1, of "unat (snd x)" s' "unat p"] by (auto simp: a1 split: if_splits)
      then show "order_lookup nb' (snd x) = Some \<lparr>loc_price = p, loc_is_buy = s', loc_itr = fst x\<rparr>"
        using old by (simp add: nb'_def lk'_def)
    qed
    moreover have "trade_room K (if r = 0 then n else Suc n) nb' a1"
      using trades t' card by (auto simp: trade_room_def nb'_def r a1)
    ultimately have "naive_refines K (if unat qty' = 0 then n else Suc n) nb' a1"
      using wf1 room1 by (simp add: naive_refines_def r)
    then show "unat qty' = unat qty' \<and> (l' = [] \<longleftrightarrow> a_q a1 s (unat best) = []) \<and>
        naive_refines K (if unat qty' = 0 then n else Suc n)
          ((put_side nb s (if l' = [] then m else (best, l') # m))
            \<lparr>total_trades := t', order_lookup := \<lambda>i. if unat i \<in> set ids then None else order_lookup nb i\<rparr>) a1"
      by (simp add: nb'_def m'_def lk'_def a1 ys)
  qed
qed

section \<open>Matching\<close>

lemma naive_refines_less: "naive_refines K (Suc n) nb a \<Longrightarrow> naive_refines K n nb a"
  by (auto simp: naive_refines_def trade_room_def)

lemma naive_match_refines:
  assumes "naive_refines K (Suc n) nb a" and "spec_match a (unat price) (unat qty) b = (a', r)"
  shows "returns (naive_match nb price qty b) (\<lambda>(nb', left). unat left = r \<and>
    naive_refines K (if r = 0 then n else Suc n) nb' a')"
  using assms
proof (induction "length (side_map nb (\<not> b))" arbitrary: nb a qty rule: less_induct)
  case less
  from less.prems(1) have wf: "awf a" and rep: "naive_rep nb a" by (simp_all add: naive_refines_def)
  have ends: ?case if "naive_match nb price qty b = ret (nb, qty)" "spec_match a (unat price) (unat qty) b = (a, unat qty)"
    using that less.prems naive_refines_less [OF less.prems(1)] by auto
  show ?case
  proof (cases "qty = 0")
    case True
    then show ?thesis using wf by (intro ends) (subst naive_match.simps, auto intro: spec_match_none)
  next
    case pos: False
    then have gt: "0 < qty" by (simp add: word_neq_0_conv)
    show ?thesis
    proof (cases "side_map nb (\<not> b)")
      case Nil
      have "a_q a (\<not> b) p = []" for p
      proof (cases "p < MAX_PRICES")
        case True
        then obtain p' :: u64 where "p = unat p'" using unat_price [of p] by (auto simp: MAX_PRICES_def)
        then show ?thesis using naive_repD(2) [OF rep, of "\<not> b" p'] by (simp add: Nil)
      qed (use awfD(3) [OF wf] in simp)
      then show ?thesis using wf Nil gt by (intro ends) (subst naive_match.simps, auto intro: spec_match_none)
    next
      case (Cons x m)
      then obtain best l where m: "side_map nb (\<not> b) = (best, l) # m" by (cases x) auto
      note best = map_head_best [OF rep wf m]
      show ?thesis
      proof (cases "does_not_cross b price best")
        case True
        have "a_q a (\<not> b) p = []" if "if b then p \<le> unat price else unat price \<le> p" for p
          using best [of p] True that
          by (cases b) (auto simp: does_not_cross_def word_less_nat_alt)
        then show ?thesis using wf m gt True by (intro ends) (subst naive_match.simps, auto intro: spec_match_none)
      next
        case cross: False
        obtain a1 r1 where lvl: "sweep_level a (\<not> b) (unat best) (unat qty) = (a1, r1)" by fastforce
        have same: "spec_match a (unat price) (unat qty) b = spec_match a1 (unat price) r1 b"
        proof (cases "a_q a (\<not> b) (unat best) = []")
          case True
          then show ?thesis using sweep_level_idle [OF wf, of "unat qty" "\<not> b" "unat best"] lvl by simp
        next
          case False
          then have "unat best < MAX_PRICES" using awfD(3) [OF wf] by (metis not_le)
          then have "unat best \<in> set (crossing b (unat price))"
            using cross by (cases b) (auto simp: set_crossing does_not_cross_def word_le_nat_alt not_less)
          then show ?thesis
            by (rule spec_match_best [OF wf _ _ lvl]) (use best in \<open>cases b; auto\<close>)
        qed
        obtain l' qty1 t1 lk1 where run: "process_list l qty (total_trades nb) (order_lookup nb) = ret (l', qty1, t1, lk1)"
          and r1: "unat qty1 = r1" and empty: "l' = [] \<longleftrightarrow> a_q a1 (\<not> b) (unat best) = []"
          and ref1: "naive_refines K (if r1 = 0 then n else Suc n)
            ((put_side nb (\<not> b) (if l' = [] then m else (best, l') # m))\<lparr>total_trades := t1, order_lookup := lk1\<rparr>) a1"
          using process_level [OF less.prems(1) m lvl] by (auto simp: returns_def)
        define nb1 where "nb1 = (put_side nb (\<not> b) (if l' = [] then m else (best, l') # m))
          \<lparr>total_trades := t1, order_lookup := lk1\<rparr>"
        have step: "naive_match nb price qty b = naive_match nb1 price qty1 b"
          using gt cross run by (subst naive_match.simps) (simp add: m nb1_def)
        show ?thesis
        proof (cases "r1 = 0")
          case True
          then have "qty1 = 0" using r1 by (simp add: unat_eq_0)
          then have "naive_match nb1 price qty1 b = ret (nb1, 0)" by (subst naive_match.simps) simp
          moreover have "spec_match a1 (unat price) r1 b = (a1, 0)"
            using True ref1 by (auto simp: naive_refines_def intro: spec_match_none)
          ultimately show ?thesis using less.prems(2) same ref1 True by (simp add: step nb1_def)
        next
          case False
          with sweep_level_left [OF lvl] empty have "l' = []" by simp
          then have "length (side_map nb1 (\<not> b)) < length (side_map nb (\<not> b))" by (simp add: nb1_def m)
          then show ?thesis
            unfolding step
            by (rule less.hyps) (use ref1 False less.prems(2) same r1 in \<open>simp_all add: nb1_def\<close>)
        qed
      qed
    qed
  qed
qed

section \<open>Adding and cancelling\<close>

text \<open>The map book has no capacity; the abstract book has to have a slot and the price a place.\<close>

definition naive_submit_ok :: submit_cond where
  "naive_submit_ok a oid price q s \<longleftrightarrow> submit_ok a oid price q s \<and> (case spec_match a price q s of (a', q') \<Rightarrow>
     q' = 0 \<or> (0 < a_free a' \<and> price < MAX_PRICES))"

lemma naive_insert_refines:
  assumes ref: "naive_refines K (Suc n) nb a" and ok: "can_add a (unat oid)" "0 < a_free a" "unat price < MAX_PRICES"
    and nd: "nd = next_node nb"
  shows "naive_refines K n ((put_side nb b (at_price b price (\<lambda>l. l @ [(nd, \<lparr>n_id = oid, n_price = price, n_qty = left, n_is_buy = b\<rparr>)])
      (side_map nb b)))\<lparr>order_lookup := (order_lookup nb)(oid \<mapsto> \<lparr>loc_price = price, loc_is_buy = b, loc_itr = nd\<rparr>),
      next_node := nd + 1\<rparr>) (spec_add a (unat oid) (unat price) (unat left) b)"
    (is "naive_refines K n ?nb ?a")
proof -
  from ref have wf: "awf a" and room: "aroom a" and rep: "naive_rep nb a" and trades: "trade_room K (Suc n) nb a"
    by (simp_all add: naive_refines_def)
  note R = naive_repD [OF rep]
  have loc: "a_loc a (unat oid) = None" using ok by (simp add: can_add_def)
  have add: "?a = a\<lparr>a_free := a_free a - 1, a_known := insert (unat oid) (a_known a),
      a_q := upd2 (a_q a) b (unat price) (a_q a b (unat price) @ [(unat oid, unat left)]),
      a_loc := (a_loc a)(unat oid \<mapsto> (b, unat price))\<rparr>" using ok by (simp add: spec_add_def)
  have new: "n_id (snd x) \<noteq> oid" if "x \<in> set (level_of (side_map nb s) p)" for x s p
    using R(4) [OF tags_in [OF that]] R(5) [of oid] loc by auto
  have lev: "level_of (side_map ?nb s) p = (if s = b \<and> p = price then
      level_of (side_map nb s) p @ [(nd, \<lparr>n_id = oid, n_price = price, n_qty = left, n_is_buy = b\<rparr>)]
      else level_of (side_map nb s) p)" for s p
    using level_of_at_price [OF R(1) [of b]] by auto
  have "naive_rep ?nb ?a"
    unfolding naive_rep_def
  proof (intro conjI allI impI)
    show "ordered s (side_map ?nb s)" for s
      using R(1) [of s] at_price_ordered [OF R(1) [of b]] by (cases "s = b") auto
    show "a_q ?a s (unat p) = entries_of (level_of (side_map ?nb s) p)" for s p
      using R(2) [of s p] unsigned_word_eqI [of p price] unfolding lev add by (auto simp: upd2_apply)
    show "distinct (map fst (level_of (side_map ?nb s) p))" for s p
      using R(3) [of s p] R(4) [OF tags_in, of _ s p] unfolding lev by (force simp: nd)
    show "order_lookup ?nb oid' = None \<longleftrightarrow> a_loc ?a (unat oid') = None" for oid'
      using R(5) [of oid'] unsigned_word_eqI [of oid' oid] unfolding add by auto
    fix s p x assume x: "x \<in> set (tags (level_of (side_map ?nb s) p))"
    then have cases: "x \<in> set (tags (level_of (side_map nb s) p)) \<or> (s = b \<and> p = price \<and> x = (nd, oid))"
      unfolding lev by (auto split: if_splits)
    have "snd x \<noteq> oid" if "x \<in> set (tags (level_of (side_map nb s) p))" using that by (force simp: tags_def dest: new)
    with cases R(4) [of x s p] show "fst x < next_node ?nb"
      and "order_lookup ?nb (snd x) = Some \<lparr>loc_price = p, loc_is_buy = s, loc_itr = fst x\<rparr>"
      by (auto simp: nd)
  qed
  moreover have "trade_room K n ?nb ?a"
  proof -
    have "card (insert (unat oid) (dom (a_loc a))) = Suc (card (dom (a_loc a)))"
      using room loc by (simp add: aroom_def domIff)
    then show ?thesis using trades by (simp add: trade_room_def add)
  qed
  ultimately show ?thesis
    using can_add_awf [OF wf ok(1)] spec_add_aroom [OF room] by (simp add: naive_refines_def)
qed

theorem naive_add_order_refines:
  assumes ref: "naive_refines K (Suc n) nb a" and ok: "naive_submit_ok a (unat oid) (unat price) (unat qty) b"
  shows "returns (naive_add_order nb oid price qty b) (\<lambda>nb'.
    naive_refines K n nb' (spec_submit a (unat oid) (unat price) (unat qty) b))"
proof -
  obtain a1 r where sp: "spec_match a (unat price) (unat qty) b = (a1, r)" by fastforce
  obtain nb1 left where run: "naive_match nb price qty b = ret (nb1, left)" and r: "r = unat left"
    and ref1: "naive_refines K (if r = 0 then n else Suc n) nb1 a1"
    using naive_match_refines [OF ref sp] by (auto simp: returns_def)
  show ?thesis
  proof (cases "left = 0")
    case True
    then show ?thesis using ref1 by (simp add: naive_add_order_def run spec_submit_def sp r)
  next
    case False
    then have pos: "0 < left" "0 < unat left" by (simp_all add: word_neq_0_conv unat_gt_0)
    have "naive_refines K (Suc n) nb1 a1" using ref1 pos r by simp
    moreover have "can_add a1 (unat oid)" "0 < a_free a1" "unat price < MAX_PRICES"
      using ok pos by (auto simp: naive_submit_ok_def submit_ok_def sp r)
    ultimately show ?thesis
      using naive_insert_refines [OF _ _ _ _ refl] pos
      by (simp add: naive_add_order_def run spec_submit_def sp r Let_def)
  qed
qed

text \<open>Erasing the node of an order is dropping its id from the queue.\<close>

lemma entries_of_erase:
  assumes "distinct (map fst l)" and "distinct (map fst (entries_of l))" and "x \<in> set l"
  shows "entries_of (filter (\<lambda>y. fst y \<noteq> fst x) l) = drop_id (unat (n_id (snd x))) (entries_of l)"
proof -
  have "fst y \<noteq> fst x \<longleftrightarrow> unat (n_id (snd y)) \<noteq> unat (n_id (snd x))" if y: "y \<in> set l" for y
  proof
    assume "fst y \<noteq> fst x"
    then have "y \<noteq> x" by auto
    moreover have "inj_on (\<lambda>z. unat (n_id (snd z))) (set l)"
      using assms(2) by (simp add: entries_of_def comp_def distinct_map)
    ultimately show "unat (n_id (snd y)) \<noteq> unat (n_id (snd x))" using y assms(3) by (auto dest: inj_onD)
  next
    have inj: "inj_on fst (set l)" using assms(1) by (simp add: distinct_map)
    assume "unat (n_id (snd y)) \<noteq> unat (n_id (snd x))"
    then show "fst y \<noteq> fst x" using inj_onD [OF inj _ y assms(3)] by auto
  qed
  then show ?thesis
    by (simp add: entries_of_def drop_id_def filter_map comp_def cong: filter_cong)
qed

theorem naive_cancel_order_refines:
  assumes ref: "naive_refines K n nb a"
  shows "returns (naive_cancel_order nb oid) (\<lambda>nb'. naive_refines K n nb' (spec_cancel a (unat oid)))"
proof -
  from ref have wf: "awf a" and room: "aroom a" and rep: "naive_rep nb a" and trades: "trade_room K n nb a"
    by (simp_all add: naive_refines_def)
  note R = naive_repD [OF rep]
  show ?thesis
  proof (cases "a_loc a (unat oid)")
    case None
    then have "order_lookup nb oid = None" using R(5) by simp
    then show ?thesis using ref None by (simp add: naive_cancel_order_def spec_cancel_def)
  next
    case (Some sp)
    then obtain s q where loc: "a_loc a (unat oid) = Some (s, q)" by (cases sp) auto
    then have mem: "unat oid \<in> fst ` set (a_q a s q)" using awfD(1) [OF wf] by blast
    then have "q < MAX_PRICES" using awfD(3) [OF wf, of q s] by (metis empty_iff image_empty list.set(1) not_le)
    then obtain p :: u64 where p: "q = unat p" using unat_price [of q] by (auto simp: MAX_PRICES_def)
    let ?l = "level_of (side_map nb s) p"
    from mem obtain x where "x \<in> set ?l" "unat (n_id (snd x)) = unat oid"
      by (auto simp: p R(2) entries_of_def)
    then have x: "x \<in> set ?l" "n_id (snd x) = oid" using unsigned_word_eqI by blast+
    have lk: "order_lookup nb oid = Some \<lparr>loc_price = p, loc_is_buy = s, loc_itr = fst x\<rparr>"
      using R(4) [OF tags_in [OF x(1)]] x(2) by simp
    have found: "map_of (side_map nb s) p = Some ?l"
      using x(1) by (cases "map_of (side_map nb s) p") (auto simp: level_of_def)
    define nb' where "nb' = (put_side nb s (at_price s p (filter (\<lambda>y. fst y \<noteq> fst x)) (side_map nb s)))
      \<lparr>order_lookup := (order_lookup nb)(oid := None)\<rparr>"
    have run: "naive_cancel_order nb oid = ret nb'"
      using x(1) by (auto simp: naive_cancel_order_def lk found nb'_def)
    let ?a = "spec_cancel a (unat oid)"
    have a': "?a = (spec_unlink a (unat oid) s q)\<lparr>a_free := Suc (a_free a)\<rparr>" by (simp add: spec_cancel_def loc)
    have lev: "level_of (side_map nb' s') p' = (if s' = s \<and> p' = p then filter (\<lambda>y. fst y \<noteq> fst x) ?l
        else level_of (side_map nb s') p')" for s' p'
      using level_of_at_price [OF R(1) [of s]] by (auto simp: nb'_def)
    have dist: "distinct (map fst (entries_of ?l))" using awfD(2) [OF wf, of s "unat p"] by (simp add: R(2))
    have wf': "awf ?a" by (rule spec_cancel_awf [OF wf])
    have queue: "a_q ?a s' (unat p') = entries_of (level_of (side_map nb' s') p')" for s' p'
      using R(2) [of s' p'] unsigned_word_eqI [of p' p] entries_of_erase [OF R(3) dist x(1)]
      by (auto simp: lev a' spec_unlink_def upd2_apply p R(2) x(2))
    have "naive_rep nb' ?a"
      unfolding naive_rep_def
    proof (intro conjI allI impI)
      show "ordered s' (side_map nb' s')" for s'
        using R(1) [of s'] at_price_ordered [OF R(1) [of s]] by (cases "s' = s") (auto simp: nb'_def)
      show "a_q ?a s' (unat p') = entries_of (level_of (side_map nb' s') p')" for s' p' by (rule queue)
      show "distinct (map fst (level_of (side_map nb' s') p'))" for s' p'
        using R(3) [of s' p'] by (auto simp: lev distinct_map_filter)
      show "order_lookup nb' oid' = None \<longleftrightarrow> a_loc ?a (unat oid') = None" for oid'
        using R(5) [of oid'] unsigned_word_eqI [of oid' oid] by (auto simp: nb'_def a' spec_unlink_def)
      fix s' p' y assume y: "y \<in> set (tags (level_of (side_map nb' s') p'))"
      then have old: "y \<in> set (tags (level_of (side_map nb s') p'))" by (auto simp: lev tags_def split: if_splits)
      have "unat (snd y) \<in> fst ` set (a_q ?a s' (unat p'))" using y by (force simp: queue tags_def entries_of_def)
      then have "snd y \<noteq> oid" using awfD(1) [OF wf', of "unat (snd y)" s' "unat p'"] by (auto simp: a' spec_unlink_def)
      then show "fst y < next_node nb'"
        and "order_lookup nb' (snd y) = Some \<lparr>loc_price = p', loc_is_buy = s', loc_itr = fst y\<rparr>"
        using R(4) [OF old] by (simp_all add: nb'_def)
    qed
    moreover have "trade_room K n nb' ?a"
    proof -
      have "card (dom (a_loc ?a)) \<le> card (dom (a_loc a))"
        using room by (intro card_mono) (auto simp: aroom_def a' spec_unlink_def)
      then show ?thesis using trades by (simp add: trade_room_def nb'_def)
    qed
    ultimately show ?thesis
      using wf' spec_cancel_aroom [OF wf room] by (simp add: run naive_refines_def)
  qed
qed

section \<open>Runs, and the array book beside it\<close>

fun naive_command :: "command \<Rightarrow> naive_book \<Rightarrow> naive_book exec" where
  "naive_command (Submit oid price qty is_buy) nb = naive_add_order nb oid price qty is_buy"
| "naive_command (Cancel oid) nb = naive_cancel_order nb oid"

interpretation naive_if: command_book naive_command "naive_refines K" naive_submit_ok
proof unfold_locales
  show "awf a \<and> aroom a" if "naive_refines K n b a" for n b a
    using that by (simp add: naive_refines_def)
  show "returns (naive_command c b) (\<lambda>b'. naive_refines K n b' (spec_command c a))"
    if "naive_refines K (Suc n) b a" "command_ok naive_submit_ok c a" for n b a c
    using that naive_add_order_refines naive_cancel_order_refines [OF naive_refines_less] by (cases c) auto
qed

lemma naive_new_refines:
  assumes "int n \<le> K" and "K \<le> 2147483647"
  shows "naive_refines K n naive_new (spec_init cap)"
proof -
  have "side_map naive_new s = []" for s by (simp add: side_map_def naive_new_def)
  then have "naive_rep naive_new (spec_init cap)"
    by (simp add: naive_rep_def) (simp add: naive_new_def spec_init_def)
  then show ?thesis
    using assms spec_init_awf spec_init_aroom by (simp add: naive_refines_def trade_room_def naive_new_def spec_init_def)
qed

text \<open>No order of quantity 0 ever rests.\<close>

definition positive :: "abook \<Rightarrow> bool" where
  "positive a \<longleftrightarrow> (\<forall>s p i q. (i, q) \<in> set (a_q a s p) \<longrightarrow> 0 < q)"

lemma fill_positive:
  "fill xs q = (is, ys, q') \<Longrightarrow> \<forall>i k. (i, k) \<in> set xs \<longrightarrow> 0 < k \<Longrightarrow> (i, k) \<in> set ys \<Longrightarrow> 0 < k"
proof (induction xs q arbitrary: "is" ys q' rule: fill.induct)
  case (2 j r xs k)
  then show ?case by (fastforce split: if_splits prod.splits)
qed simp

lemma sweep_positive: "positive a \<Longrightarrow> sweep a s ps q = (a', q') \<Longrightarrow> positive a'"
proof (induction ps arbitrary: a q)
  case (Cons p ps)
  obtain "is" ys q1 where f: "fill (a_q a s p) q = (is, ys, q1)" by (metis prod_cases3)
  have pos: "\<forall>i k. (i, k) \<in> set (a_q a s p) \<longrightarrow> 0 < k" using Cons.prems(1) by (simp add: positive_def)
  have ys: "0 < k" if "(i, k) \<in> set ys" for i k using fill_positive [OF f pos that] .
  obtain a1 q2 where lvl: "sweep_level a s p q = (a1, q2)" by fastforce
  have "positive a1"
    using lvl Cons.prems(1) ys by (auto simp: sweep_level_def f positive_def upd2_apply split: if_splits)
  then show ?case using Cons lvl by simp
qed simp

lemma spec_command_positive: "positive a \<Longrightarrow> positive (spec_command c a)"
proof (cases c)
  case (Submit oid price qty s)
  assume pos: "positive a"
  obtain a1 q1 where m: "spec_match a (unat price) (unat qty) s = (a1, q1)" by fastforce
  then have "positive a1" using pos unfolding spec_match_def by (rule sweep_positive [rotated])
  then show ?thesis by (auto simp: Submit spec_submit_def m spec_add_def positive_def upd2_apply)
next
  case (Cancel oid)
  assume "positive a"
  then show ?thesis
    by (auto simp: Cancel spec_cancel_def spec_unlink_def positive_def upd2_apply drop_id_def split: option.splits if_splits)
qed

lemma spec_commands_positive: "positive a \<Longrightarrow> positive (spec_commands cs a)"
  by (induction cs arbitrary: a) (auto intro: spec_command_positive)

lemma resting_positive:
  assumes "awf a" and "positive a"
  shows "a_loc a i = None \<longleftrightarrow> spec_get_quantity a i = 0"
proof (cases "a_loc a i")
  case (Some sp)
  then obtain s p where sp: "a_loc a i = Some (s, p)" by (cases sp) auto
  then have "i \<in> fst ` set (a_q a s p)" using awfD(1) [OF assms(1)] by blast
  then obtain q where q: "map_of (a_q a s p) i = Some q" by (metis map_of_eq_None_iff not_None_eq)
  have "0 < q" using assms(2) map_of_SomeD [OF q] unfolding positive_def by blast
  then show ?thesis by (simp add: spec_get_quantity_def sp q)
qed (simp add: spec_get_quantity_def)

lemma naive_refines_orders:
  assumes "naive_refines K 0 nb (spec_commands cs (spec_init cap))"
  shows "naive_rep nb (spec_commands cs (spec_init cap)) \<and>
    (\<forall>oid. has_order nb oid \<longleftrightarrow> spec_get_quantity (spec_commands cs (spec_init cap)) (unat oid) \<noteq> 0) \<and>
    0 \<le> total_trades nb \<and> total_trades nb \<le> K"
proof -
  have "positive (spec_init cap)" by (simp add: positive_def spec_init_def)
  then have "positive (spec_commands cs (spec_init cap))" by (rule spec_commands_positive)
  then have "has_order nb oid \<longleftrightarrow> spec_get_quantity (spec_commands cs (spec_init cap)) (unat oid) \<noteq> 0" for oid
    using assms naive_repD(5) [of nb "spec_commands cs (spec_init cap)" oid]
      resting_positive [of "spec_commands cs (spec_init cap)" "unat oid"]
    by (auto simp: naive_refines_def has_order_def)
  with assms show ?thesis by (simp add: naive_refines_def trade_room_def)
qed

text \<open>
  What the map book itself needs of its commands: an order with quantity left has an id that does not
  rest and a price on the ladder.  It has no pool and knows every id, so the abstract book beside it
  has as many slots as there are ids, and cancels need nothing.
\<close>

definition unlimited :: abook where
  "unlimited = spec_init 18446744073709551616"

fun map_commands_ok :: "command list \<Rightarrow> abook \<Rightarrow> bool" where
  "map_commands_ok [] a = True"
| "map_commands_ok (Submit oid price qty is_buy # cs) a =
     ((case spec_match a (unat price) (unat qty) is_buy of (a', left) \<Rightarrow>
         left = 0 \<or> (a_loc a' (unat oid) = None \<and> unat price < MAX_PRICES)) \<and>
      map_commands_ok cs (spec_command (Submit oid price qty is_buy) a))"
| "map_commands_ok (Cancel oid # cs) a = map_commands_ok cs (spec_command (Cancel oid) a)"

lemma spec_match_room: "spec_match a p q s = (a', q') \<Longrightarrow> a_free a \<le> a_free a' \<and> a_cap a' = a_cap a"
  using sweep_is_fill [OF distinct_crossing, of a "\<not> s"] sweep_frame(1) unfolding spec_match_def by fastforce

lemma naive_run_unlimited:
  "naive_refines K (length cs + n) nb a \<Longrightarrow> map_commands_ok cs a \<Longrightarrow> a_cap a = 18446744073709551616 \<Longrightarrow>
    length cs \<le> a_free a \<Longrightarrow> returns (run_with naive_command cs nb) (\<lambda>nb'. naive_refines K n nb' (spec_commands cs a))"
proof (induction cs arbitrary: nb a)
  case (Cons c cs)
  have "returns (naive_command c nb) (\<lambda>nb'. naive_refines K (length cs + n) nb' (spec_command c a)) \<and>
    map_commands_ok cs (spec_command c a) \<and> a_cap (spec_command c a) = a_cap a \<and> a_free a \<le> Suc (a_free (spec_command c a))"
  proof (cases c)
    case (Submit oid p q s)
    obtain a' left where m: "spec_match a (unat p) (unat q) s = (a', left)" by fastforce
    note room = spec_match_room [OF m]
    have "unat oid < a_cap a'" using unat_u64_less [of oid] room Cons.prems(3) by simp
    then have "naive_submit_ok a (unat oid) (unat p) (unat q) s"
      using Cons.prems(2,4) room by (auto simp: Submit m naive_submit_ok_def submit_ok_def can_add_def)
    then have "returns (naive_command c nb) (\<lambda>nb'. naive_refines K (length cs + n) nb' (spec_command c a))"
      using naive_add_order_refines Cons.prems(1) by (simp add: Submit)
    moreover have "a_cap (spec_command c a) = a_cap a \<and> a_free a \<le> Suc (a_free (spec_command c a))"
      using room by (auto simp: Submit m spec_submit_def spec_add_def)
    ultimately show ?thesis using Cons.prems(2) by (simp add: Submit)
  next
    case (Cancel oid)
    with Cons.prems(1,2) show ?thesis
      using naive_cancel_order_refines [OF naive_refines_less]
      by (auto simp: spec_cancel_def spec_unlink_def split: option.splits)
  qed
  with Cons.prems(3,4) show ?case by (auto elim!: returns_ebindI intro!: Cons.IH)
qed simp

lemma naive_run_returns:
  assumes "map_commands_ok cs unlimited" and "length cs \<le> 2147483647"
  shows "returns (run_with naive_command cs naive_new) (\<lambda>nb. naive_rep nb (spec_commands cs unlimited) \<and>
    (\<forall>oid. has_order nb oid \<longleftrightarrow> spec_get_quantity (spec_commands cs unlimited) (unat oid) \<noteq> 0) \<and>
    0 \<le> total_trades nb \<and> total_trades nb \<le> int (length cs))"
proof -
  have "naive_refines (int (length cs)) (length cs + 0) naive_new unlimited"
    unfolding unlimited_def using assms(2) by (intro naive_new_refines) auto
  moreover have "a_cap unlimited = 18446744073709551616" "length cs \<le> a_free unlimited"
    using assms(2) by (simp_all add: unlimited_def spec_init_def)
  ultimately have "returns (run_with naive_command cs naive_new)
      (\<lambda>nb. naive_refines (int (length cs)) 0 nb (spec_commands cs unlimited))"
    using naive_run_unlimited [OF _ assms(1)] by blast
  then show ?thesis by (rule returns_mono) (auto simp: unlimited_def dest: naive_refines_orders)
qed

lemma naive_ok_submit_ok: "naive_submit_ok a oid price q s \<Longrightarrow> submit_ok a oid price q s"
  by (simp add: naive_submit_ok_def)

lemma naive_bitset_agree:
  assumes "array_shaped b" and "0 < n" and "n \<le> 4294967295"
    and ok: "commands_ok naive_submit_ok cs (spec_init n)" and "length cs \<le> 2147483647"
    and "known_id (spec_commands cs (spec_init n)) (unat oid)"
  shows "\<exists>nb q. run_with naive_command cs naive_new = ret nb \<and>
    ebind (ebind (init b n) (run_commands bitset_ops cs)) (\<lambda>b'. get_quantity b' oid) = ret q \<and>
    (has_order nb oid \<longleftrightarrow> q \<noteq> 0)"
proof -
  have "commands_ok submit_ok cs (spec_init n)"
    using ok by (rule commands_ok_mono [rotated]) (rule naive_ok_submit_ok)
  from bitset_if.run_then_quantity [OF assms(1-3) this assms(6)] obtain q where
    q: "ebind (ebind (init b n) (run_commands bitset_ops cs)) (\<lambda>b'. get_quantity b' oid) = ret q"
      "unat q = spec_get_quantity (spec_commands cs (spec_init n)) (unat oid)"
    by (auto simp: returns_def bitset_ops_def)
  have "naive_refines (int (length cs)) (length cs + 0) naive_new (spec_init n)"
    using assms(5) by (intro naive_new_refines) auto
  from naive_if.run_law [OF this ok] obtain nb where "run_with naive_command cs naive_new = ret nb"
    "naive_refines (int (length cs)) 0 nb (spec_commands cs (spec_init n))"
    by (auto simp: returns_def)
  then have nb: "run_with naive_command cs naive_new = ret nb" "has_order nb oid \<longleftrightarrow> unat q \<noteq> 0"
    using naive_refines_orders unfolding q(2) by blast+
  then show ?thesis using q(1) unat_eq_0 by metis
qed

end
