(* ===== verification/Sample_Books.thy ===== *)
theory Sample_Books
  imports Simple_Book
begin

text \<open>
  Concrete books to apply the theorems to: the book an \<open>init\<close> on zeroed memory gives, and the
  book after a run of commands from it.  The sample holds three asks, two of them at one
  price.
\<close>

section \<open>Books after a run\<close>

definition blank_levels :: "PriceLevel list" where
  "blank_levels = replicate MAX_PRICES \<lparr>lv_head = 0, lv_tail = 0\<rparr>"

definition blank_bitset :: bitset_book where
  "blank_bitset = \<lparr>orders = [], bid_levels = blank_levels, ask_levels = blank_levels, id_map = [],
     next_free_order_idx = 0, bid_index = bs_new, ask_index = bs_new\<rparr>"

definition blank_fast :: fast_book where
  "blank_fast = \<lparr>orders = [], bid_levels = blank_levels, ask_levels = blank_levels, id_map = [],
     next_free_order_idx = 0\<rparr>"

definition result_or :: "'a \<Rightarrow> 'a exec \<Rightarrow> 'a" where
  "result_or d m = (case m of Some (Inr x) \<Rightarrow> x | _ \<Rightarrow> d)"

definition bitset_after :: "nat \<Rightarrow> command list \<Rightarrow> bitset_book" where
  "bitset_after n cs = result_or blank_bitset (ebind (init blank_bitset n) (run_commands bitset_ops cs))"

definition fast_after :: "nat \<Rightarrow> command list \<Rightarrow> fast_book" where
  "fast_after n cs = result_or blank_fast (ebind (fast_init blank_fast n) (run_commands fast_ops cs))"

lemma returns_result_or: "returns m P \<Longrightarrow> P (result_or d m)"
  by (auto simp: returns_def result_or_def)

lemma blank_shaped [simp]: "array_shaped blank_bitset" "array_shaped blank_fast"
  by (simp_all add: array_shaped_def blank_bitset_def blank_fast_def blank_levels_def)

lemma bitset_after_refines:
  assumes "0 < n" and "n \<le> 4294967295" and "commands_ok submit_ok cs (spec_init n)"
  shows "bitset_refines (bitset_after n cs) (spec_commands cs (spec_init n))"
  using returns_result_or [OF bitset_if.run_from_init [OF blank_shaped(1) assms]]
  by (simp add: bitset_after_def bitset_ops_def)

lemma fast_after_refines:
  assumes "0 < n" and "n \<le> 4294967295" and "commands_ok fast_submit_ok cs (spec_init n)"
  shows "refines (fast_after n cs) (spec_commands cs (spec_init n))"
  using returns_result_or [OF fast_if.run_from_init [OF blank_shaped(2) assms]]
  by (simp add: fast_after_def fast_ops_def)

section \<open>Three asks\<close>

definition sample_commands :: "command list" where
  "sample_commands = [Submit 0 2 5 False, Submit 1 2 7 False, Submit 2 3 4 False]"

definition sample_asks :: abook where
  "sample_asks = spec_add (spec_add (spec_add (spec_init 5) 0 2 5 False) 1 2 7 False) 2 3 4 False"

lemma sample_length: "length sample_commands = 3"
  by (simp add: sample_commands_def)

text \<open>A submit that meets an empty other side.\<close>

lemma rest_submit:
  assumes "awf a" and "\<And>p. a_q a (\<not> s) p = []" and "can_add a oid" and "0 < q"
  shows "submit_ok a oid p q s" and "spec_submit a oid p q s = spec_add a oid p q s"
    and "awf (spec_add a oid p q s)"
proof -
  have m: "spec_match a p q s = (a, q)" using assms(1,2) by (intro spec_match_none) auto
  then show "submit_ok a oid p q s" "spec_submit a oid p q s = spec_add a oid p q s"
    using assms(3,4) by (simp_all add: submit_ok_def spec_submit_def)
  show "awf (spec_add a oid p q s)" by (rule can_add_awf [OF assms(1,3)])
qed

lemma rest_naive_ok:
  assumes "awf a" and "\<And>p. a_q a (\<not> s) p = []" and "can_add a oid" and "0 < q" and "0 < a_free a" and "p < MAX_PRICES"
  shows "naive_submit_ok a oid p q s"
proof -
  have "spec_match a p q s = (a, q)" using assms(1,2) by (intro spec_match_none) auto
  then show ?thesis using rest_submit(1) [OF assms(1-4)] assms(5,6) by (simp add: naive_submit_ok_def)
qed

lemmas sample_simps = spec_add_def spec_init_def MAX_PRICES_def upd2_apply can_add_def

lemma sample_steps:
  defines "a1 \<equiv> spec_add (spec_init 5) 0 2 5 False"
  defines "a2 \<equiv> spec_add a1 1 2 7 False"
  shows "submit_ok (spec_init 5) 0 2 5 False" "spec_submit (spec_init 5) 0 2 5 False = a1"
    "submit_ok a1 1 2 7 False" "spec_submit a1 1 2 7 False = a2"
    "submit_ok a2 2 3 4 False" "spec_submit a2 2 3 4 False = sample_asks" "awf sample_asks"
proof -
  have "sample_asks = spec_add a2 2 3 4 False" by (simp add: sample_asks_def a1_def a2_def)
  moreover have q: "a_q (spec_init 5) True p = []" "a_q a1 True p = []" "a_q a2 True p = []" for p
    by (simp_all add: a1_def a2_def sample_simps)
  moreover have c: "can_add (spec_init 5) 0" "can_add a1 1" "can_add a2 2"
    by (simp_all add: a1_def a2_def sample_simps)
  moreover note r1 = rest_submit [OF spec_init_awf, of 5 False 0 5 2, folded a1_def]
  moreover note r2 = rest_submit [of a1 False 1 7 2, folded a2_def]
  moreover note r3 = rest_submit [of a2 False 2 4 3]
  ultimately show "submit_ok (spec_init 5) 0 2 5 False" "spec_submit (spec_init 5) 0 2 5 False = a1"
    "submit_ok a1 1 2 7 False" "spec_submit a1 1 2 7 False = a2"
    "submit_ok a2 2 3 4 False" "spec_submit a2 2 3 4 False = sample_asks" "awf sample_asks"
    by simp_all
qed

lemma sample_ok: "commands_ok submit_ok sample_commands (spec_init 5)"
  and sample_result: "spec_commands sample_commands (spec_init 5) = sample_asks"
  using sample_steps by (simp_all add: sample_commands_def)

lemma sample_naive_ok: "commands_ok naive_submit_ok sample_commands (spec_init 5)"
proof -
  define a1 where "a1 = spec_add (spec_init 5) 0 2 5 False"
  define a2 where "a2 = spec_add a1 1 2 7 False"
  note [simp] = a1_def a2_def sample_simps
  have wf: "awf a1" "awf a2"
    unfolding a1_def a2_def by (intro can_add_awf spec_init_awf; simp)+
  have "naive_submit_ok (spec_init 5) 0 2 5 False" by (rule rest_naive_ok [OF spec_init_awf]) simp_all
  moreover have "naive_submit_ok a1 1 2 7 False" by (rule rest_naive_ok [OF wf(1)]) simp_all
  moreover have "naive_submit_ok a2 2 3 4 False" by (rule rest_naive_ok [OF wf(2)]) simp_all
  ultimately show ?thesis using sample_steps by (simp add: sample_commands_def del: sample_simps)
qed

text \<open>For the map book: two asks, cancels of the first and of an id never used.\<close>

definition map_commands :: "command list" where
  "map_commands = [Submit 1 2 5 False, Submit 2 2 7 False, Cancel 1, Cancel 999]"

lemma map_commands_run:
  "map_commands_ok map_commands unlimited" "spec_get_quantity (spec_commands map_commands unlimited) 1 = 0"
  "spec_get_quantity (spec_commands map_commands unlimited) 2 = 7"
proof -
  define a1 where "a1 = spec_add unlimited 1 2 5 False"
  define a2 where "a2 = spec_add a1 2 2 7 False"
  note [simp] = a1_def a2_def sample_simps unlimited_def
  have "awf a1" unfolding a1_def unlimited_def by (intro can_add_awf spec_init_awf; simp)
  then have m: "spec_match unlimited 2 5 False = (unlimited, 5)" "spec_match a1 2 7 False = (a1, 7)"
    using spec_init_awf by (intro spec_match_none; simp add: unlimited_def)+
  then have s: "spec_submit unlimited 1 2 5 False = a1" "spec_submit a1 2 2 7 False = a2"
    by (simp_all add: spec_submit_def del: sample_simps)
  show "map_commands_ok map_commands unlimited"
    using m s by (simp add: map_commands_def)
  have "spec_commands map_commands unlimited = spec_cancel (spec_cancel a2 1) 999"
    using s by (simp add: map_commands_def)
  then show "spec_get_quantity (spec_commands map_commands unlimited) 1 = 0"
    "spec_get_quantity (spec_commands map_commands unlimited) 2 = 7"
    by (simp_all add: spec_cancel_def spec_unlink_def drop_id_def spec_get_quantity_def)
qed

lemma sample_parts:
  "a_q sample_asks s p = (if s then [] else if p = 2 then [(0, 5), (1, 7)] else if p = 3 then [(2, 4)] else [])"
  "a_loc sample_asks = [0 \<mapsto> (False, 2), 1 \<mapsto> (False, 2), 2 \<mapsto> (False, 3)]"
  "a_known sample_asks = {0, 1, 2}" "a_stale sample_asks = (\<lambda>_ _. False)"
  "a_cap sample_asks = 5" "a_free sample_asks = 2"
  by (auto simp: sample_asks_def sample_simps)

lemma sample_bitset: "bitset_refines (bitset_after 5 sample_commands) sample_asks"
  using bitset_after_refines [OF _ _ sample_ok] by (simp add: sample_result)

end
