(* ===== verification/Book_Defects.thy ===== *)
theory Book_Defects
  imports Sample_Books
begin

text \<open>
  What the bitset book does outside its specification, on explicit states: a cancel by an id
  that was never submitted or that was filled on arrival, an id that is submitted again while it
  rests, a cancel of an order that became the head of its level by a fill, and an order whose
  price is not on the ladder.
\<close>

section \<open>The state after \<open>init\<close>\<close>

definition pool :: "nat \<Rightarrow> Order list" where
  "pool n = (map (\<lambda>i. zero_order\<lparr>o_next := of_nat (i + 1)\<rparr>) [0..<n])[n - 1 := zero_order\<lparr>o_next := NULL_IDX\<rparr>]"

definition no_orders :: "PriceLevel list" where
  "no_orders = replicate MAX_PRICES \<lparr>lv_head = NULL_IDX, lv_tail = NULL_IDX\<rparr>"

definition started :: "nat \<Rightarrow> bitset_book" where
  "started n = \<lparr>orders = pool n, bid_levels = no_orders, ask_levels = no_orders, id_map = replicate n 0,
     next_free_order_idx = 0, bid_index = bs_new, ask_index = bs_new\<rparr>"

lemma pool_simps [simp]: "length (pool n) = n" "Suc i < n \<Longrightarrow> pool n ! i = zero_order\<lparr>o_next := of_nat (i + 1)\<rparr>"
  by (simp_all add: pool_def)

lemma no_orders_simps [simp]: "length no_orders = MAX_PRICES"
  "p < MAX_PRICES \<Longrightarrow> no_orders ! p = \<lparr>lv_head = NULL_IDX, lv_tail = NULL_IDX\<rparr>"
  by (simp_all add: no_orders_def)

lemma chain_free_slots_pool:
  assumes "0 < n"
  shows "(chain_free_slots n (replicate n zero_order))[n - 1 := (chain_free_slots n (replicate n zero_order) ! (n - 1))\<lparr>o_next := NULL_IDX\<rparr>] = pool n"
proof -
  note c = chain_free_slots [of "replicate n zero_order" n, simplified]
  have "chain_free_slots n (replicate n zero_order) = map (\<lambda>i. zero_order\<lparr>o_next := of_nat (i + 1)\<rparr>) [0..<n]"
    by (rule nth_equalityI) (simp_all add: c)
  moreover have "chain_free_slots n (replicate n zero_order) ! (n - 1) = zero_order\<lparr>o_next := of_nat (n - 1 + 1)\<rparr>"
    using c(2) [of "n - 1"] assms by simp
  ultimately show ?thesis by (simp add: pool_def)
qed

lemma clear_blank: "clear_levels blank_levels = no_orders"
  using clear_levels [of blank_levels] by (intro nth_equalityI) (simp_all add: blank_levels_def)

lemma init_blank:
  assumes "0 < n"
  shows "init blank_bitset n = ret (started n)"
  using assms chain_free_slots_pool [OF assms] chain_free_slots(1) [of "replicate n zero_order" n]
  by (simp add: init_def init_ladder_def blank_bitset_def started_def clear_blank bs_clear_all_new)

section \<open>Price 100 in the index\<close>

definition ix100 :: PriceBitset where
  "ix100 = \<lparr>l0 = 1, l1 = (replicate L1_BLOCKS 0)[0 := 2], l2 = (replicate L2_BLOCKS 0)[1 := 68719476736]\<rparr>"

lemma block_sizes [simp]: "100 < MAX_PRICES" "\<not> MAX_PRICES \<le> 100" "0 < L1_BLOCKS" "1 < L2_BLOCKS" "Suc 0 < L2_BLOCKS"
  by (simp_all add: MAX_PRICES_def L1_BLOCKS_val L2_BLOCKS_val)

lemma set_100: "bs_set bs_new 100 = ret ix100"
  by (simp add: bs_set_def bs_new_def ix100_def Let_def)

lemma replicate_upd [simp]: "(replicate n x)[i := x] = replicate n x"
  by (metis linorder_not_le list_update_beyond list_update_id length_replicate nth_replicate)

lemma clear_100: "bs_clear ix100 100 = ret bs_new"
  by (simp add: bs_clear_def bs_new_def ix100_def Let_def)

lemma lowest_100: "find_lowest ix100 = ret (Some 100)"
  by (simp add: find_lowest_def ix100_def builtin_ctzll_def Let_def upt_rec)

section \<open>Stepping through the operations\<close>

lemmas book_steps = get_order_def upd_order_def get_level_def set_level_def levels_def set_id_map_def
  find_slot_def side_index_def put_index_def narrow_sub_def Let_def

lemma best_price_100:
  "bid_index b = bs_new \<Longrightarrow> best_price b False = ret None" "ask_index b = bs_new \<Longrightarrow> best_price b True = ret None"
  "ask_index b = ix100 \<Longrightarrow> best_price b True = ret (Some 100)"
  by (simp_all add: best_price_def side_index_def find_lowest_def find_highest_def bs_new_def lowest_100
      [unfolded find_lowest_def])

lemma NULL_IDX_neq [simp]: "NULL_IDX \<noteq> 0" "0 \<noteq> NULL_IDX" "NULL_IDX \<noteq> 1" "1 \<noteq> NULL_IDX" "2 \<noteq> NULL_IDX" "NULL_IDX \<noteq> 2"
  "3 \<noteq> NULL_IDX" "NULL_IDX \<noteq> 3"
  by (simp_all add: NULL_IDX_def)

section \<open>An id that was never submitted\<close>

text \<open>
  After \<open>init\<close> every entry of \<open>id_map\<close> is 0, so an id that was never used names slot 0, the
  first order of the book.
\<close>

lemma submit_first_bid:
  assumes "Suc 0 < n" and "unat oid < n" and "0 < qty"
  shows "submit_order (started n) oid 100 qty True = ret ((started n)\<lparr>
    orders := (pool n)[0 := \<lparr>o_id = oid, o_price = 100, o_qty = qty, o_is_buy = True, o_next = NULL_IDX, o_prev = NULL_IDX\<rparr>],
    bid_levels := no_orders[100 := \<lparr>lv_head = 0, lv_tail = 0\<rparr>], bid_index := ix100, next_free_order_idx := 1\<rparr>)"
proof -
  have "match (started n) 100 qty True = ret (started n, qty)"
    using assms(3) by (subst match.simps) (simp add: best_price_100 started_def)
  then show ?thesis
    using assms by (simp add: submit_order_def add_order_def fill_slot_def link_tail_def index_set_def book_steps
      started_def set_100)
qed

lemma cancel_unused:
  assumes "Suc 0 < n" and "unat oid < n" and "unat unused < n" and "0 < qty"
  shows "ebind (submit_order (started n) oid 100 qty True) (\<lambda>b. cancel_order b unused) = ret ((started n)\<lparr>
    orders := (pool n)[0 := \<lparr>o_id = oid, o_price = 100, o_qty = qty, o_is_buy = True, o_next = 1, o_prev = NULL_IDX\<rparr>],
    id_map := (replicate n 0)[unat unused := NULL_IDX]\<rparr>)"
proof -
  have levels: "no_orders[100 := \<lparr>lv_head = NULL_IDX, lv_tail = NULL_IDX\<rparr>] = no_orders"
    by (simp add: no_orders_def)
  show ?thesis
    unfolding submit_first_bid [OF assms(1,2,4)] ebind_ret
    using assms by (simp add: cancel_order_def unlink_order_def clear_if_empty_def index_clear_def
      release_slot_def book_steps started_def clear_100 levels)
qed

theorem unused_id_cancels:
  assumes "Suc 0 < n" and "unat oid < n" and "unat unused < n" and "oid \<noteq> unused" and "0 < qty"
  shows "returns (ebind (init blank_bitset n) (\<lambda>b. ebind (submit_order b oid 100 qty True) (\<lambda>b. cancel_order b unused)))
    (\<lambda>b. get_quantity b oid = ret qty \<and> best_price b False = ret None)"
proof -
  have "unat unused \<noteq> unat oid" using assms(4) unsigned_word_eqI by metis
  moreover have "0 < n" using assms(1) by simp
  ultimately show ?thesis
    unfolding init_blank [OF \<open>0 < n\<close>] ebind_ret cancel_unused [OF assms(1-3,5)] returns_ret
    using assms by (simp add: best_price_100 started_def get_quantity_def book_steps)
qed

section \<open>An order that was filled on arrival\<close>

text \<open>
  An order that is filled completely when it comes in never gets an \<open>id_map\<close> entry, so its id
  also names slot 0: an ask, a buy that takes all of it, another buy that rests in the freed
  slot 0, and a cancel of the first buy takes the second out of the book.
\<close>

definition asked :: "nat \<Rightarrow> u64 \<Rightarrow> u32 \<Rightarrow> bitset_book" where
  "asked n ask qty = (started n)\<lparr>
     orders := (pool n)[0 := \<lparr>o_id = ask, o_price = 100, o_qty = qty, o_is_buy = False, o_next = NULL_IDX, o_prev = NULL_IDX\<rparr>],
     ask_levels := no_orders[100 := \<lparr>lv_head = 0, lv_tail = 0\<rparr>], ask_index := ix100, next_free_order_idx := 1\<rparr>"

definition taken :: "nat \<Rightarrow> u64 \<Rightarrow> bitset_book" where
  "taken n ask = (started n)\<lparr>
     orders := (pool n)[0 := \<lparr>o_id = ask, o_price = 100, o_qty = 0, o_is_buy = False, o_next = 1, o_prev = NULL_IDX\<rparr>],
     id_map := (replicate n 0)[unat ask := NULL_IDX]\<rparr>"

lemma submit_first_ask:
  assumes "Suc 0 < n" and "unat ask < n" and "0 < qty"
  shows "submit_order (started n) ask 100 qty False = ret (asked n ask qty)"
proof -
  have "match (started n) 100 qty False = ret (started n, qty)"
    using assms(3) by (subst match.simps) (simp add: best_price_100 started_def)
  then show ?thesis
    using assms by (simp add: submit_order_def add_order_def fill_slot_def link_tail_def index_set_def book_steps
      started_def set_100 asked_def)
qed

lemma no_orders_upd [simp]: "no_orders[100 := \<lparr>lv_head = NULL_IDX, lv_tail = NULL_IDX\<rparr>] = no_orders"
  by (simp add: no_orders_def)

lemma buy_takes_all:
  assumes "Suc 0 < n" and "unat ask < n" and "0 < qty"
  shows "submit_order (asked n ask qty) filled 100 qty True = ret (taken n ask)"
proof -
  let ?b = "(taken n ask)\<lparr>ask_index := ix100\<rparr>"
  have zero: "ucast qty - ucast qty = (0 :: u64)" by simp
  have "match_level (asked n ask qty) False 100 qty = ret (?b, 0)"
    using assms
    by (subst match_level.simps) (subst match_level.simps,
      simp add: asked_def taken_def started_def pop_head_def book_steps)
  moreover have "clear_if_empty ?b False 100 = ret (taken n ask)"
    by (simp add: clear_if_empty_def index_clear_def taken_def started_def book_steps clear_100)
  moreover have "match (taken n ask) 100 0 True = ret (taken n ask, 0)" by (subst match.simps) simp
  moreover have "ask_index (asked n ask qty) = ix100" by (simp add: asked_def)
  ultimately have "match (asked n ask qty) 100 qty True = ret (taken n ask, 0)"
    using assms(3) by (subst match.simps) (simp add: best_price_100 not_crossing_def)
  then show ?thesis by (simp add: submit_order_def)
qed

theorem filled_id_cancels:
  assumes "Suc 0 < n" and "unat ask < n" "unat filled < n" "unat resting < n" and "0 < qty" "0 < rest"
    and "filled \<noteq> ask" and "filled \<noteq> resting"
  shows "returns (ebind (init blank_bitset n) (run_commands bitset_ops
      [Submit ask 100 qty False, Submit filled 100 qty True, Submit resting 100 rest True, Cancel filled]))
    (\<lambda>b. get_quantity b resting = ret rest \<and> best_price b False = ret None)"
proof -
  let ?new = "\<lparr>o_id = resting, o_price = 100, o_qty = rest, o_is_buy = True, o_next = NULL_IDX, o_prev = NULL_IDX\<rparr>"
  let ?ids = "(replicate n 0)[unat ask := NULL_IDX, unat resting := 0]"
  have other: "unat filled \<noteq> unat ask" "unat filled \<noteq> unat resting" using assms(7,8) unsigned_word_eqI by metis+
  have "match (taken n ask) 100 rest True = ret (taken n ask, rest)"
    using assms(6) by (subst match.simps) (simp add: best_price_100 taken_def started_def)
  then have rests: "submit_order (taken n ask) resting 100 rest True = ret ((started n)\<lparr>orders := (pool n)[0 := ?new],
      bid_levels := no_orders[100 := \<lparr>lv_head = 0, lv_tail = 0\<rparr>], bid_index := ix100, id_map := ?ids, next_free_order_idx := 1\<rparr>)"
    using assms by (simp add: submit_order_def add_order_def fill_slot_def link_tail_def index_set_def book_steps
      started_def taken_def set_100)
  have cancel: "cancel_order ((started n)\<lparr>orders := (pool n)[0 := ?new],
      bid_levels := no_orders[100 := \<lparr>lv_head = 0, lv_tail = 0\<rparr>], bid_index := ix100, id_map := ?ids, next_free_order_idx := 1\<rparr>) filled =
    ret ((started n)\<lparr>orders := (pool n)[0 := ?new\<lparr>o_next := 1\<rparr>], id_map := ?ids[unat filled := NULL_IDX]\<rparr>)"
    using assms other by (simp add: cancel_order_def unlink_order_def clear_if_empty_def index_clear_def
      release_slot_def book_steps started_def clear_100)
  have "0 < n" using assms(1) by simp
  then have run: "ebind (init blank_bitset n) (run_commands bitset_ops
      [Submit ask 100 qty False, Submit filled 100 qty True, Submit resting 100 rest True, Cancel filled]) =
    ret ((started n)\<lparr>orders := (pool n)[0 := ?new\<lparr>o_next := 1\<rparr>], id_map := ?ids[unat filled := NULL_IDX]\<rparr>)"
    by (simp add: init_blank bitset_ops_def submit_first_ask [OF assms(1,2,5)] buy_takes_all [OF assms(1,2,5)] rests cancel)
  show ?thesis
    unfolding run returns_ret using assms other by (simp add: best_price_100 started_def get_quantity_def book_steps)
qed

section \<open>An id that is submitted again while it rests\<close>

text \<open>
  \<open>add_order\<close> overwrites the \<open>id_map\<close> entry of an id that rests: two bids with one id, and a cancel
  of this id, which takes out the second.  The first stays in its queue, out of reach.
\<close>

definition twice_bid :: "nat \<Rightarrow> u64 \<Rightarrow> u32 \<Rightarrow> u32 \<Rightarrow> bitset_book" where
  "twice_bid n oid q1 q2 = (started n)\<lparr>
     orders := (pool n)[0 := \<lparr>o_id = oid, o_price = 100, o_qty = q1, o_is_buy = True, o_next = 1, o_prev = NULL_IDX\<rparr>,
       1 := \<lparr>o_id = oid, o_price = 100, o_qty = q2, o_is_buy = True, o_next = NULL_IDX, o_prev = 0\<rparr>],
     bid_levels := no_orders[100 := \<lparr>lv_head = 0, lv_tail = 1\<rparr>], bid_index := ix100,
     id_map := (replicate n 0)[unat oid := 1], next_free_order_idx := 2\<rparr>"

definition orphaned :: "nat \<Rightarrow> u64 \<Rightarrow> u32 \<Rightarrow> u32 \<Rightarrow> bitset_book" where
  "orphaned n oid q1 q2 = (started n)\<lparr>
     orders := (pool n)[0 := \<lparr>o_id = oid, o_price = 100, o_qty = q1, o_is_buy = True, o_next = NULL_IDX, o_prev = NULL_IDX\<rparr>,
       1 := \<lparr>o_id = oid, o_price = 100, o_qty = q2, o_is_buy = True, o_next = 2, o_prev = NULL_IDX\<rparr>],
     bid_levels := no_orders[100 := \<lparr>lv_head = 0, lv_tail = 0\<rparr>], bid_index := ix100,
     id_map := (replicate n 0)[unat oid := NULL_IDX], next_free_order_idx := 1\<rparr>"

lemma submit_twice:
  assumes "2 < n" and "unat oid < n" and "0 < q1" and "0 < q2"
  shows "ebind (submit_order (started n) oid 100 q1 True) (\<lambda>b. submit_order b oid 100 q2 True) = ret (twice_bid n oid q1 q2)"
proof -
  let ?b1 = "(started n)\<lparr>
    orders := (pool n)[0 := \<lparr>o_id = oid, o_price = 100, o_qty = q1, o_is_buy = True, o_next = NULL_IDX, o_prev = NULL_IDX\<rparr>],
    bid_levels := no_orders[100 := \<lparr>lv_head = 0, lv_tail = 0\<rparr>], bid_index := ix100, next_free_order_idx := 1\<rparr>"
  have first: "submit_order (started n) oid 100 q1 True = ret ?b1"
    using submit_first_bid assms by simp
  have "match ?b1 100 q2 True = ret (?b1, q2)"
    using assms(4) by (subst match.simps) (simp add: best_price_100 started_def)
  then have "submit_order ?b1 oid 100 q2 True = ret (twice_bid n oid q1 q2)"
    using assms by (simp add: submit_order_def add_order_def fill_slot_def link_tail_def book_steps started_def
      twice_bid_def list_update_swap)
  with first show ?thesis by simp
qed

lemma cancel_twice:
  assumes "2 < n" and "unat oid < n"
  shows "cancel_order (twice_bid n oid q1 q2) oid = ret (orphaned n oid q1 q2)"
  using assms
  by (simp add: cancel_order_def unlink_order_def clear_if_empty_def release_slot_def book_steps
      twice_bid_def started_def orphaned_def list_update_swap)

lemma highest_100: "find_highest ix100 = ret (Some 100)"
  by (simp add: find_highest_def ix100_def builtin_clzll_def Let_def upt_rec)

theorem duplicate_id_orphans:
  assumes "2 < n" and "unat oid < n" and "0 < q1" and "0 < q2"
  shows "returns (ebind (init blank_bitset n) (run_commands bitset_ops
      [Submit oid 100 q1 True, Submit oid 100 q2 True, Cancel oid])) (\<lambda>b.
    get_quantity b oid = ret 0 \<and> cancel_order b oid = ret b \<and> best_price b False = ret (Some 100) \<and>
    returns (match b 100 q1 False) (\<lambda>(b', left). left = 0 \<and> best_price b' False = ret None))"
proof -
  let ?b = "orphaned n oid q1 q2"
  have "0 < n" using assms(1) by simp
  then have run: "ebind (init blank_bitset n) (run_commands bitset_ops
      [Submit oid 100 q1 True, Submit oid 100 q2 True, Cancel oid]) = ret ?b"
    using submit_twice [OF assms] cancel_twice [OF assms(1,2)] by (auto simp: init_blank bitset_ops_def ebind_eq_ret)
  have best: "best_price ?b False = ret (Some 100)"
    by (simp add: best_price_def side_index_def orphaned_def highest_100)
  have gone: "find_slot ?b oid = None" using assms(1,2) by (simp add: find_slot_def orphaned_def started_def)
  let ?e = "?b\<lparr>orders := (orders ?b)[0 := \<lparr>o_id = oid, o_price = 100, o_qty = 0, o_is_buy = True, o_next = 1, o_prev = NULL_IDX\<rparr>],
    bid_levels := no_orders, next_free_order_idx := 0\<rparr>"
  have "match_level ?b True 100 q1 = ret (?e, 0)"
    using assms
    by (subst match_level.simps) (subst match_level.simps, simp add: orphaned_def started_def pop_head_def book_steps)
  moreover have "clear_if_empty ?e True 100 = ret (?e\<lparr>bid_index := bs_new\<rparr>)"
    by (simp add: clear_if_empty_def index_clear_def orphaned_def started_def book_steps clear_100)
  moreover have "match (?e\<lparr>bid_index := bs_new\<rparr>) 100 0 False = ret (?e\<lparr>bid_index := bs_new\<rparr>, 0)" by (subst match.simps) simp
  ultimately have "match ?b 100 q1 False = ret (?e\<lparr>bid_index := bs_new\<rparr>, 0)"
    using assms(3) best by (subst match.simps) (simp add: not_crossing_def)
  then show ?thesis
    unfolding run returns_ret by (simp add: best gone get_quantity_def cancel_order_def best_price_100)
qed

section \<open>An order that a fill has made the head of its level\<close>

text \<open>
  Two asks at one price; a buy fills the first.  The second is the head of the level now, but
  its \<open>prev\<close> is still the slot of the first, which is on the free list: cancelling it cuts the
  free list there.
\<close>

definition two_asks :: "nat \<Rightarrow> bitset_book" where
  "two_asks n = (started n)\<lparr>
     orders := (pool n)[0 := \<lparr>o_id = 0, o_price = 100, o_qty = 5, o_is_buy = False, o_next = 1, o_prev = NULL_IDX\<rparr>,
       1 := \<lparr>o_id = 1, o_price = 100, o_qty = 7, o_is_buy = False, o_next = NULL_IDX, o_prev = 0\<rparr>],
     ask_levels := no_orders[100 := \<lparr>lv_head = 0, lv_tail = 1\<rparr>], ask_index := ix100,
     id_map := (replicate n 0)[1 := 1], next_free_order_idx := 2\<rparr>"

lemma submit_two_asks:
  assumes "3 < n"
  shows "ebind (submit_order (started n) 0 100 5 False) (\<lambda>b. submit_order b 1 100 7 False) = ret (two_asks n)"
proof -
  let ?b1 = "(started n)\<lparr>
    orders := (pool n)[0 := \<lparr>o_id = 0, o_price = 100, o_qty = 5, o_is_buy = False, o_next = NULL_IDX, o_prev = NULL_IDX\<rparr>],
    ask_levels := no_orders[100 := \<lparr>lv_head = 0, lv_tail = 0\<rparr>], ask_index := ix100, next_free_order_idx := 1\<rparr>"
  have m: "match b 100 q False = ret (b, q)" if "bid_index b = bs_new" for b q
    using that by (subst match.simps) (simp add: best_price_100)
  have "submit_order (started n) 0 100 5 False = ret ?b1"
    using assms by (simp add: submit_order_def m started_def add_order_def fill_slot_def link_tail_def index_set_def
      book_steps set_100)
  moreover have "submit_order ?b1 1 100 7 False = ret (two_asks n)"
    using assms by (simp add: submit_order_def m started_def add_order_def fill_slot_def link_tail_def index_set_def
      book_steps set_100 two_asks_def list_update_swap)
  ultimately show ?thesis by simp
qed

definition first_filled :: "nat \<Rightarrow> bitset_book" where
  "first_filled n = (two_asks n)\<lparr>
     orders := (pool n)[0 := \<lparr>o_id = 0, o_price = 100, o_qty = 0, o_is_buy = False, o_next = 2, o_prev = NULL_IDX\<rparr>,
       1 := \<lparr>o_id = 1, o_price = 100, o_qty = 7, o_is_buy = False, o_next = NULL_IDX, o_prev = 0\<rparr>],
     ask_levels := no_orders[100 := \<lparr>lv_head = 1, lv_tail = 1\<rparr>],
     id_map := (replicate n 0)[0 := NULL_IDX, 1 := 1], next_free_order_idx := 0\<rparr>"

lemma buy_fills_first:
  assumes "3 < n"
  shows "submit_order (two_asks n) 2 100 5 True = ret (first_filled n)"
proof -
  have lvl: "match_level (two_asks n) False 100 5 = ret (first_filled n, 0)"
    using assms
    by (subst match_level.simps) (subst match_level.simps,
      simp add: two_asks_def first_filled_def started_def pop_head_def book_steps list_update_swap)
  have "match (first_filled n) 100 0 True = ret (first_filled n, 0)" by (subst match.simps) simp
  moreover have "lv_head (ask_levels (first_filled n) ! 100) = 1" "ask_index (two_asks n) = ix100"
    "length (ask_levels (first_filled n)) = MAX_PRICES"
    by (simp_all add: first_filled_def two_asks_def)
  ultimately have "match (two_asks n) 100 5 True = ret (first_filled n, 0)"
    by (subst match.simps)
       (simp add: best_price_100 not_crossing_def lvl clear_if_empty_def get_level_def levels_def)
  then show ?thesis by (simp add: submit_order_def)
qed

definition cut_off :: "nat \<Rightarrow> bitset_book" where
  "cut_off n = (started n)\<lparr>
     orders := (pool n)[0 := \<lparr>o_id = 0, o_price = 100, o_qty = 0, o_is_buy = False, o_next = NULL_IDX, o_prev = NULL_IDX\<rparr>,
       1 := \<lparr>o_id = 1, o_price = 100, o_qty = 7, o_is_buy = False, o_next = 0, o_prev = NULL_IDX\<rparr>],
     ask_levels := no_orders[100 := \<lparr>lv_head = NULL_IDX, lv_tail = 0\<rparr>],
     id_map := (replicate n 0)[0 := NULL_IDX, 1 := NULL_IDX], next_free_order_idx := 1\<rparr>"

lemma cancel_new_head:
  assumes "3 < n"
  shows "cancel_order (first_filled n) 1 = ret (cut_off n)"
  using assms
  by (simp add: cancel_order_def unlink_order_def clear_if_empty_def index_clear_def release_slot_def book_steps
      first_filled_def two_asks_def started_def cut_off_def clear_100 list_update_swap)

definition exhausted :: "nat \<Rightarrow> bitset_book" where
  "exhausted n = (cut_off n)\<lparr>
     orders := (pool n)[0 := \<lparr>o_id = 1, o_price = 100, o_qty = 1, o_is_buy = True, o_next = NULL_IDX, o_prev = 1\<rparr>,
       1 := \<lparr>o_id = 0, o_price = 100, o_qty = 1, o_is_buy = True, o_next = 0, o_prev = NULL_IDX\<rparr>],
     bid_levels := no_orders[100 := \<lparr>lv_head = 1, lv_tail = 0\<rparr>], bid_index := ix100,
     id_map := (replicate n 0)[0 := 1, 1 := 0], next_free_order_idx := NULL_IDX\<rparr>"

lemma two_bids_exhaust:
  assumes "3 < n"
  shows "ebind (submit_order (cut_off n) 0 100 1 True) (\<lambda>b. submit_order b 1 100 1 True) = ret (exhausted n)"
proof -
  let ?b1 = "(cut_off n)\<lparr>
    orders := (pool n)[0 := \<lparr>o_id = 0, o_price = 100, o_qty = 0, o_is_buy = False, o_next = NULL_IDX, o_prev = NULL_IDX\<rparr>,
      1 := \<lparr>o_id = 0, o_price = 100, o_qty = 1, o_is_buy = True, o_next = NULL_IDX, o_prev = NULL_IDX\<rparr>],
    bid_levels := no_orders[100 := \<lparr>lv_head = 1, lv_tail = 1\<rparr>], bid_index := ix100,
    id_map := (replicate n 0)[0 := 1, 1 := NULL_IDX], next_free_order_idx := 0\<rparr>"
  have m: "match b 100 q True = ret (b, q)" if "ask_index b = bs_new" for b q
    using that by (subst match.simps) (simp add: best_price_100)
  have "submit_order (cut_off n) 0 100 1 True = ret ?b1"
    using assms by (simp add: submit_order_def m started_def cut_off_def add_order_def fill_slot_def link_tail_def
      index_set_def book_steps set_100 list_update_swap)
  moreover have "submit_order ?b1 1 100 1 True = ret (exhausted n)"
    using assms by (simp add: submit_order_def m started_def cut_off_def add_order_def fill_slot_def link_tail_def
      index_set_def book_steps set_100 exhausted_def list_update_swap)
  ultimately show ?thesis by simp
qed

definition cut_commands :: "command list" where
  "cut_commands = [Submit 0 100 5 False, Submit 1 100 7 False, Submit 2 100 5 True, Cancel 1,
     Submit 0 100 1 True, Submit 1 100 1 True]"

text \<open>Two orders rest, and a book of any capacity takes no further order.\<close>

lemma cut_commands_exhaust:
  assumes "3 < n"
  shows "ebind (init blank_bitset n) (run_commands bitset_ops cut_commands) = ret (exhausted n)"
proof -
  have "0 < n" using assms by simp
  obtain b1 b2 where "submit_order (started n) 0 100 5 False = ret b1" "submit_order b1 1 100 7 False = ret (two_asks n)"
    "submit_order (cut_off n) 0 100 1 True = ret b2" "submit_order b2 1 100 1 True = ret (exhausted n)"
    using submit_two_asks [OF assms] two_bids_exhaust [OF assms] by (auto simp: ebind_eq_ret)
  then show ?thesis
    by (simp add: init_blank [OF \<open>0 < n\<close>] cut_commands_def bitset_ops_def buy_fills_first [OF assms]
        cancel_new_head [OF assms])
qed

lemma exhausted_adds_nothing: "add_order (exhausted n) oid price qty is_buy = ret (exhausted n)"
  by (simp add: add_order_def exhausted_def)

section \<open>A price that is not on the ladder\<close>

text \<open>
  The order takes a slot and an \<open>id_map\<close> entry before the price is checked: its quantity is
  reported as open, and cancelling it indexes the ladder out of range.
\<close>

lemma add_off_ladder:
  assumes ref: "bitset_refines b a" and room: "0 < a_free a" and oid: "unat oid < a_cap a"
    and loc: "a_loc a (unat oid) = None" and off: "MAX_PRICES \<le> unat price"
  shows "returns (add_order b oid price qty s) (\<lambda>b'. get_quantity b' oid = ret qty \<and>
    cancel_order b' oid = stop OutOfBounds \<and> bitset_refines b' (a\<lparr>a_free := a_free a - 1, a_known := a_known a - {unat oid}\<rparr>))"
proof -
  from ref obtain F Q where rep: "rep b a F Q (a_known a)" and free: "a_free a = length F" and wf: "awf a"
    by (auto simp: bitset_refines_def refines_def)
  from room free obtain x F' where F: "F = x # F'" by (cases F) auto
  note L = repD(1) [OF rep, unfolded F]
  have x: "next_free_order_idx b = x" "x \<noteq> NULL_IDX" "unat x < length (orders b)"
    using linksD(3) [OF L] by auto
  have oid': "unat oid < length (orders b)" using oid repD(3) [OF rep] by simp
  obtain b' where run: "fill_slot b x oid price qty s = ret b'" and b': "orders b' = (orders b)[unat x := new_order oid price qty s]"
    "id_map b' = (id_map b)[unat oid := x]" "links b' F' Q (a_stale a)"
    using fill_slot_returns [OF L oid', of price qty s] unfolding returns_def by blast
  have add: "add_order b oid price qty s = ret b'"
    using x off run linksD(2) [OF b'(3)] by (simp add: add_order_def)
  have slot: "find_slot b' oid = Some x" and ord: "get_order b' x = ret (new_order oid price qty s)"
    using x oid' b' linksD(1) [OF L] by (simp_all add: find_slot_def get_order_def)
  have "get_level b' s price = stop OutOfBounds" using off linksD(2) [OF b'(3)] by (simp add: get_level_def)
  then have "unlink_order b' x = stop OutOfBounds" by (simp add: unlink_order_def ord new_order_def)
  then have "cancel_order b' oid = stop OutOfBounds" by (simp add: cancel_order_def slot ord)
  moreover have "get_quantity b' oid = ret qty" by (simp add: get_quantity_def slot ord new_order_def)
  moreover have "can_add a (unat oid)" using oid loc by (simp add: can_add_def)
  ultimately show ?thesis
    using add_order_refines [OF ref, of oid price qty s] add room off by (simp add: spec_add_def)
qed

text \<open>Replacing at such a price: the order is unlinked first, then the new level is looked up.\<close>

lemma replace_out_of_range:
  assumes ref: "bitset_refines b a" and loc: "a_loc a (unat oid) = Some (s, p)" and known: "known_id a (unat oid)"
    and ok: "can_unlink a (unat oid)" and off: "MAX_PRICES \<le> unat new_price"
  shows "replace_order b oid new_price new_qty = stop OutOfBounds"
proof -
  from ref obtain F Q where rep: "rep b a F Q (a_known a)" and wf: "awf a" and ix: "indexed b a"
    by (auto simp: bitset_refines_def refines_def)
  show ?thesis
  proof (rule find_slot_known [OF rep wf known [unfolded known_id_def]])
    fix s' p' x assume loc': "a_loc a (unat oid) = Some (s', p')" and fs: "find_slot b oid = Some x"
      and x: "x \<in> set (Q s' p')" and oidx: "unat (o_id (orders b ! unat x)) = unat oid"
      and xs: "x \<noteq> NULL_IDX" "unat x < length (orders b)" and p: "p' < MAX_PRICES"
      and ord: "o_is_buy (orders b ! unat x) = s'" "unat (o_price (orders b ! unat x)) = p'"
    obtain b2 where run: "ebind (unlink_order b x) (\<lambda>b1.
        clear_if_empty b1 (o_is_buy (orders b ! unat x)) (o_price (orders b ! unat x))) = ret b2"
      and rep2: "rep b2 (spec_unlink a (unat oid) s' p') F (upd2 Q s' p' (remove1 x (Q s' p'))) (a_known a - {unat oid})"
      using unlink_and_clear_rep [OF rep ix x oidx loc' ok ord] by (auto simp: returns_def)
    have "o_price (orders b ! unat x) \<noteq> new_price" using ord(2) p off by auto
    moreover have "get_level b s' (o_price (orders b ! unat x)) = ret (levels b s' ! p')"
      using linksD(2) [OF repD(1) [OF rep]] p ord(2) by (simp add: get_level_def)
    moreover have "relink b2 (o_is_buy (orders b ! unat x)) new_price x = stop OutOfBounds"
      using off linksD(2) [OF repD(1) [OF rep2]] by (simp add: relink_def get_level_def)
    ultimately show ?thesis
      using run fs xs ord(1) by (auto simp: replace_order_def get_order_def ebind_eq_ret)
  qed (use loc in simp)
qed

end
