(* ===== verification/Book_Memory.thy ===== *)
theory Book_Memory
  imports Book_Interface
begin

text \<open>
  The memory of the bitset book, read as the code reads it: from \<open>next_free_order_idx\<close> along \<open>next\<close>
  for the free list, from the \<open>head\<close> of a level along \<open>next\<close> for its orders.  What the abstraction
  relation says with hidden lists is said here of the arrays themselves: every slot of the pool is
  in exactly one of these lists, and level, links, index and \<open>id_map\<close> agree on it.
\<close>

section \<open>Following the links\<close>

text \<open>At most \<open>n\<close> slots, from index \<open>i\<close> up to \<open>NULL_IDX\<close> or an index out of range.\<close>

fun walk :: "Order list \<Rightarrow> nat \<Rightarrow> u32 \<Rightarrow> u32 list" where
  "walk os 0 i = []"
| "walk os (Suc n) i = (if i = NULL_IDX \<or> length os \<le> unat i then [] else i # walk os n (o_next (os ! unat i)))"

lemma walk_NULL [simp]: "walk os n NULL_IDX = []"
  by (cases n) simp_all

lemma walk_chain: "chain os i xs \<Longrightarrow> length xs \<le> n \<Longrightarrow> walk os n i = xs"
proof (induction xs arbitrary: i n)
  case (Cons x xs)
  then show ?case by (cases n) auto
qed simp

lemma walk_dseg: "dseg os p i xs t NULL_IDX \<Longrightarrow> length xs \<le> n \<Longrightarrow> walk os n i = xs"
proof (induction xs arbitrary: p i n)
  case (Cons x xs)
  then show ?case by (cases n) auto
qed simp

lemma dseg_back: "dseg os p i xs t j \<Longrightarrow> Suc k < length xs \<Longrightarrow> o_prev (os ! unat (xs ! Suc k)) = xs ! k"
proof (induction xs arbitrary: p i k)
  case (Cons x xs)
  then show ?case by (cases k; cases xs) auto
qed simp

lemma slots_fit:
  assumes "distinct xs" and "\<And>x. x \<in> set xs \<Longrightarrow> unat (x :: u32) < n"
  shows "length xs \<le> n"
proof -
  have "inj_on unat (set xs)" by (auto intro: inj_onI unsigned_word_eqI)
  then have "length xs = card (unat ` set xs)" using assms(1) by (simp add: card_image distinct_card)
  also have "\<dots> \<le> card {..<n}" using assms(2) by (intro card_mono) auto
  finally show ?thesis by simp
qed

section \<open>Sound memory\<close>

definition free_slots :: "'a ladder_book_scheme \<Rightarrow> u32 list" where
  "free_slots b = walk (orders b) (length (orders b)) (next_free_order_idx b)"

definition level_slots :: "'a ladder_book_scheme \<Rightarrow> bool \<Rightarrow> nat \<Rightarrow> u32 list" where
  "level_slots b s p = walk (orders b) (length (orders b)) (lv_head (levels b s ! p))"

text \<open>The slots that the lists reach are the pool, and no slot is reached twice.\<close>

definition pool_parted :: "bitset_book \<Rightarrow> nat \<Rightarrow> bool" where
  "pool_parted b n \<longleftrightarrow> distinct (free_slots b) \<and>
     (\<forall>s. \<forall>p < MAX_PRICES. distinct (level_slots b s p) \<and> set (level_slots b s p) \<inter> set (free_slots b) = {} \<and>
       (\<forall>s'. \<forall>p' < MAX_PRICES. (s, p) \<noteq> (s', p') \<longrightarrow> set (level_slots b s p) \<inter> set (level_slots b s' p') = {})) \<and>
     unat ` (set (free_slots b) \<union> (\<Union>s. \<Union>p \<in> {..<MAX_PRICES}. set (level_slots b s p))) = {..<n}"

text \<open>One level: its tail, the \<open>prev\<close> links, what its orders say of themselves, \<open>id_map\<close>, the index.\<close>

definition level_sound :: "bitset_book \<Rightarrow> bool \<Rightarrow> nat \<Rightarrow> bool" where
  "level_sound b s p \<longleftrightarrow> (let xs = level_slots b s p in
     (xs \<noteq> [] \<longrightarrow> lv_tail (levels b s ! p) = last xs) \<and>
     (\<forall>k. Suc k < length xs \<longrightarrow> o_prev (orders b ! unat (xs ! Suc k)) = xs ! k) \<and>
     (\<forall>x \<in> set xs. o_is_buy (orders b ! unat x) = s \<and> unat (o_price (orders b ! unat x)) = p \<and>
       find_slot b (o_id (orders b ! unat x)) = Some x) \<and>
     bs_test (side_index b s) (of_nat p) = ret (xs \<noteq> []))"

definition memory_sound :: "nat \<Rightarrow> bitset_book \<Rightarrow> bool" where
  "memory_sound n b \<longleftrightarrow> length (orders b) = n \<and> length (id_map b) = n \<and> pool_parted b n \<and>
     (\<forall>s. \<forall>p < MAX_PRICES. level_sound b s p)"

section \<open>No slot is lost\<close>

definition full :: "abook \<Rightarrow> bool" where
  "full a \<longleftrightarrow> card (dom (a_loc a)) + a_free a = a_cap a"

lemma spec_init_full: "full (spec_init n)"
  by (simp add: full_def spec_init_def)

lemma spec_match_full:
  assumes "awf a" and "aroom a" and "full a" and "spec_match a price q s = (a', q')"
  shows "full a'"
  using sweep_dom [OF assms(1) assms(4) [unfolded spec_match_def]] sweep_frame(1) [OF assms(4) [unfolded spec_match_def]]
    assms(2,3) by (simp add: full_def aroom_def)

lemma spec_submit_full:
  assumes "awf a" and "aroom a" and "full a" and "submit_ok a oid price q s" and "price < MAX_PRICES"
  shows "full (spec_submit a oid price q s)"
proof -
  obtain a' q' where m: "spec_match a price q s = (a', q')" by fastforce
  have "full a'" "aroom a'" using spec_match_full [OF assms(1-3) m] spec_match_aroom [OF assms(1,2) m] by simp_all
  then show ?thesis
    using assms(4,5) by (auto simp: spec_submit_def m submit_ok_def can_add_def spec_add_def full_def aroom_def domIff)
qed

lemma card_dom_remove: "finite (dom m) \<Longrightarrow> m i = Some x \<Longrightarrow> Suc (card (dom (m(i := None)))) = card (dom m)"
  using card_Suc_Diff1 [of "dom m" i] by (auto simp: domI simp del: card_Diff_insert)

lemma spec_cancel_full: "aroom a \<Longrightarrow> full a \<Longrightarrow> full (spec_cancel a oid)"
  using card_dom_remove [of "a_loc a" oid]
  by (auto simp: spec_cancel_def spec_unlink_def full_def aroom_def simp del: dom_fun_upd split: option.splits)

lemma spec_replace_full: "full a \<Longrightarrow> full (spec_replace a oid price q)"
  by (auto simp: spec_replace_def spec_link_def spec_unlink_def full_def insert_absorb domI split: option.splits)

text \<open>Submits that stay on the ladder.\<close>

fun on_ladder_command :: "command \<Rightarrow> bool" where
  "on_ladder_command (Submit oid price qty is_buy) = (unat price < MAX_PRICES)"
| "on_ladder_command (Cancel oid) = True"

lemma spec_commands_full:
  "bitset_refines b a \<Longrightarrow> full a \<Longrightarrow> commands_ok submit_ok cs a \<Longrightarrow> \<forall>c \<in> set cs. on_ladder_command c \<Longrightarrow>
    full (spec_commands cs a)"
proof (induction cs arbitrary: a b)
  case (Cons c cs)
  have wf: "awf a" "aroom a" using bitset_if.refs_wf [OF Cons.prems(1)] by simp_all
  have "full (spec_command c a)"
    using Cons.prems(2-4) spec_submit_full [OF wf] spec_cancel_full [OF wf(2)] by (cases c) auto
  moreover obtain b' where "bitset_refines b' (spec_command c a)"
    using bitset_if.command_refines [OF Cons.prems(1), of c] Cons.prems(3) by (auto simp: returns_def)
  ultimately show ?case using Cons.IH Cons.prems(3,4) by simp
qed simp

section \<open>The abstraction relation gives sound memory\<close>

lemma rep_free_slots:
  assumes "rep b a F Q K"
  shows "free_slots b = F"
proof -
  note L = linksD(3,4) [OF repD(1) [OF assms]]
  have "length F \<le> length (orders b)" using L(2) chain_in [OF L(1)] by (intro slots_fit) auto
  with L(1) show ?thesis unfolding free_slots_def by (rule walk_chain)
qed

lemma rep_level_slots:
  assumes "rep b a F Q K" and "p < MAX_PRICES"
  shows "level_slots b s p = Q s p"
proof -
  note L = repD(1) [OF assms(1)]
  obtain pv t where "dseg (orders b) pv (lv_head (levels b s ! p)) (Q s p) t NULL_IDX"
    using linksD(5) [OF L assms(2), of s] by (auto simp: level_ok_def)
  moreover have "length (Q s p) \<le> length (orders b)"
    using linksD(7) [OF L] links_in [OF L] by (intro slots_fit) auto
  ultimately show ?thesis unfolding level_slots_def by (rule walk_dseg)
qed

text \<open>The slots in use and the ids that rest are equally many.\<close>

lemma rep_slots_card:
  assumes rep: "rep b a F Q K" and wf: "awf a"
  shows "card (\<Union>s. \<Union>p \<in> {..<MAX_PRICES}. set (Q s p)) = card (dom (a_loc a))"
proof -
  let ?U = "\<Union>s. \<Union>p \<in> {..<MAX_PRICES}. set (Q s p)" and ?id = "\<lambda>x. unat (o_id (orders b ! unat x))"
  have inj: "inj_on ?id ?U" by (rule inj_onI) (auto dest: slot_ids_distinct [OF rep])
  have "?id ` ?U = dom (a_loc a)"
  proof (intro equalityI subsetI)
    fix i assume "i \<in> ?id ` ?U"
    then obtain s p x where "x \<in> set (Q s p)" "i = ?id x" by blast
    then have "i \<in> fst ` set (a_q a s p)" by (auto simp: repD(4) [OF rep] entries_def image_image)
    then show "i \<in> dom (a_loc a)" using awfD(1) [OF wf] by blast
  next
    fix i assume "i \<in> dom (a_loc a)"
    then obtain s p where "a_loc a i = Some (s, p)" by auto
    then have "i \<in> fst ` set (a_q a s p)" using awfD(1) [OF wf] by simp
    then obtain x where x: "x \<in> set (Q s p)" "?id x = i" by (rule entry_slot [OF rep]) blast
    then have "p < MAX_PRICES" using links_price [OF repD(1) [OF rep]] by blast
    with x show "i \<in> ?id ` ?U" by (intro image_eqI [of _ _ x]) auto
  qed
  with card_image [OF inj] show ?thesis by simp
qed

lemma rep_pool_parted:
  assumes rep: "rep b a F Q K" and wf: "awf a" and free: "a_free a = length F" and full: "full a"
  shows "pool_parted b (length (orders b))"
proof -
  note L = repD(1) [OF rep] and levels = rep_level_slots [OF rep]
  let ?n = "length (orders b)" and ?U = "\<Union>s. \<Union>p \<in> {..<MAX_PRICES}. set (Q s p)"
  have U: "(\<Union>s. \<Union>p \<in> {..<MAX_PRICES}. set (level_slots b s p)) = ?U" using levels by auto
  have sub: "unat ` (set F \<union> ?U) \<subseteq> {..<?n}"
    using chain_in [OF linksD(3) [OF L]] links_in [OF L] by auto
  have "card (unat ` (set F \<union> ?U)) = card (set F \<union> ?U)"
    by (rule card_image) (auto intro: inj_onI unsigned_word_eqI)
  also have "\<dots> = card (set F) + card ?U"
    using linksD(8) [OF L] by (intro card_Un_disjoint) (auto intro: finite_subset [OF _ finite])
  also have "\<dots> = card {..<?n}"
    using full distinct_card [OF linksD(4) [OF L]] free repD(3) [OF rep]
    by (simp add: rep_slots_card [OF rep wf] full_def)
  finally have "unat ` (set F \<union> ?U) = {..<?n}" using card_subset_eq [OF _ sub] by simp
  then show ?thesis
    unfolding pool_parted_def U rep_free_slots [OF rep]
    using linksD(4,7,8,9) [OF L] by (simp add: levels)
qed

lemma rep_level_sound:
  assumes rep: "rep b a F Q K" and ix: "indexed b a" and p: "p < MAX_PRICES"
  shows "level_sound b s p"
proof -
  note L = repD(1) [OF rep] and S = slotsD [OF repD(2) [OF rep]]
  obtain pv t where seg: "dseg (orders b) pv (lv_head (levels b s ! p)) (Q s p) t NULL_IDX"
    and t: "Q s p \<noteq> [] \<longrightarrow> lv_tail (levels b s ! p) = t"
    using linksD(5) [OF L p, of s] by (auto simp: level_ok_def)
  have found: "find_slot b (o_id (orders b ! unat x)) = Some x" if "x \<in> set (Q s p)" for x
    using S [OF that] links_in [OF L that] by (auto simp: find_slot_def)
  define w :: u32 where "w = of_nat p"
  have w: "unat w = p" using p by (simp add: w_def unsigned_of_nat take_bit_nat_eq_self MAX_PRICES_def)
  have "bs_test (side_index b s) w = ret (Q s p \<noteq> [])"
    using bs_test_law [OF indexedD(1) [OF ix], of w] p by (simp add: w indexedD(2) [OF ix] repD(4) [OF rep])
  then show ?thesis
    unfolding w_def using t dseg_last [OF seg] dseg_back [OF seg] S(1,2) found
    by (auto simp: level_sound_def rep_level_slots [OF rep p])
qed

theorem refines_memory_sound:
  assumes "bitset_refines b a" and "full a"
  shows "memory_sound (a_cap a) b"
proof -
  from assms(1) obtain F Q where rep: "rep b a F Q (a_known a)" and free: "a_free a = length F"
    and wf: "awf a" and ix: "indexed b a" by (auto simp: bitset_refines_def refines_def)
  note L = linksD(1) [OF repD(1) [OF rep]] and cap = repD(3) [OF rep]
  from rep_pool_parted [OF rep wf free assms(2)] rep_level_sound [OF rep ix] show ?thesis
    by (simp add: memory_sound_def L cap)
qed

lemma spec_commands_cap: "a_cap (spec_commands cs a) = a_cap a"
proof (induction cs arbitrary: a)
  case (Cons c cs)
  have "a_cap (spec_command c a) = a_cap a"
    by (cases c) (auto simp: spec_submit_def spec_match_def spec_add_def spec_cancel_def spec_unlink_def
        split: prod.splits option.splits dest: sweep_frame(1))
  with Cons show ?case by simp
qed simp

lemma spec_replace_cap: "a_cap (spec_replace a oid price q) = a_cap a"
  by (auto simp: spec_replace_def spec_link_def spec_unlink_def split: option.splits)

theorem run_memory_sound:
  assumes "array_shaped b" and "0 < n" and "n \<le> 4294967295"
    and ok: "commands_ok submit_ok cs (spec_init n)" and ladder: "\<forall>c \<in> set cs. on_ladder_command c"
  shows "returns (ebind (init b n) (run_commands bitset_ops cs)) (\<lambda>b'. memory_sound n b' \<and>
    (\<forall>oid price qty. replace_ok (spec_commands cs (spec_init n)) (unat oid) (unat price) (unat qty) \<longrightarrow>
      returns (replace_order b' oid price qty) (memory_sound n)))"
proof -
  let ?a = "spec_commands cs (spec_init n)"
  obtain b0 where "bitset_refines b0 (spec_init n)"
    using bitset_if.init_law [OF assms(1-3)] by (auto simp: returns_def)
  from spec_commands_full [OF this spec_init_full ok ladder] have full: "full ?a" .
  have cap: "a_cap ?a = n" by (simp add: spec_commands_cap) (simp add: spec_init_def)
  have "returns (ebind (init b n) (run_commands bitset_ops cs)) (\<lambda>b'. bitset_refines b' ?a)"
    using bitset_if.run_from_init [OF assms(1-3) ok] by (auto simp: bitset_ops_def elim: returns_mono)
  then show ?thesis
  proof (rule returns_mono, intro conjI allI impI)
    fix b' assume b': "bitset_refines b' ?a"
    from refines_memory_sound [OF this full] show "memory_sound n b'" by (simp add: cap)
    fix oid price :: u64 and qty :: u32 assume "replace_ok ?a (unat oid) (unat price) (unat qty)"
    from replace_order_refines [OF b' this] show "returns (replace_order b' oid price qty) (memory_sound n)"
      using refines_memory_sound [OF _ spec_replace_full [OF full]] by (auto simp: spec_replace_cap cap elim: returns_mono)
  qed
qed

end
