(* ===== verification/Bench_Book.thy ===== *)
theory Bench_Book
  imports Simple_Book
begin

text \<open>
  The scenarios of \<open>src/benchmark_book.cpp\<close> over either array book; timing and output are in \<open>Programs\<close>.
  The random numbers of the churn scenario come from a generator that is a parameter.  The first
  two scenarios empty the book they fill.
\<close>

section \<open>The scenarios\<close>

definition kMaxOrders :: nat where "kMaxOrders = 500000"
definition kSparseLevels :: nat where "kSparseLevels = 50"
definition kSparseOrdersPerLevel :: nat where "kSparseOrdersPerLevel = 20"
definition kSparseRounds :: nat where "kSparseRounds = 200"
definition kWideOrders :: nat where "kWideOrders = 10000"
definition kChurnOps :: nat where "kChurnOps = 100000"

text \<open>A loop of \<open>submit_order(next_id++, price, 1, is_buy)\<close> over prices.\<close>

fun submit_each :: "'b BookOps \<Rightarrow> bool \<Rightarrow> u64 list \<Rightarrow> u64 \<Rightarrow> 'b \<Rightarrow> ('b \<times> u64) exec" where
  "submit_each ops is_buy [] next_id b = ret (b, next_id)"
| "submit_each ops is_buy (price # prices) next_id b =
     ebind (bo_submit_order ops b next_id price 1 is_buy) (submit_each ops is_buy prices (next_id + 1))"

definition sparse_prices :: "u64 list" where
  "sparse_prices = map (\<lambda>i. of_nat i * (of_nat MAX_PRICES div of_nat kSparseLevels) + 1) [0..<kSparseLevels]"

definition sparse_asks :: "u64 list" where
  "sparse_asks = concat (replicate kSparseRounds (concat (map (replicate kSparseOrdersPerLevel) sparse_prices)))"

definition total_inserted :: nat where
  "total_inserted = kSparseRounds * kSparseLevels * kSparseOrdersPerLevel"

definition scenario_sparse :: "'b BookOps \<Rightarrow> 'b \<Rightarrow> 'b exec" where
  "scenario_sparse ops b =
     ebind (bo_init ops b kMaxOrders) (\<lambda>b.
     ebind (submit_each ops False sparse_asks 0 b) (\<lambda>(b, next_id).
     bo_submit_order ops b next_id (of_nat MAX_PRICES - 1) (of_nat total_inserted) True))"

definition wide_asks :: "u64 list" where
  "wide_asks = map (\<lambda>i. of_nat MAX_PRICES - 1 - of_nat (i mod 10)) [0..<kWideOrders]"

definition scenario_wide :: "'b BookOps \<Rightarrow> 'b \<Rightarrow> 'b exec" where
  "scenario_wide ops b =
     ebind (bo_init ops b kMaxOrders) (\<lambda>b.
     ebind (submit_each ops False wide_asks 0 b) (\<lambda>(b, next_id).
     ebind (submit_each ops True (replicate kWideOrders (of_nat MAX_PRICES - 1)) next_id b) (\<lambda>(b, _).
     ret b)))"

text \<open>
  The churn scenario.  \<open>draw\<close> is a call of the generator (\<open>std::mt19937\<close>), \<open>price_dist\<close> a call of the
  price distribution with it; \<open>'g\<close> is the generator's state.
\<close>

record 'g churn =
  ch_next_id :: u64
  ch_live_ids :: "u64 list"
  ch_rng :: 'g

definition churn_op :: "('g \<Rightarrow> u32 \<times> 'g) \<Rightarrow> ('g \<Rightarrow> u64 \<times> 'g) \<Rightarrow> 'g churn \<Rightarrow> (command \<times> 'g churn) exec" where
  "churn_op draw price_dist st =
     (let (price, g1) = price_dist (ch_rng st); (r, g2) = draw g1; (r', g3) = draw g2;
          is_buy = odd r; action = r' mod 10; live = ch_live_ids st in
      if action < 7 then
        let (r'', g4) = draw g3 in
        ret (Submit (ch_next_id st) price (1 + r'' mod 10) is_buy,
             st\<lparr>ch_next_id := ch_next_id st + 1, ch_live_ids := live @ [ch_next_id st], ch_rng := g4\<rparr>)
      else if action < 9 \<and> live \<noteq> [] then
        let (r'', g4) = draw g3; idx = unat r'' mod length live in
        ebind (arr_get live idx) (\<lambda>oid.
        ebind (arr_set live idx (last live)) (\<lambda>live'.
        ret (Cancel oid, st\<lparr>ch_live_ids := butlast live', ch_rng := g4\<rparr>)))
      else
        let aggr_price = (if is_buy then of_nat MAX_PRICES - 1 else 0) in
        ret (Submit (ch_next_id st) aggr_price 1 is_buy, st\<lparr>ch_next_id := ch_next_id st + 1, ch_rng := g3\<rparr>))"

fun churn_loop :: "'b BookOps \<Rightarrow> ('g \<Rightarrow> u32 \<times> 'g) \<Rightarrow> ('g \<Rightarrow> u64 \<times> 'g) \<Rightarrow> nat \<Rightarrow> 'g churn \<Rightarrow> 'b \<Rightarrow> 'b exec" where
  "churn_loop ops draw price_dist 0 st b = ret b"
| "churn_loop ops draw price_dist (Suc n) st b =
     ebind (churn_op draw price_dist st) (\<lambda>(c, st').
     ebind (do_command ops c b) (churn_loop ops draw price_dist n st'))"

definition scenario_churn :: "'b BookOps \<Rightarrow> ('g \<Rightarrow> u32 \<times> 'g) \<Rightarrow> ('g \<Rightarrow> u64 \<times> 'g) \<Rightarrow> 'g \<Rightarrow> 'b \<Rightarrow> 'b exec" where
  "scenario_churn ops draw price_dist seeded b =
     ebind (bo_init ops b kMaxOrders)
       (churn_loop ops draw price_dist kChurnOps \<lparr>ch_next_id = 0, ch_live_ids = [], ch_rng = seeded\<rparr>)"

section \<open>A book of asks\<close>

text \<open>
  A book with no bids whose asks add up to \<open>d\<close>, of orders with ids below \<open>k\<close>; every slot is
  either free or holds a resting order.
\<close>

definition top_price :: nat where "top_price = MAX_PRICES - 1"

definition ask_depth :: "abook \<Rightarrow> nat" where
  "ask_depth a = (\<Sum>p<MAX_PRICES. total (a_q a False p))"

definition asks_of :: "nat \<Rightarrow> nat \<Rightarrow> nat \<Rightarrow> abook \<Rightarrow> bool" where
  "asks_of cap k d a \<longleftrightarrow> awf a \<and> positive a \<and> a_cap a = cap \<and> dom (a_loc a) \<subseteq> {..<k} \<and>
     card (dom (a_loc a)) + a_free a = cap \<and> (\<forall>p. a_q a True p = []) \<and>
     ask_depth a = d"

lemma asks_of_init: "asks_of n 0 0 (spec_init n)"
proof -
  have "a_q (spec_init n) s p = []" for s p by (simp add: spec_init_def)
  then show ?thesis using spec_init_awf by (simp add: asks_of_def positive_def ask_depth_def) (simp add: spec_init_def)
qed

lemma total_concat: "total (concat xss) = sum_list (map total xss)"
  by (induction xss) auto

lemma depth_eligible: "total (eligible a True top_price) = ask_depth a"
proof -
  have "crossing True top_price = [0..<MAX_PRICES]" by (simp add: crossing_def top_price_def MAX_PRICES_def)
  then show ?thesis
    by (simp add: ask_depth_def eligible_def total_concat comp_def interv_sum_list_conv_sum_set_nat atLeast0LessThan)
qed

lemma depth_add:
  assumes "p < MAX_PRICES"
  shows "(\<Sum>p'<MAX_PRICES. total (if p' = p then xs p @ [(i, q)] else xs p')) = (\<Sum>p'<MAX_PRICES. total (xs p')) + q"
proof -
  have "(\<Sum>p'<MAX_PRICES. total (if p' = p then xs p @ [(i, q)] else xs p')) =
      (\<Sum>p'<MAX_PRICES. total (xs p') + (if p' = p then q else 0))"
    by (rule sum.cong) auto
  also have "\<dots> = (\<Sum>p'<MAX_PRICES. total (xs p')) + q"
    using assms by (simp add: sum.distrib)
  finally show ?thesis .
qed

lemma ask_step:
  assumes a: "asks_of cap k d a" and k: "k < cap" and p: "0 < p" "p < MAX_PRICES" and q: "0 < q"
  shows "fast_submit_ok a k p q False" and "asks_of cap (Suc k) (d + q) (spec_submit a k p q False)"
proof -
  from a have wf: "awf a" and pos: "positive a" and cap: "a_cap a = cap" and dom: "dom (a_loc a) \<subseteq> {..<k}"
    and slots: "card (dom (a_loc a)) + a_free a = cap" and bids: "\<And>p. a_q a True p = []"
    and depth: "ask_depth a = d"
    by (auto simp: asks_of_def)
  have fin: "finite (dom (a_loc a))" using dom finite_subset by blast
  have "card (dom (a_loc a)) \<le> k" using card_mono [OF _ dom] by simp
  then have free: "0 < a_free a" using slots k by simp
  have new: "a_loc a k = None" using dom by blast
  have m: "spec_match a p q False = (a, q)" using wf bids by (intro spec_match_none) auto
  show "fast_submit_ok a k p q False"
    using k cap new p by (simp add: fast_submit_ok_def submit_ok_def m can_add_def runs_off_def)
  let ?a = "spec_add a k p q False"
  have a': "?a = a\<lparr>a_free := a_free a - 1, a_known := insert k (a_known a),
      a_q := upd2 (a_q a) False p (a_q a False p @ [(k, q)]), a_loc := (a_loc a)(k \<mapsto> (False, p))\<rparr>"
    using free p by (simp add: spec_add_def)
  have "awf ?a" by (rule spec_add_awf [OF wf new])
  moreover have "positive ?a" using pos q by (auto simp: positive_def a' upd2_apply split: if_splits)
  moreover have "card (dom (a_loc ?a)) + a_free ?a = cap"
    using new slots free fin by (simp add: a' domIff)
  moreover have "ask_depth ?a = d + q"
    using depth_add [OF p(2), of "a_q a False" k q] depth by (simp add: ask_depth_def a' upd2_apply)
  moreover have "dom (a_loc ?a) \<subseteq> {..<Suc k}" using dom by (auto simp: a' split: if_splits)
  moreover have "a_q ?a True p' = []" for p' using bids by (simp add: a' upd2_apply)
  moreover have "a_cap ?a = cap" using cap by (simp add: a')
  ultimately show "asks_of cap (Suc k) (d + q) (spec_submit a k p q False)"
    using q by (simp add: asks_of_def spec_submit_def m)
qed

lemma buy_step:
  assumes a: "asks_of cap k d a" and q: "q \<le> d"
  shows "fast_submit_ok a i top_price q True"
    and "asks_of cap k (d - q) (spec_submit a i top_price q True)"
proof -
  from a have wf: "awf a" and pos: "positive a" and cap: "a_cap a = cap" and dom: "dom (a_loc a) \<subseteq> {..<k}"
    and slots: "card (dom (a_loc a)) + a_free a = cap" and bids: "\<And>p. a_q a True p = []"
    and depth: "ask_depth a = d"
    by (auto simp: asks_of_def)
  have fin: "finite (dom (a_loc a))" using dom finite_subset by blast
  obtain a' r where m: "spec_match a top_price q True = (a', r)" by fastforce
  note sw = m [unfolded spec_match_def]
  from spec_match_fills [OF m] obtain filled where
    f: "fill (eligible a True top_price) q = (filled, eligible a' True top_price, r)"
    and bids': "\<And>p. a_q a' True p = a_q a True p" by blast
  have r: "r = 0" using fill_amount [OF f] depth q by (simp add: depth_eligible)
  have depth': "ask_depth a' = d - q" using fill_total [OF f] depth r by (simp add: depth_eligible)
  show "fast_submit_ok a i top_price q True" by (simp add: fast_submit_ok_def submit_ok_def m r)
  have "dom (a_loc a') \<subseteq> {..<k}" using sweep_dom [OF wf sw fin] dom by (meson subset_trans)
  then have "asks_of cap k (d - q) a'"
    unfolding asks_of_def
    using spec_match_awf [OF wf m] sweep_positive [OF pos sw] sweep_frame(1) [OF sw] cap
      sweep_dom [OF wf sw fin] slots bids' bids depth' by simp
  then show "asks_of cap k (d - q) (spec_submit a i top_price q True)" by (simp add: spec_submit_def m r)
qed

lemma asks_of_none: "asks_of cap k 0 a \<Longrightarrow> a_loc a = Map.empty \<and> a_free a = cap \<and> (\<forall>s p. a_q a s p = [])"
proof -
  assume a: "asks_of cap k 0 a"
  then have wf: "awf a" and pos: "positive a" by (simp_all add: asks_of_def)
  have "a_q a False p = []" for p
  proof (cases "p < MAX_PRICES")
    case True
    then have z: "total (a_q a False p) = 0" using a by (simp add: asks_of_def ask_depth_def)
    show ?thesis
    proof (cases "a_q a False p")
      case (Cons x xs)
      then have "0 < snd x" using pos unfolding positive_def by (metis list.set_intros(1) prod.collapse)
      then show ?thesis using z Cons by simp
    qed
  next
    case False
    then show ?thesis using awfD(3) [OF wf] by simp
  qed
  then have q: "a_q a s p = []" for s p using a by (cases s) (auto simp: asks_of_def)
  have "a_loc a i = None" for i using awf_loc_None [OF wf, of i] q by simp
  then have "a_loc a = Map.empty" by auto
  with a q show ?thesis by (simp add: asks_of_def)
qed

section \<open>The first two scenarios\<close>

fun each_commands :: "bool \<Rightarrow> u64 list \<Rightarrow> u64 \<Rightarrow> command list" where
  "each_commands is_buy [] k = []"
| "each_commands is_buy (p # ps) k = Submit k p 1 is_buy # each_commands is_buy ps (k + 1)"

lemma submit_each_run: "submit_each ops is_buy ps k b =
    ebind (run_commands ops (each_commands is_buy ps k) b) (\<lambda>b. ret (b, k + of_nat (length ps)))"
proof (induction ps arbitrary: k b)
  case (Cons p ps)
  have "submit_each ops is_buy ps (k + 1) =
      (\<lambda>b. ebind (run_commands ops (each_commands is_buy ps (k + 1)) b) (\<lambda>b. ret (b, k + of_nat (length (p # ps)))))"
    by (simp add: Cons.IH fun_eq_iff algebra_simps)
  then show ?case by (simp add: ebind_assoc)
qed simp

lemma unat_next: "unat k < 18446744073709551615 \<Longrightarrow> unat (k + 1) = Suc (unat k)" for k :: u64
  by (subst unat_add_lem [THEN iffD1]) simp_all

lemma asks_run:
  "\<forall>p \<in> set ps. 0 < unat p \<and> unat p < MAX_PRICES \<Longrightarrow> asks_of cap (unat k) d a \<Longrightarrow>
   unat k + length ps \<le> cap \<Longrightarrow> cap \<le> 4294967295 \<Longrightarrow>
   commands_ok fast_submit_ok (each_commands False ps k) a \<and>
   asks_of cap (unat k + length ps) (d + length ps) (spec_commands (each_commands False ps k) a)"
proof (induction ps arbitrary: k d a)
  case (Cons p ps)
  have k: "unat (k + 1) = Suc (unat k)" using Cons.prems(3,4) by (intro unat_next) simp
  have p: "0 < unat p" "unat p < MAX_PRICES" "unat k < cap" using Cons.prems(1,3) by simp_all
  note step = ask_step [OF Cons.prems(2) p(3,1,2) zero_less_one]
  from Cons.IH [of "k + 1" "Suc d", unfolded k, OF _ step(2) [folded One_nat_def, simplified]] Cons.prems(1,3,4) step(1)
  show ?case by simp
qed simp

lemma buys_run:
  "unat p = top_price \<Longrightarrow> asks_of cap n d a \<Longrightarrow> m \<le> d \<Longrightarrow>
   commands_ok fast_submit_ok (each_commands True (replicate m p) k) a \<and>
   asks_of cap n (d - m) (spec_commands (each_commands True (replicate m p) k) a)"
proof (induction m arbitrary: k d a)
  case (Suc m)
  then have "1 \<le> d" by simp
  from buy_step [OF Suc.prems(2) this, of "unat k"] Suc.IH [OF Suc.prems(1), of "d - 1" _ "k + 1"] Suc.prems(1,3)
  show ?case by simp
qed simp

lemma sparse_asks_shape:
  "length sparse_asks = total_inserted" "\<forall>p \<in> set sparse_asks. 0 < unat p \<and> unat p < MAX_PRICES"
proof -
  show "length sparse_asks = total_inserted"
    by (simp add: sparse_asks_def sparse_prices_def total_inserted_def length_concat sum_list_replicate comp_def
        sum_list_triv)
  have "0 < unat p \<and> unat p < MAX_PRICES" if p: "p \<in> set sparse_prices" for p
  proof -
    from p obtain i where i: "i < 50" and p: "p = of_nat i * (100000 div 50) + 1"
      by (auto simp: sparse_prices_def kSparseLevels_def MAX_PRICES_def)
    have "p = of_nat (i * 2000 + 1)" by (simp add: p)
    then have "unat p = i * 2000 + 1" using i by (simp only: unat_of_nat_u64)
    with i show ?thesis by (simp add: MAX_PRICES_def)
  qed
  then show "\<forall>p \<in> set sparse_asks. 0 < unat p \<and> unat p < MAX_PRICES"
    by (auto simp: sparse_asks_def)
qed

lemma wide_asks_shape:
  "length wide_asks = kWideOrders" "\<forall>p \<in> set wide_asks. 0 < unat p \<and> unat p < MAX_PRICES"
proof -
  show "length wide_asks = kWideOrders" by (simp add: wide_asks_def)
  have "unat (of_nat MAX_PRICES - 1 - of_nat (i mod 10) :: u64) = 99999 - i mod 10" for i
  proof -
    have "i mod 10 \<le> 99999" using mod_less_divisor [of 10 i] by linarith
    then have "(of_nat MAX_PRICES - 1 - of_nat (i mod 10) :: u64) = of_nat (99999 - i mod 10)"
      by (simp add: MAX_PRICES_def of_nat_diff)
    then show ?thesis by (simp only: unat_of_nat_u64)
  qed
  moreover have "i mod 10 < 10" for i :: nat by simp
  ultimately show "\<forall>p \<in> set wide_asks. 0 < unat p \<and> unat p < MAX_PRICES"
    by (auto simp: wide_asks_def MAX_PRICES_def)
qed

lemma unat_top: "unat (of_nat MAX_PRICES - 1 :: u64) = top_price"
  by (simp add: MAX_PRICES_def top_price_def)

text \<open>
  A book whose submits are specified at least where the scanning book's are goes through the
  first two scenarios, and ends up empty.
\<close>

definition all_free :: "abook \<Rightarrow> bool" where
  "all_free a \<longleftrightarrow> a_loc a = Map.empty \<and> a_free a = kMaxOrders \<and> (\<forall>s p. a_q a s p = [])"

locale bench_book = order_book +
  assumes fast_ok: "fast_submit_ok a i p q s \<Longrightarrow> sub_ok a i p q s"
begin

lemma asks_then:
  assumes shaped: "shaped b" and ps: "\<forall>p \<in> set ps. 0 < unat p \<and> unat p < MAX_PRICES" "length ps \<le> kMaxOrders"
    and rest: "\<And>b a. refs b a \<Longrightarrow> asks_of kMaxOrders (length ps) (length ps) a \<Longrightarrow> returns (k (b, of_nat (length ps))) P"
  shows "returns (ebind (bo_init ops b kMaxOrders) (\<lambda>b. ebind (submit_each ops False ps 0 b) k)) P"
proof (rule returns_ebindI [OF init_law [OF shaped]])
  fix b assume b: "refs b (spec_init kMaxOrders)"
  have cap: "kMaxOrders \<le> 4294967295" by (simp add: kMaxOrders_def)
  from asks_run [OF ps(1), of kMaxOrders 0 0 "spec_init kMaxOrders"] ps(2) cap asks_of_init have
    "commands_ok fast_submit_ok (each_commands False ps 0) (spec_init kMaxOrders)" and
    a: "asks_of kMaxOrders (length ps) (length ps) (spec_commands (each_commands False ps 0) (spec_init kMaxOrders))"
    by simp_all
  then have "commands_ok sub_ok (each_commands False ps 0) (spec_init kMaxOrders)"
    by (blast intro: commands_ok_mono fast_ok)
  from run_refines [OF b this] show "returns (ebind (submit_each ops False ps 0 b) k) P"
    unfolding submit_each_run ebind_assoc by (rule returns_ebindI) (simp add: rest [OF _ a])
qed (simp_all add: kMaxOrders_def)

lemma sparse_empties:
  assumes "shaped b"
  shows "returns (scenario_sparse ops b) (\<lambda>b'. \<exists>a. refs b' a \<and> all_free a)"
  unfolding scenario_sparse_def
proof (rule asks_then [OF assms sparse_asks_shape(2)])
  show "length sparse_asks \<le> kMaxOrders"
    by (simp add: sparse_asks_shape total_inserted_def kSparseRounds_def kSparseLevels_def
        kSparseOrdersPerLevel_def kMaxOrders_def)
  fix b a
  assume b: "refs b a" and a: "asks_of kMaxOrders (length sparse_asks) (length sparse_asks) a"
  let ?q = "of_nat total_inserted :: u32" and ?p = "of_nat MAX_PRICES - 1 :: u64" and ?i = "of_nat (length sparse_asks) :: u64"
  have q: "unat ?q = length sparse_asks"
    by (simp add: sparse_asks_shape total_inserted_def kSparseRounds_def kSparseLevels_def kSparseOrdersPerLevel_def)
  note buy = buy_step [OF a order_refl, of "unat ?i"]
  have "sub_ok a (unat ?i) (unat ?p) (unat ?q) True" unfolding unat_top q by (rule fast_ok [OF buy(1)])
  note sub = submit_law [OF b this, unfolded unat_top q]
  have "all_free (spec_submit a (unat ?i) top_price (length sparse_asks) True)"
    using asks_of_none buy(2) by (simp add: all_free_def)
  then show "returns (case (b, ?i) of (b, next_id) \<Rightarrow> bo_submit_order ops b next_id ?p ?q True)
      (\<lambda>b'. \<exists>a. refs b' a \<and> all_free a)"
    by (simp, intro returns_mono [OF sub] exI conjI)
qed

lemma wide_empties:
  assumes "shaped b"
  shows "returns (scenario_wide ops b) (\<lambda>b'. \<exists>a. refs b' a \<and> all_free a)"
  unfolding scenario_wide_def
proof (rule asks_then [OF assms wide_asks_shape(2)])
  show "length wide_asks \<le> kMaxOrders" by (simp add: wide_asks_shape kWideOrders_def kMaxOrders_def)
  fix b a
  assume b: "refs b a" and a: "asks_of kMaxOrders (length wide_asks) (length wide_asks) a"
  let ?cs = "each_commands True (replicate kWideOrders (of_nat MAX_PRICES - 1)) (of_nat (length wide_asks))"
  from buys_run [OF unat_top a, of kWideOrders] have ok: "commands_ok fast_submit_ok ?cs a"
    and "asks_of kMaxOrders (length wide_asks) 0 (spec_commands ?cs a)" by (simp_all add: wide_asks_shape)
  then have "all_free (spec_commands ?cs a)" using asks_of_none by (auto simp: all_free_def)
  moreover have "commands_ok sub_ok ?cs a" using ok by (rule commands_ok_mono [rotated]) (rule fast_ok)
  ultimately show "returns (case (b, of_nat (length wide_asks)) of (b, next_id) \<Rightarrow>
      ebind (submit_each ops True (replicate kWideOrders (of_nat MAX_PRICES - 1)) next_id b) (\<lambda>(b, _). ret b))
      (\<lambda>b'. \<exists>a. refs b' a \<and> all_free a)"
    by (simp add: submit_each_run ebind_assoc ebind_ret_id, intro returns_mono [OF run_refines [OF b]] exI conjI)
qed

end

interpretation bitset_bench: bench_book bitset_ops array_shaped bitset_refines submit_ok
  by unfold_locales (rule fast_ok_submit_ok)

interpretation fast_bench: bench_book fast_ops array_shaped refines fast_submit_ok
  by unfold_locales

section \<open>The churn scenario\<close>

text \<open>
  What the churn issues: every submit has a new id within the pool, a price on the ladder and a
  quantity, every cancel an id submitted and not cancelled before.
\<close>

fun well_issued :: "u64 set \<Rightarrow> u64 set \<Rightarrow> command list \<Rightarrow> bool" where
  "well_issued used open_ids [] = True"
| "well_issued used open_ids (Submit oid price qty is_buy # cs) =
     (oid \<notin> used \<and> unat oid < kMaxOrders \<and> unat price < MAX_PRICES \<and> 0 < qty \<and>
      well_issued (insert oid used) (insert oid open_ids) cs)"
| "well_issued used open_ids (Cancel oid # cs) = (oid \<in> open_ids \<and> well_issued used (open_ids - {oid}) cs)"

definition churn_ok :: "nat \<Rightarrow> u64 set \<Rightarrow> u64 set \<Rightarrow> 'g churn \<Rightarrow> bool" where
  "churn_ok n used open_ids st \<longleftrightarrow> unat (ch_next_id st) + n \<le> kChurnOps \<and> (\<forall>x \<in> used. unat x < unat (ch_next_id st)) \<and>
     set (ch_live_ids st) \<subseteq> open_ids \<and> open_ids \<subseteq> used \<and> distinct (ch_live_ids st)"

lemma swap_remove:
  assumes "i < length xs" and "distinct xs"
  shows "set (butlast (xs[i := last xs])) = set xs - {xs ! i}" and "distinct (butlast (xs[i := last xs]))"
proof -
  from assms(1) obtain ys y where xs: "xs = ys @ [y]" by (metis less_nat_zero_code list.size(3) rev_exhaust)
  have d: "distinct ys" "y \<notin> set ys" using assms(2) by (auto simp: xs)
  have "set (butlast (xs[i := last xs])) = set xs - {xs ! i} \<and> distinct (butlast (xs[i := last xs]))"
  proof (cases "i < length ys")
    case True
    then have "ys ! i \<noteq> y" using d(2) nth_mem by metis
    with True d show ?thesis
      by (auto simp: xs list_update_append nth_append butlast_append set_update_distinct distinct_list_update)
  next
    case False
    then have "i = length ys" using assms(1) by (simp add: xs)
    with d show ?thesis by (simp add: xs)
  qed
  then show "set (butlast (xs[i := last xs])) = set xs - {xs ! i}" and "distinct (butlast (xs[i := last xs]))" by simp_all
qed

lemma one_plus_small: "0 < 1 + r mod 10" for r :: u32
proof -
  have "unat (r mod 10) < 10" by (simp add: unat_mod)
  then have "unat (1 + r mod 10) = Suc (unat (r mod 10))" by (subst unat_add_lem [THEN iffD1]) simp_all
  then show ?thesis by (metis unat_gt_0 zero_less_Suc word_neq_0_conv)
qed

lemma churn_op_ok:
  fixes st :: "'g churn"
  assumes ok: "churn_ok (Suc n) used opens st" and dist: "\<forall>g. unat (fst (price_dist g)) < MAX_PRICES"
  shows "\<exists>c st' used' opens'. churn_op draw price_dist st = ret (c, st') \<and> churn_ok n used' opens' st' \<and>
    (\<forall>cs. well_issued used' opens' cs \<longrightarrow> well_issued used opens (c # cs))"
proof -
  obtain price g1 where p: "price_dist (ch_rng st) = (price, g1)" by fastforce
  obtain r g2 where r: "draw g1 = (r, g2)" by fastforce
  obtain r' g3 where r': "draw g2 = (r', g3)" by fastforce
  obtain r'' g4 where r'': "draw g3 = (r'', g4)" by fastforce
  let ?k = "ch_next_id st" and ?l = "ch_live_ids st"
  let ?idx = "unat r'' mod length ?l" and ?aggr = "if odd r then of_nat MAX_PRICES - 1 else 0 :: u64"
  have k: "unat ?k < kChurnOps" "unat ?k < kMaxOrders" using ok by (auto simp: churn_ok_def kChurnOps_def kMaxOrders_def)
  then have k1: "unat (?k + 1) = Suc (unat ?k)" by (intro unat_next) (simp add: kChurnOps_def)
  have new: "?k \<notin> used" using ok by (auto simp: churn_ok_def)
  have price: "unat price < MAX_PRICES" using dist [THEN spec, of "ch_rng st"] by (simp add: p)
  have aggr: "unat ?aggr < MAX_PRICES" by (simp add: MAX_PRICES_def)
  note run = churn_op_def p r r' r'' Let_def case_prod_conv
  consider "r' mod 10 < 7" | "\<not> r' mod 10 < 7" "r' mod 10 < 9 \<and> ?l \<noteq> []" | "\<not> r' mod 10 < 7" "\<not> (r' mod 10 < 9 \<and> ?l \<noteq> [])"
    by blast
  then show ?thesis
  proof cases
    case 1
    let ?st = "st\<lparr>ch_next_id := ?k + 1, ch_live_ids := ?l @ [?k], ch_rng := g4\<rparr>"
    have "churn_op draw price_dist st = ret (Submit ?k price (1 + r'' mod 10) (odd r), ?st)"
      using 1 by (simp only: run if_True)
    moreover have "churn_ok n (insert ?k used) (insert ?k opens) ?st"
      using ok new k1 by (auto simp: churn_ok_def less_Suc_eq)
    ultimately show ?thesis using new k(2) price one_plus_small by (intro exI conjI) auto
  next
    case 2
    then have idx: "?idx < length ?l" by simp
    let ?st = "st\<lparr>ch_live_ids := butlast (?l[?idx := last ?l]), ch_rng := g4\<rparr>"
    have "churn_op draw price_dist st = ret (Cancel (?l ! ?idx), ?st)"
      using 2 idx by (simp only: run if_True if_False arr_get_in arr_set_in ebind_ret simp_thms)
    moreover have "churn_ok n used (opens - {?l ! ?idx}) ?st"
      using ok swap_remove [OF idx] by (auto simp: churn_ok_def)
    moreover have "well_issued used opens (Cancel (?l ! ?idx) # cs)" if "well_issued used (opens - {?l ! ?idx}) cs" for cs
      using that ok nth_mem [OF idx] by (auto simp: churn_ok_def)
    ultimately show ?thesis by blast
  next
    case 3
    let ?st = "st\<lparr>ch_next_id := ?k + 1, ch_rng := g3\<rparr>"
    have "churn_op draw price_dist st = ret (Submit ?k ?aggr 1 (odd r), ?st)"
      using 3 by (simp only: run if_True if_False)
    moreover have "churn_ok n (insert ?k used) (insert ?k opens) ?st"
      using ok k1 by (auto simp: churn_ok_def less_Suc_eq)
    ultimately show ?thesis using new k(2) aggr by (intro exI conjI) auto
  qed
qed

lemma churn_loop_commands:
  assumes dist: "\<forall>g. unat (fst (price_dist g)) < MAX_PRICES"
  shows "churn_ok n used opens st \<Longrightarrow> \<exists>cs. length cs = n \<and> well_issued used opens cs \<and>
    (\<forall>b. churn_loop ops draw price_dist n st b = run_commands ops cs b)"
proof (induction n arbitrary: used opens st)
  case (Suc n)
  from churn_op_ok [OF Suc.prems dist] obtain c st' used' opens' where
    c: "churn_op draw price_dist st = ret (c, st')" and ok: "churn_ok n used' opens' st'"
    and w: "\<forall>cs. well_issued used' opens' cs \<longrightarrow> well_issued used opens (c # cs)" by blast
  from Suc.IH [OF ok] obtain cs where cs: "length cs = n" "well_issued used' opens' cs"
    "churn_loop ops draw price_dist n st' = run_commands ops cs" by blast
  then show ?case using w by (intro exI [of _ "c # cs"]) (simp add: c)
qed simp

lemma churn_start: "churn_ok kChurnOps {} {} \<lparr>ch_next_id = 0, ch_live_ids = [], ch_rng = g\<rparr>"
  by (simp add: churn_ok_def)

lemma scenario_churn_commands:
  assumes "\<forall>g. unat (fst (price_dist g)) < MAX_PRICES"
  shows "\<exists>cs. length cs = kChurnOps \<and> well_issued {} {} cs \<and>
    scenario_churn ops draw price_dist seeded b = ebind (bo_init ops b kMaxOrders) (run_commands ops cs)"
proof -
  from churn_loop_commands [OF assms churn_start, where ops = ops and draw = draw and g1 = seeded] obtain cs where
    "length cs = kChurnOps" "well_issued {} {} cs"
    "churn_loop ops draw price_dist kChurnOps \<lparr>ch_next_id = 0, ch_live_ids = [], ch_rng = seeded\<rparr> = run_commands ops cs"
    by blast
  then show ?thesis by (intro exI [of _ cs]) (simp add: scenario_churn_def)
qed

end
