(* ===== verification/Bench_Replace.thy ===== *)
theory Bench_Replace
  imports Book_Interface
begin

text \<open>
  The workload of \<open>src/benchmark_replace.cpp\<close>: the same random replacements done by
  \<open>replace_order\<close> and by \<open>cancel_order\<close> with \<open>submit_order\<close>.  The random number generator and the
  uniform distributions are parameters.  Both ways leave the same side, price and quantity for
  every order, since bids and asks never meet.
\<close>

section \<open>The workload\<close>

definition kReplaceMaxOrders :: nat where "kReplaceMaxOrders = 100000"
definition kLiveOrders :: nat where "kLiveOrders = 10000"
definition kNumOps :: nat where "kNumOps = 1000000"

text \<open>
  A call of the generator, and a draw from \<open>std::uniform_int_distribution\<close> between two bounds;
  \<open>'g\<close> is the generator's state.
\<close>

record 'g randomness =
  mt_draw :: "'g \<Rightarrow> u32 \<times> 'g"
  uniform64 :: "u64 \<Rightarrow> u64 \<Rightarrow> 'g \<Rightarrow> u64 \<times> 'g"
  uniform32 :: "u32 \<Rightarrow> u32 \<Rightarrow> 'g \<Rightarrow> u32 \<times> 'g"

record Operation =
  op_id :: u64
  op_new_price :: u64
  op_new_qty :: u32
  op_is_buy :: bool

definition bid_dist :: "'g randomness \<Rightarrow> 'g \<Rightarrow> u64 \<times> 'g" where
  "bid_dist R = uniform64 R 100 (of_nat MAX_PRICES div 2 - 1)"

definition ask_dist :: "'g randomness \<Rightarrow> 'g \<Rightarrow> u64 \<times> 'g" where
  "ask_dist R = uniform64 R (of_nat MAX_PRICES div 2) (of_nat MAX_PRICES - 100)"

definition qty_dist :: "'g randomness \<Rightarrow> 'g \<Rightarrow> u32 \<times> 'g" where
  "qty_dist R = uniform32 R 1 100"

fun seed_loop :: "'g randomness \<Rightarrow> nat list \<Rightarrow> 'g \<Rightarrow> bitset_book \<Rightarrow> bitset_book exec" where
  "seed_loop R [] g b = ret b"
| "seed_loop R (i # is) g b =
     (let is_buy = even i;
          (price, g1) = (if is_buy then bid_dist R g else ask_dist R g);
          (qty, g2) = qty_dist R g1 in
      ebind (submit_order b (of_nat i) price qty is_buy) (seed_loop R is g2))"

definition seed_book :: "'g randomness \<Rightarrow> 'g \<Rightarrow> bitset_book \<Rightarrow> bitset_book exec" where
  "seed_book R g b = ebind (init b kReplaceMaxOrders) (seed_loop R [0..<kLiveOrders] g)"

fun generate_ops :: "'g randomness \<Rightarrow> nat \<Rightarrow> 'g \<Rightarrow> Operation list" where
  "generate_ops R 0 g = []"
| "generate_ops R (Suc n) g =
     (let (r, g1) = mt_draw R g;
          target_id = ucast r mod of_nat kLiveOrders :: u64;
          is_buy = (target_id mod 2 = 0);
          (price, g2) = (if is_buy then bid_dist R g1 else ask_dist R g1);
          (qty, g3) = qty_dist R g2 in
      \<lparr>op_id = target_id, op_new_price = price, op_new_qty = qty, op_is_buy = is_buy\<rparr> # generate_ops R n g3)"

fun replace_all :: "Operation list \<Rightarrow> bitset_book \<Rightarrow> bitset_book exec" where
  "replace_all [] b = ret b"
| "replace_all (op # ops) b =
     ebind (replace_order b (op_id op) (op_new_price op) (op_new_qty op)) (replace_all ops)"

fun cancel_submit_all :: "Operation list \<Rightarrow> bitset_book \<Rightarrow> bitset_book exec" where
  "cancel_submit_all [] b = ret b"
| "cancel_submit_all (op # ops) b =
     ebind (cancel_order b (op_id op)) (\<lambda>b.
     ebind (submit_order b (op_id op) (op_new_price op) (op_new_qty op) (op_is_buy op))
       (cancel_submit_all ops))"

text \<open>\<open>main\<close>: the book after each scenario; the second seeds the same book again.\<close>

definition replace_main :: "'g randomness \<Rightarrow> 'g \<Rightarrow> 'g \<Rightarrow> bitset_book \<Rightarrow> (bitset_book \<times> bitset_book) exec" where
  "replace_main R op_rng seed_rng b =
     (let ops = generate_ops R kNumOps op_rng in
      ebind (ebind (seed_book R seed_rng b) (replace_all ops)) (\<lambda>b1.
      ebind (ebind (seed_book R seed_rng b1) (cancel_submit_all ops)) (\<lambda>b2.
      ret (b1, b2))))"

section \<open>Open orders\<close>

text \<open>The side, price and open quantity of every resting order.\<close>

definition open_orders :: "abook \<Rightarrow> nat \<rightharpoonup> bool \<times> nat \<times> nat" where
  "open_orders a i = (case a_loc a i of None \<Rightarrow> None | Some (s, p) \<Rightarrow> Some (s, p, spec_get_quantity a i))"

lemma dom_open_orders: "dom (open_orders a) = dom (a_loc a)"
  by (auto simp: open_orders_def split: option.splits)

lemma open_orders_Some:
  "open_orders a i = Some (s, p, q) \<longleftrightarrow> a_loc a i = Some (s, p) \<and>
     q = (case map_of (a_q a s p) i of None \<Rightarrow> 0 | Some q \<Rightarrow> q)"
  by (auto simp: open_orders_def spec_get_quantity_def split: option.splits)

lemma open_orders_eqI:
  assumes "\<And>j. a_loc a' j = (if j = i then Some (s, p) else a_loc a j)"
    and "map_of (a_q a' s p) i = Some q"
    and "\<And>j s' p'. j \<noteq> i \<Longrightarrow> map_of (a_q a' s' p') j = map_of (a_q a s' p') j"
  shows "open_orders a' = (open_orders a)(i \<mapsto> (s, p, q))"
  using assms by (auto simp: fun_eq_iff open_orders_def spec_get_quantity_def split: option.splits)

lemma map_of_drop_id: "j \<noteq> i \<Longrightarrow> map_of (drop_id i xs) j = map_of xs j"
  by (induction xs) (auto simp: drop_id_def)

lemma map_of_dropped [simp]: "map_of (drop_id i xs) i = None"
  by (induction xs) (auto simp: drop_id_def)

lemma map_of_set_qty: "map_of (set_qty i q xs) j = (if j = i \<and> map_of xs i \<noteq> None then Some q else map_of xs j)"
proof (induction xs)
  case (Cons x xs)
  then show ?case by (cases x) (auto simp: set_qty_def split: if_splits)
qed (simp add: set_qty_def)

lemma one_under: "([i \<mapsto> q] ++ m) j = (if m j = None \<and> j = i then Some q else m j)"
  by (auto simp: map_add_def split: option.splits)

lemma open_orders_add:
  assumes wf: "awf a" and new: "a_loc a i = None" and "0 < a_free a" and "p < MAX_PRICES"
  shows "open_orders (spec_add a i p q s) = (open_orders a)(i \<mapsto> (s, p, q))"
proof (rule open_orders_eqI)
  have "map_of (a_q a s p) i = None"
    using awf_loc_None [OF wf, of i] new by (metis map_of_eq_None_iff)
  then show "map_of (a_q (spec_add a i p q s) s p) i = Some q"
    using assms by (simp add: spec_add_def one_under)
qed (use assms in \<open>auto simp: spec_add_def upd2_apply one_under\<close>)

lemma open_orders_replace:
  assumes wf: "awf a" and loc: "a_loc a i = Some (s, p)"
  shows "open_orders (spec_replace a i p' q) = (open_orders a)(i \<mapsto> (s, p', q))"
proof (cases "p \<noteq> p' \<or> (spec_get_quantity a i < q \<and> length (a_q a s p) \<noteq> 1)")
  case True
  then have r: "spec_replace a i p' q = spec_link (spec_unlink a i s p) i s p' q"
    using loc by (simp add: spec_replace_def)
  have one: "map_of (a_q a s p') i = None" if "p' \<noteq> p"
    using awfD(1) [OF wf, of i s p'] loc that by (auto simp: map_of_eq_None_iff)
  show ?thesis
    unfolding r using one
    by (intro open_orders_eqI) (auto simp: spec_link_def spec_unlink_def upd2_apply one_under map_of_drop_id)
next
  case False
  then have r: "spec_replace a i p' q = a\<lparr>a_q := upd2 (a_q a) s p (set_qty i q (a_q a s p))\<rparr>" and p: "p' = p"
    using loc by (auto simp: spec_replace_def)
  have "map_of (a_q a s p) i \<noteq> None" using awfD(1) [OF wf] loc by (auto simp: map_of_eq_None_iff)
  then show ?thesis
    unfolding r by (intro open_orders_eqI) (auto simp: p upd2_apply map_of_set_qty loc)
qed

section \<open>A book whose sides cannot meet\<close>

text \<open>
  The resting orders are those below \<open>n\<close>, even ids bid below the middle of the ladder and odd
  ids ask from the middle on; nothing was ever matched.
\<close>

definition in_range :: "bool \<Rightarrow> nat \<Rightarrow> bool" where
  "in_range s p \<longleftrightarrow> p < MAX_PRICES \<and> (s \<longleftrightarrow> p < MAX_PRICES div 2)"

definition apart :: "nat set \<Rightarrow> abook \<Rightarrow> bool" where
  "apart D a \<longleftrightarrow> awf a \<and> dom (a_loc a) = D \<and> D \<subseteq> {..<kLiveOrders} \<and> a_cap a = kReplaceMaxOrders \<and>
     card D + a_free a = kReplaceMaxOrders \<and> (\<forall>s p. \<not> a_stale a s p) \<and>
     (\<forall>i s p. a_loc a i = Some (s, p) \<longrightarrow> (s \<longleftrightarrow> even i) \<and> in_range s p)"

lemma apart_init: "apart {} (spec_init kReplaceMaxOrders)"
  using spec_init_awf by (simp add: apart_def spec_init_def)

lemma apart_no_match:
  assumes a: "apart D a" and p: "in_range s p"
  shows "spec_match a p q s = (a, q)"
proof -
  have wf: "awf a" using a by (simp add: apart_def)
  have "a_q a (\<not> s) p' = []" if "if s then p' \<le> p else p \<le> p'" for p'
  proof (rule ccontr)
    assume "a_q a (\<not> s) p' \<noteq> []"
    then obtain i where "i \<in> fst ` set (a_q a (\<not> s) p')" by (metis ex_in_conv image_is_empty set_empty)
    then have "a_loc a i = Some (\<not> s, p')" using awfD(1) [OF wf] by blast
    then have "in_range (\<not> s) p'" using a unfolding apart_def by blast
    then show False using p that by (auto simp: in_range_def split: if_splits)
  qed
  then show ?thesis using wf by (intro spec_match_none) auto
qed

lemma apart_free: "apart D a \<Longrightarrow> 0 < a_free a"
proof -
  assume a: "apart D a"
  then have "card D \<le> kLiveOrders" using card_mono [of "{..<kLiveOrders}" D] by (auto simp: apart_def)
  with a show ?thesis by (auto simp: apart_def kLiveOrders_def kReplaceMaxOrders_def)
qed

lemma apart_submit:
  assumes a: "apart D a" and i: "i \<notin> D" "i < kLiveOrders" and p: "in_range (even i) p" and q: "0 < q"
  shows "submit_ok a i p q (even i)" and "apart (insert i D) (spec_submit a i p q (even i))"
    and "open_orders (spec_submit a i p q (even i)) = (open_orders a)(i \<mapsto> (even i, p, q))"
proof -
  note free = apart_free [OF a]
  have wf: "awf a" and new: "a_loc a i = None" and fin: "finite D" and pm: "p < MAX_PRICES"
    using a i p finite_subset by (auto simp: apart_def in_range_def)
  note m = apart_no_match [OF a p, of q]
  have sub: "spec_submit a i p q (even i) = spec_add a i p q (even i)" using q by (simp add: spec_submit_def m)
  show "submit_ok a i p q (even i)"
    using a i new by (simp add: submit_ok_def m can_add_def apart_def kLiveOrders_def kReplaceMaxOrders_def)
  show "open_orders (spec_submit a i p q (even i)) = (open_orders a)(i \<mapsto> (even i, p, q))"
    unfolding sub by (rule open_orders_add [OF wf new free pm])
  have "awf (spec_add a i p q (even i))" by (rule spec_add_awf [OF wf new])
  then show "apart (insert i D) (spec_submit a i p q (even i))"
    using a i p pm free fin unfolding sub by (auto simp: apart_def spec_add_def)
qed

lemma apart_replace:
  assumes a: "apart D a" and i: "i \<in> D" and p: "in_range (even i) p"
  shows "replace_ok a i p q" and "apart D (spec_replace a i p q)"
    and "open_orders (spec_replace a i p q) = (open_orders a)(i \<mapsto> (even i, p, q))"
proof -
  have wf: "awf a" using a by (simp add: apart_def)
  obtain s p0 where loc: "a_loc a i = Some (s, p0)" using a i by (auto simp: apart_def)
  then have s: "s = even i" using a by (auto simp: apart_def)
  have pm: "p < MAX_PRICES" using p by (simp add: in_range_def)
  show "replace_ok a i p q"
    using a loc pm awfD(4) [OF wf] by (auto simp: replace_ok_def known_id_def can_unlink_def apart_def)
  show "open_orders (spec_replace a i p q) = (open_orders a)(i \<mapsto> (even i, p, q))"
    using open_orders_replace [OF wf loc] s by simp
  have "a_loc (spec_replace a i p q) = (a_loc a)(i \<mapsto> (s, p))"
    using loc by (auto simp: spec_replace_def spec_link_def spec_unlink_def)
  moreover have "a_cap (spec_replace a i p q) = a_cap a" "a_free (spec_replace a i p q) = a_free a"
    using loc by (auto simp: spec_replace_def spec_link_def spec_unlink_def)
  moreover have "\<not> a_stale (spec_replace a i p q) s' p'" for s' p'
    using a loc by (auto simp: apart_def spec_replace_def spec_link_def spec_unlink_def upd2_apply)
  ultimately show "apart D (spec_replace a i p q)"
    using a i p s spec_replace_awf [OF wf pm, of i q] by (auto simp: apart_def insert_absorb)
qed

lemma apart_cancel:
  assumes a: "apart D a" and i: "i \<in> D"
  shows "known_id a i \<and> can_unlink a i" and "apart (D - {i}) (spec_cancel a i)"
    and "\<And>x. (open_orders (spec_cancel a i))(i \<mapsto> x) = (open_orders a)(i \<mapsto> x)"
proof -
  have wf: "awf a" and fin: "finite D" using a finite_subset by (auto simp: apart_def)
  obtain s p where loc: "a_loc a i = Some (s, p)" using a i by (auto simp: apart_def)
  show "known_id a i \<and> can_unlink a i"
    using a loc awfD(4) [OF wf] by (auto simp: known_id_def can_unlink_def apart_def)
  have c: "spec_cancel a i = (spec_unlink a i s p)\<lparr>a_free := Suc (a_free a)\<rparr>" using loc by (simp add: spec_cancel_def)
  have "Suc (card (D - {i})) = card D" using fin i by (metis card_Suc_Diff1)
  then show "apart (D - {i}) (spec_cancel a i)"
    using a spec_cancel_awf [OF wf, of i] unfolding c by (auto simp: apart_def spec_unlink_def upd2_apply)
  show "(open_orders (spec_cancel a i))(i \<mapsto> x) = (open_orders a)(i \<mapsto> x)" for x
    unfolding c by (auto simp: fun_eq_iff open_orders_def spec_get_quantity_def spec_unlink_def upd2_apply
        map_of_drop_id split: option.splits)
qed

section \<open>The two scenarios\<close>

text \<open>What the distributions promise: a value between the bounds.\<close>

definition uniform_in_bounds :: "'g randomness \<Rightarrow> bool" where
  "uniform_in_bounds R \<longleftrightarrow>
     (\<forall>lo hi g. lo \<le> hi \<longrightarrow> lo \<le> fst (uniform64 R lo hi g) \<and> fst (uniform64 R lo hi g) \<le> hi) \<and>
     (\<forall>lo hi g. lo \<le> hi \<longrightarrow> lo \<le> fst (uniform32 R lo hi g) \<and> fst (uniform32 R lo hi g) \<le> hi)"

text \<open>The orders that seeding opens, and what an operation makes of them.\<close>

fun seed_orders :: "'g randomness \<Rightarrow> nat list \<Rightarrow> 'g \<Rightarrow> (nat \<rightharpoonup> bool \<times> nat \<times> nat) \<Rightarrow> nat \<rightharpoonup> bool \<times> nat \<times> nat" where
  "seed_orders R [] g m = m"
| "seed_orders R (i # is) g m =
     (let (price, g1) = (if even i then bid_dist R g else ask_dist R g); (qty, g2) = qty_dist R g1 in
      seed_orders R is g2 (m(i \<mapsto> (even i, unat price, unat qty))))"

definition op_effect :: "Operation \<Rightarrow> (nat \<rightharpoonup> bool \<times> nat \<times> nat) \<Rightarrow> nat \<rightharpoonup> bool \<times> nat \<times> nat" where
  "op_effect op m = m(unat (op_id op) \<mapsto> (op_is_buy op, unat (op_new_price op), unat (op_new_qty op)))"

lemma price_draw:
  assumes "uniform_in_bounds R" and "(if s then bid_dist R g else ask_dist R g) = (price, g1)"
  shows "in_range s (unat price)"
proof -
  have "(100 :: u64) \<le> 49999" "(50000 :: u64) \<le> 99900" by simp_all
  then have "if s then price \<le> 49999 else 50000 \<le> price \<and> price \<le> 99900"
    using assms by (cases s) (auto simp: uniform_in_bounds_def bid_dist_def ask_dist_def MAX_PRICES_def dest!: arg_cong [where f = fst])
  then show ?thesis by (cases s) (auto simp: in_range_def MAX_PRICES_def word_le_nat_alt)
qed

lemma qty_draw:
  assumes "uniform_in_bounds R" and "qty_dist R g = (qty, g1)"
  shows "0 < unat qty"
proof -
  have "(1 :: u32) \<le> 100" by simp
  then have "1 \<le> qty" using assms by (auto simp: uniform_in_bounds_def qty_dist_def dest!: arg_cong [where f = fst])
  then show ?thesis by (simp add: word_le_nat_alt)
qed

lemma seed_loop_returns:
  assumes R: "uniform_in_bounds R"
  shows "distinct is \<Longrightarrow> set is \<inter> D = {} \<Longrightarrow> set is \<subseteq> {..<kLiveOrders} \<Longrightarrow> bitset_refines b a \<Longrightarrow> apart D a \<Longrightarrow>
    returns (seed_loop R is g b) (\<lambda>b'. \<exists>a'. bitset_refines b' a' \<and> apart (D \<union> set is) a' \<and>
      open_orders a' = seed_orders R is g (open_orders a))"
proof (induction "is" arbitrary: D b a g)
  case (Cons i "is")
  obtain price g1 where p: "(if even i then bid_dist R g else ask_dist R g) = (price, g1)" by fastforce
  obtain qty g2 where q: "qty_dist R g1 = (qty, g2)" by fastforce
  have i: "i \<notin> D" "i < kLiveOrders" "unat (of_nat i :: u64) = i" using Cons.prems(2,3) by (auto simp: kLiveOrders_def)
  note step = apart_submit [OF Cons.prems(5) i(1,2) price_draw [OF R p] qty_draw [OF R q]]
  have "returns (submit_order b (of_nat i) price qty (even i))
      (\<lambda>b'. bitset_refines b' (spec_submit a i (unat price) (unat qty) (even i)))"
    using submit_order_refines [OF Cons.prems(4), of "of_nat i" price qty "even i"] step(1) by (simp add: i)
  then show ?case
  proof (simp only: seed_loop.simps seed_orders.simps Let_def p q case_prod_conv, elim returns_ebindI)
    fix b' assume "bitset_refines b' (spec_submit a i (unat price) (unat qty) (even i))"
    note rest = Cons.IH [OF _ _ _ this step(2), of g2]
    have "insert i D \<union> set is = D \<union> set (i # is)" by simp
    with rest Cons.prems(1-3) show "returns (seed_loop R is g2 b') (\<lambda>b'. \<exists>a'. bitset_refines b' a' \<and>
        apart (D \<union> set (i # is)) a' \<and>
        open_orders a' = seed_orders R is g2 ((open_orders a)(i \<mapsto> (even i, unat price, unat qty))))"
      unfolding step(3) [symmetric] by (metis disjoint_insert(1) distinct.simps(2) insert_disjoint(1) insert_subset list.simps(15))
  qed
qed auto

lemma seed_book_returns:
  assumes "uniform_in_bounds R" and "array_shaped b"
  shows "returns (seed_book R g b) (\<lambda>b'. \<exists>a. bitset_refines b' a \<and> apart {..<kLiveOrders} a \<and>
    open_orders a = seed_orders R [0..<kLiveOrders] g Map.empty)"
  unfolding seed_book_def
proof (rule returns_ebindI [OF init_refines])
  have none: "open_orders (spec_init kReplaceMaxOrders) = Map.empty" by (auto simp: open_orders_def spec_init_def)
  fix b' assume "bitset_refines b' (spec_init kReplaceMaxOrders)"
  from seed_loop_returns [OF assms(1) _ _ _ this apart_init, of "[0..<kLiveOrders]" g]
  show "returns (seed_loop R [0..<kLiveOrders] g b') (\<lambda>b'. \<exists>a. bitset_refines b' a \<and> apart {..<kLiveOrders} a \<and>
      open_orders a = seed_orders R [0..<kLiveOrders] g Map.empty)"
    by (simp add: atLeast0LessThan lessThan_def none)
qed (use assms(2) in \<open>simp_all add: array_shaped_def kReplaceMaxOrders_def\<close>)

text \<open>An operation of the workload keeps to its order's side of the ladder.\<close>

definition op_apart :: "Operation \<Rightarrow> bool" where
  "op_apart op \<longleftrightarrow> unat (op_id op) < kLiveOrders \<and> op_is_buy op = even (unat (op_id op)) \<and>
     in_range (op_is_buy op) (unat (op_new_price op)) \<and> 0 < unat (op_new_qty op)"

lemma generate_ops_apart: "uniform_in_bounds R \<Longrightarrow> \<forall>op \<in> set (generate_ops R n g). op_apart op"
proof (induction n arbitrary: g)
  case (Suc n)
  obtain r g1 where r: "mt_draw R g = (r, g1)" by fastforce
  let ?id = "ucast r mod of_nat kLiveOrders :: u64"
  let ?s = "?id mod 2 = 0"
  obtain price g2 where p: "(if ?s then bid_dist R g1 else ask_dist R g1) = (price, g2)" by fastforce
  obtain qty g3 where q: "qty_dist R g2 = (qty, g3)" by fastforce
  have "unat ?id < kLiveOrders" by (simp add: unat_mod kLiveOrders_def)
  moreover have "?s \<longleftrightarrow> even (unat ?id)" by (simp add: even_iff_mod_2_eq_zero unat_mod [symmetric] word_arith_nat_mod flip: unat_eq_0)
  ultimately have "op_apart \<lparr>op_id = ?id, op_new_price = price, op_new_qty = qty, op_is_buy = ?s\<rparr>"
    using price_draw [OF Suc.prems p] qty_draw [OF Suc.prems q] by (simp add: op_apart_def)
  then show ?case using Suc by (simp add: r Let_def p q)
qed simp

lemma replace_step:
  assumes "bitset_refines b a" and "apart {..<kLiveOrders} a" and "op_apart op"
  shows "returns (replace_order b (op_id op) (op_new_price op) (op_new_qty op)) (\<lambda>b'. \<exists>a'. bitset_refines b' a' \<and>
    apart {..<kLiveOrders} a' \<and> open_orders a' = op_effect op (open_orders a))"
proof -
  have i: "unat (op_id op) \<in> {..<kLiveOrders}" and p: "in_range (even (unat (op_id op))) (unat (op_new_price op))"
    using assms(3) by (auto simp: op_apart_def)
  note step = apart_replace [OF assms(2) i p, of "unat (op_new_qty op)"]
  from replace_order_refines [OF assms(1) step(1)] step(2,3) assms(3) show ?thesis
    by (auto simp: op_effect_def op_apart_def elim!: returns_mono)
qed

lemma cancel_submit_step:
  assumes "bitset_refines b a" and a: "apart {..<kLiveOrders} a" and op: "op_apart op"
  shows "returns (ebind (cancel_order b (op_id op)) (\<lambda>b.
      submit_order b (op_id op) (op_new_price op) (op_new_qty op) (op_is_buy op))) (\<lambda>b'. \<exists>a'. bitset_refines b' a' \<and>
    apart {..<kLiveOrders} a' \<and> open_orders a' = op_effect op (open_orders a))"
proof -
  let ?i = "unat (op_id op)"
  have i: "?i \<in> {..<kLiveOrders}" and p: "in_range (even ?i) (unat (op_new_price op))"
    and q: "0 < unat (op_new_qty op)" and s: "op_is_buy op = even ?i"
    using op by (auto simp: op_apart_def)
  note cancel = apart_cancel [OF a i]
  have "?i \<notin> {..<kLiveOrders} - {?i}" "?i < kLiveOrders" "insert ?i ({..<kLiveOrders} - {?i}) = {..<kLiveOrders}"
    using i by auto
  note submit = apart_submit [OF cancel(2) this(1,2) p q, unfolded this(3)]
  have "returns (cancel_order b (op_id op)) (\<lambda>b'. bitset_refines b' (spec_cancel a ?i))"
    using cancel_order_refines [OF assms(1)] cancel(1) by blast
  then show ?thesis
  proof (rule returns_ebindI)
    fix b' assume "bitset_refines b' (spec_cancel a ?i)"
    from submit_order_refines [OF this submit(1)] submit(2,3) show
      "returns (submit_order b' (op_id op) (op_new_price op) (op_new_qty op) (op_is_buy op)) (\<lambda>b'. \<exists>a'. bitset_refines b' a' \<and>
        apart {..<kLiveOrders} a' \<and> open_orders a' = op_effect op (open_orders a))"
      by (auto simp: op_effect_def s cancel(3) elim!: returns_mono)
  qed
qed

text \<open>Two loops over the operations, by the same induction.\<close>

lemma loop_effects:
  assumes nil: "\<And>b. loop [] b = ret b" and cons: "\<And>op ops b. loop (op # ops) b = ebind (step op b) (loop ops)"
    and step: "\<And>op b a. bitset_refines b a \<Longrightarrow> apart {..<kLiveOrders} a \<Longrightarrow> op_apart op \<Longrightarrow>
      returns (step op b) (\<lambda>b'. \<exists>a'. bitset_refines b' a' \<and> apart {..<kLiveOrders} a' \<and>
        open_orders a' = op_effect op (open_orders a))"
  shows "\<forall>op \<in> set ops. op_apart op \<Longrightarrow> bitset_refines b a \<Longrightarrow> apart {..<kLiveOrders} a \<Longrightarrow>
    returns (loop ops b) (\<lambda>b'. \<exists>a'. bitset_refines b' a' \<and> apart {..<kLiveOrders} a' \<and>
      open_orders a' = fold op_effect ops (open_orders a))"
proof (induction ops arbitrary: b a)
  case (Cons op ops)
  have op: "op_apart op" "\<forall>op \<in> set ops. op_apart op" using Cons.prems(1) by simp_all
  show ?case
    unfolding cons
  proof (rule returns_ebindI [OF step [OF Cons.prems(2,3) op(1)]], elim exE conjE)
    fix b' a' assume a': "bitset_refines b' a'" "apart {..<kLiveOrders} a'" "open_orders a' = op_effect op (open_orders a)"
    from Cons.IH [OF op(2) a'(1,2)] show "returns (loop ops b') (\<lambda>b'. \<exists>a'. bitset_refines b' a' \<and>
        apart {..<kLiveOrders} a' \<and> open_orders a' = fold op_effect (op # ops) (open_orders a))"
      by (simp add: a'(3))
  qed
qed (auto simp: nil)

lemma replace_all_returns:
  assumes "\<forall>op \<in> set ops. op_apart op" and "bitset_refines b a" and "apart {..<kLiveOrders} a"
  shows "returns (replace_all ops b) (\<lambda>b'. \<exists>a'. bitset_refines b' a' \<and> apart {..<kLiveOrders} a' \<and>
      open_orders a' = fold op_effect ops (open_orders a))"
  by (rule loop_effects [OF replace_all.simps replace_step assms])

lemma cancel_submit_all_returns:
  assumes "\<forall>op \<in> set ops. op_apart op" and "bitset_refines b a" and "apart {..<kLiveOrders} a"
  shows "returns (cancel_submit_all ops b) (\<lambda>b'. \<exists>a'. bitset_refines b' a' \<and> apart {..<kLiveOrders} a' \<and>
      open_orders a' = fold op_effect ops (open_orders a))"
  by (rule loop_effects [OF cancel_submit_all.simps(1) cancel_submit_all.simps(2) [folded ebind_assoc] cancel_submit_step assms])

lemma refines_shaped: "refines b a \<Longrightarrow> array_shaped b"
proof -
  assume "refines b a"
  then obtain F Q where "links b F Q (a_stale a)" by (auto simp: refines_def rep_def)
  from linksD(2) [OF this, of True] linksD(2) [OF this, of False] show ?thesis by (simp add: array_shaped_def levels_def)
qed

lemma bitset_refines_shaped: "bitset_refines b a \<Longrightarrow> array_shaped b"
  using refines_shaped by (auto simp: bitset_refines_def)

lemma seed_then:
  assumes "uniform_in_bounds R" and "array_shaped b"
    and loop: "\<And>b a. bitset_refines b a \<Longrightarrow> apart {..<kLiveOrders} a \<Longrightarrow> returns (loop b) (\<lambda>b'. \<exists>a'. bitset_refines b' a' \<and>
      apart {..<kLiveOrders} a' \<and> open_orders a' = f (open_orders a))"
  shows "returns (ebind (seed_book R g b) loop) (\<lambda>b'. \<exists>a. bitset_refines b' a \<and>
    open_orders a = f (seed_orders R [0..<kLiveOrders] g Map.empty) \<and> dom (open_orders a) = {..<kLiveOrders})"
proof (rule returns_ebindI [OF seed_book_returns [OF assms(1,2)]], elim exE conjE)
  fix b' a assume a: "bitset_refines b' a" "apart {..<kLiveOrders} a"
    and m: "open_orders a = seed_orders R [0..<kLiveOrders] g Map.empty"
  show "returns (loop b') (\<lambda>b'. \<exists>a. bitset_refines b' a \<and>
      open_orders a = f (seed_orders R [0..<kLiveOrders] g Map.empty) \<and> dom (open_orders a) = {..<kLiveOrders})"
    by (rule returns_mono [OF loop [OF a]]) (auto simp: m dom_open_orders apart_def)
qed

lemma replace_main_returns:
  assumes R: "uniform_in_bounds R" and b: "array_shaped b"
  shows "returns (replace_main R op_rng seed_rng b) (\<lambda>(b1, b2). \<exists>a1 a2. bitset_refines b1 a1 \<and> bitset_refines b2 a2 \<and>
    open_orders a1 = open_orders a2 \<and> dom (open_orders a1) = {..<kLiveOrders} \<and>
    open_orders a1 = fold op_effect (generate_ops R kNumOps op_rng)
      (seed_orders R [0..<kLiveOrders] seed_rng Map.empty))"
proof -
  define ops where "ops = generate_ops R kNumOps op_rng"
  define m where "m = fold op_effect ops (seed_orders R [0..<kLiveOrders] seed_rng Map.empty)"
  have ops: "\<forall>op \<in> set ops. op_apart op" unfolding ops_def by (rule generate_ops_apart [OF R])
  let ?goal = "\<lambda>b'. \<exists>a. bitset_refines b' a \<and> open_orders a = m \<and> dom (open_orders a) = {..<kLiveOrders}"
  have A: "returns (ebind (seed_book R seed_rng b) (replace_all ops)) ?goal" if "array_shaped b" for b
    unfolding m_def by (rule seed_then [OF R that], rule replace_all_returns [OF ops])
  have B: "returns (ebind (seed_book R seed_rng b) (cancel_submit_all ops)) ?goal" if "array_shaped b" for b
    unfolding m_def by (rule seed_then [OF R that], rule cancel_submit_all_returns [OF ops])
  show ?thesis
    unfolding replace_main_def Let_def ops_def [symmetric] m_def [symmetric]
  proof (rule returns_ebindI [OF A [OF b]], elim exE conjE)
    fix b1 a1 assume 1: "bitset_refines b1 a1" "open_orders a1 = m" "dom (open_orders a1) = {..<kLiveOrders}"
    show "returns (ebind (ebind (seed_book R seed_rng b1) (cancel_submit_all ops)) (\<lambda>b2. ret (b1, b2)))
      (\<lambda>(b1, b2). \<exists>a1 a2. bitset_refines b1 a1 \<and> bitset_refines b2 a2 \<and>
        open_orders a1 = open_orders a2 \<and> dom (open_orders a1) = {..<kLiveOrders} \<and> open_orders a1 = m)"
      by (rule returns_ebindI [OF B [OF bitset_refines_shaped [OF 1(1)]]], simp, use 1 in metis)
  qed
qed

end
