(* ===== verification/Message_Queue.thy ===== *)
theory Message_Queue
  imports Prelude "HOL-Library.Sublist"
begin

text \<open>
  \<open>OrderMessage\<close> (\<open>src/engine/order_message.h\<close>) and the interface of the queues that carry
  it from the producer to the matching engine.  A queue is a transition system of two
  threads; its contract says what the consumer has received, against what the producer has
  sent.
\<close>

section \<open>Messages\<close>

datatype msg_type = SUBMIT | CANCEL | SHUTDOWN

record OrderMessage =
  m_id :: u64
  m_price :: u64
  m_qty :: u32
  m_timestamp :: u64
  m_is_buy :: bool
  m_type :: msg_type

text \<open>\<open>OrderMessage msg {}\<close>: every member is value-initialised.\<close>

definition zero_message :: OrderMessage where
  "zero_message = \<lparr>m_id = 0, m_price = 0, m_qty = 0, m_timestamp = 0, m_is_buy = False, m_type = SUBMIT\<rparr>"

section \<open>Runs of a transition system\<close>

inductive reaches :: "('s \<Rightarrow> 's \<Rightarrow> bool) \<Rightarrow> 's \<Rightarrow> 's \<Rightarrow> bool" for step and s where
  reaches_refl: "reaches step s s"
| reaches_step: "reaches step s t \<Longrightarrow> step t u \<Longrightarrow> reaches step s u"

lemma reaches_trans: "reaches step t u \<Longrightarrow> reaches step s t \<Longrightarrow> reaches step s u"
  by (induction rule: reaches.induct) (auto intro: reaches.intros)

lemma reaches_invariant:
  assumes "reaches step s t" and "I s" and "\<And>t u. I t \<Longrightarrow> step t u \<Longrightarrow> I u"
  shows "I t"
  using assms by (induction rule: reaches.induct) auto

section \<open>The contract of a queue\<close>

text \<open>
  \<open>sent s\<close> and \<open>received s\<close> are the messages of the completed \<open>push\<close> and \<open>pop\<close> calls,
  \<open>started s\<close> counts the \<open>push\<close> calls begun.  \<open>blocked_push\<close> and \<open>blocked_pop\<close> say that a
  thread is inside a call and cannot go on.  The contract is for runs with at most
  \<open>budget\<close> calls of \<open>push\<close> (\<open>None\<close>: any number).
\<close>

definition in_budget :: "nat option \<Rightarrow> nat \<Rightarrow> bool" where
  "in_budget budget n \<longleftrightarrow> (case budget of None \<Rightarrow> True | Some k \<Rightarrow> n \<le> k)"

lemma in_budget_mono: "in_budget budget n \<Longrightarrow> m \<le> n \<Longrightarrow> in_budget budget m"
  by (auto simp: in_budget_def split: option.splits)

locale message_queue =
  fixes start :: 's
    and step :: "'s \<Rightarrow> 's \<Rightarrow> bool"
    and sent :: "'s \<Rightarrow> 'm list"
    and received :: "'s \<Rightarrow> 'm list"
    and started :: "'s \<Rightarrow> nat"
    and blocked_push :: "'s \<Rightarrow> bool"
    and blocked_pop :: "'s \<Rightarrow> bool"
    and budget :: "nat option"
    and inv :: "'s \<Rightarrow> bool"
  assumes start_empty: "sent start = []" "received start = []" "started start = 0"
    and inv_start: "inv start"
    and started_mono: "step s t \<Longrightarrow> started s \<le> started t"
    and inv_step: "inv s \<Longrightarrow> step s t \<Longrightarrow> in_budget budget (started t) \<Longrightarrow> inv t"
    and inv_fifo: "inv s \<Longrightarrow> prefix (received s) (sent s)"
    and inv_live: "inv s \<Longrightarrow> blocked_push s \<Longrightarrow> \<not> blocked_pop s"
    and inv_drain: "inv s \<Longrightarrow> blocked_pop s \<Longrightarrow> received s = sent s"
begin

lemma reachable_inv: "reaches step start s \<Longrightarrow> in_budget budget (started s) \<Longrightarrow> inv s"
proof (induction rule: reaches.induct)
  case (reaches_step t u)
  then have "started t \<le> started u" by (intro started_mono)
  with reaches_step in_budget_mono have "inv t" by metis
  with reaches_step show ?case by (blast intro: inv_step)
qed (rule inv_start)

text \<open>Messages come out in the order they went in, none twice, none lost in between.\<close>

lemma fifo: "reaches step start s \<Longrightarrow> in_budget budget (started s) \<Longrightarrow> prefix (received s) (sent s)"
  by (intro inv_fifo reachable_inv)

lemma no_deadlock: "reaches step start s \<Longrightarrow> in_budget budget (started s) \<Longrightarrow> \<not> (blocked_push s \<and> blocked_pop s)"
  using inv_live reachable_inv by blast

lemma blocked_pop_drained: "reaches step start s \<Longrightarrow> in_budget budget (started s) \<Longrightarrow> blocked_pop s \<Longrightarrow> received s = sent s"
  by (intro inv_drain reachable_inv)

end

section \<open>A queue as its two threads see it\<close>

text \<open>
  The next action of a thread inside \<open>push\<close> or \<open>pop\<close>; of a thread outside, it begins the call.
  The number chooses what an atomic load returns, \<open>qo_push_can\<close> and \<open>qo_pop_can\<close> say which
  choices there are.  \<open>qo_wake\<close> is a spurious wake-up of the consumer.
\<close>

record ('m, 'q) queue_ops =
  qo_push :: "'m \<Rightarrow> nat \<Rightarrow> 'q \<Rightarrow> 'q"
  qo_push_can :: "nat \<Rightarrow> 'q \<Rightarrow> bool"
  qo_pop :: "nat \<Rightarrow> 'q \<Rightarrow> 'q"
  qo_pop_can :: "nat \<Rightarrow> 'q \<Rightarrow> bool"
  qo_wake :: "'q \<Rightarrow> 'q"
  qo_pushing :: "'q \<Rightarrow> bool"        \<comment> \<open>inside a call of \<open>push\<close>\<close>
  qo_popping :: "'q \<Rightarrow> bool"        \<comment> \<open>inside a call of \<open>pop\<close>\<close>
  qo_received :: "'q \<Rightarrow> 'm list"    \<comment> \<open>what the calls of \<open>pop\<close> have returned\<close>

text \<open>
  \<open>begun\<close> adds the message of an unfinished \<open>push\<close> to those sent.  The last laws are about
  progress: as long as a message is on its way, one of the two threads can take a step that
  lowers \<open>effort\<close>.
\<close>

locale threaded_queue = message_queue start step sent received started blocked_push blocked_pop budget inv
  for start :: 's and step and sent :: "'s \<Rightarrow> 'm list" and received and started and blocked_push and blocked_pop
    and budget and inv +
  fixes ops :: "('m, 's) queue_ops"
    and begun :: "'s \<Rightarrow> 'm list"
    and effort :: "'s \<Rightarrow> nat"
  assumes push_steps: "qo_push_can ops v q \<Longrightarrow> step q (qo_push ops m v q)"
    and pop_steps: "qo_pop_can ops v q \<Longrightarrow> step q (qo_pop ops v q)"
    and wake_steps: "qo_wake ops q = q \<or> step q (qo_wake ops q)"
    and received_is [simp]: "qo_received ops q = received q"
    and idle_start: "\<not> qo_pushing ops start" "\<not> qo_popping ops start"
    and started_begun: "started q = length (begun q)"
    and begun_idle: "\<not> qo_pushing ops q \<Longrightarrow> begun q = sent q"
    and sent_begun: "prefix (sent q) (begun q)"
    and push_begin: "\<not> qo_pushing ops q \<Longrightarrow> begun (qo_push ops m v q) = begun q @ [m]"
    and push_begins: "\<not> qo_pushing ops q \<Longrightarrow> qo_pushing ops (qo_push ops m v q)"
    and push_goes_on: "qo_pushing ops q \<Longrightarrow> begun (qo_push ops m v q) = begun q"
    and push_other [simp]: "qo_popping ops (qo_push ops m v q) = qo_popping ops q"
      "received (qo_push ops m v q) = received q"
    and pop_begins: "\<not> qo_popping ops q \<Longrightarrow> qo_popping ops (qo_pop ops v q)"
    and pop_waits: "qo_popping ops (qo_pop ops v q) \<Longrightarrow> received (qo_pop ops v q) = received q"
    and pop_returns: "\<not> qo_popping ops (qo_pop ops v q) \<Longrightarrow> \<exists>m. received (qo_pop ops v q) = received q @ [m]"
    and pop_other [simp]: "qo_pushing ops (qo_pop ops v q) = qo_pushing ops q" "begun (qo_pop ops v q) = begun q"
    and wake_other [simp]: "qo_pushing ops (qo_wake ops q) = qo_pushing ops q" "begun (qo_wake ops q) = begun q"
      "qo_popping ops (qo_wake ops q) = qo_popping ops q" "received (qo_wake ops q) = received q"
    and push_start_effort: "inv q \<Longrightarrow> \<not> qo_pushing ops q \<Longrightarrow>
      \<exists>v. qo_push_can ops v q \<and> effort (qo_push ops m v q) \<le> effort q + 12"
    and pop_start_effort: "inv q \<Longrightarrow> \<not> qo_popping ops q \<Longrightarrow>
      \<exists>v. qo_pop_can ops v q \<and> effort (qo_pop ops v q) \<le> effort q + 4"
    and both_go_on: "inv q \<Longrightarrow> qo_pushing ops q \<Longrightarrow> qo_popping ops q \<Longrightarrow>
      (\<exists>v. qo_push_can ops v q \<and> effort (qo_push ops m v q) < effort q) \<or>
      (\<exists>v. qo_pop_can ops v q \<and> effort (qo_pop ops v q) < effort q)"
    and push_alone: "inv q \<Longrightarrow> qo_pushing ops q \<Longrightarrow> \<not> qo_popping ops q \<Longrightarrow> \<not> blocked_push q \<Longrightarrow>
      \<exists>v. qo_push_can ops v q \<and> effort (qo_push ops m v q) < effort q"
    and pop_alone: "inv q \<Longrightarrow> \<not> qo_pushing ops q \<Longrightarrow> qo_popping ops q \<Longrightarrow> received q \<noteq> sent q \<Longrightarrow>
      \<exists>v. qo_pop_can ops v q \<and> effort (qo_pop ops v q) < effort q"
    and blocked_unreceived: "inv q \<Longrightarrow> blocked_push q \<Longrightarrow> received q \<noteq> begun q"
    and can_choose: "inv q \<Longrightarrow> \<exists>v. qo_push_can ops v q" "inv q \<Longrightarrow> \<exists>v. qo_pop_can ops v q"
begin

lemma received_begun: "inv q \<Longrightarrow> prefix (received q) (begun q)"
  using inv_fifo sent_begun prefix_order.trans by blast

text \<open>From any point on, every message begun can still be delivered.\<close>

definition undone :: "'s \<Rightarrow> nat" where
  "undone q = 10 * (length (begun q) - length (received q)) + effort q + (if qo_popping ops q then 0 else 5)"

lemma push_less:
  assumes "qo_push_can ops v q" and "effort (qo_push ops m v q) < effort q" and "qo_pushing ops q"
  shows "\<exists>t. step q t \<and> begun t = begun q \<and> undone t < undone q"
  using assms push_steps push_goes_on [OF assms(3)] by (intro exI [of _ "qo_push ops m v q"]) (simp add: undone_def)

lemma pop_less:
  assumes "qo_pop_can ops v q" and "inv q" and "in_budget budget (started q)"
    and "if qo_popping ops q then effort (qo_pop ops v q) < effort q else effort (qo_pop ops v q) \<le> effort q + 4"
  shows "\<exists>t. step q t \<and> begun t = begun q \<and> undone t < undone q"
proof (intro exI [of _ "qo_pop ops v q"] conjI pop_steps assms(1) pop_other)
  let ?t = "qo_pop ops v q"
  show "undone ?t < undone q"
  proof (cases "qo_popping ops ?t")
    case True
    then show ?thesis using assms(4) pop_waits [OF True] by (auto simp: undone_def split: if_splits)
  next
    case False
    then have on: "qo_popping ops q" using pop_begins by blast
    obtain m where m: "received ?t = received q @ [m]" using pop_returns [OF False] by blast
    have "inv ?t" using inv_step [OF assms(2) pop_steps [OF assms(1)]] assms(3) by (simp add: started_begun)
    then have "length (received ?t) \<le> length (begun q)" using received_begun [of ?t] prefix_length_le by fastforce
    then show ?thesis using assms(4) on False m by (simp add: undone_def)
  qed
qed

lemma delivers_more:
  assumes inv: "inv q" and few: "in_budget budget (started q)" and some: "qo_pushing ops q \<or> received q \<noteq> begun q"
  shows "\<exists>t. step q t \<and> begun t = begun q \<and> undone t < undone q"
proof (cases "qo_popping ops q")
  case popping: True
  show ?thesis
  proof (cases "qo_pushing ops q")
    case True
    from both_go_on [OF inv this popping] push_less [OF _ _ True] pop_less [OF _ inv few] popping show ?thesis by metis
  next
    case False
    then have "received q \<noteq> sent q" using some begun_idle by simp
    from pop_alone [OF inv False popping this] pop_less [OF _ inv few] popping show ?thesis by auto
  qed
next
  case idle: False
  have pop: ?thesis using pop_start_effort [OF inv idle] pop_less [OF _ inv few] idle by auto
  show ?thesis
  proof (cases "qo_pushing ops q \<and> \<not> blocked_push q")
    case True
    then show ?thesis using push_alone [OF inv _ idle] push_less by blast
  qed (rule pop)
qed

lemma can_deliver:
  assumes "inv q" and "in_budget budget (started q)"
  shows "\<exists>t. reaches step q t \<and> received t = begun q \<and> begun t = begun q \<and> \<not> qo_pushing ops t"
  using assms
proof (induction "undone q" arbitrary: q rule: less_induct)
  case less
  show ?case
  proof (cases "qo_pushing ops q \<or> received q \<noteq> begun q")
    case True
    from delivers_more [OF less.prems True] obtain t where t: "step q t" "begun t = begun q" "undone t < undone q" by blast
    have few: "in_budget budget (started t)" using less.prems(2) t(2) by (simp add: started_begun)
    from less.hyps [OF t(3) inv_step [OF less.prems(1) t(1) few] few] t obtain u where
      "reaches step t u" "received u = begun q" "begun u = begun q" "\<not> qo_pushing ops u" by auto
    moreover have "reaches step q t" using t(1) by (metis reaches_refl reaches_step)
    ultimately show ?thesis using reaches_trans by metis
  qed (auto intro: reaches_refl)
qed

lemma reachable_delivers:
  assumes "reaches step start q" and "in_budget budget (started q)"
  shows "\<exists>t. reaches step q t \<and> received t = begun q \<and> begun t = begun q \<and> \<not> qo_pushing ops t"
  by (rule can_deliver [OF reachable_inv [OF assms] assms(2)])

end

end
