(* ===== verification/C_Numbers.thy ===== *)
theory C_Numbers
  imports Prelude
begin

text \<open>
  Decimal numbers in strings, as the C and C++ library functions the program calls read them:
  \<open>strtol\<close> in \<open>src/engine/cpu_pinning.h\<close> and \<open>std::stoull\<close> in \<open>src/server.cpp\<close>.  The printing
  function \<open>decimal\<close> is there to state what they read back.
\<close>

section \<open>Digits\<close>

definition char_code :: "char \<Rightarrow> nat" where
  "char_code c = of_char c"

definition is_space :: "char \<Rightarrow> bool" where
  "is_space c \<longleftrightarrow> char_code c = 32 \<or> (9 \<le> char_code c \<and> char_code c \<le> 13)"

definition is_digit :: "char \<Rightarrow> bool" where
  "is_digit c \<longleftrightarrow> 48 \<le> char_code c \<and> char_code c \<le> 57"

definition digit_char :: "nat \<Rightarrow> char" where
  "digit_char d = char_of (48 + d)"

fun decimal :: "nat \<Rightarrow> string" where
  "decimal n = (if n < 10 then [digit_char n] else decimal (n div 10) @ [digit_char (n mod 10)])"

declare decimal.simps [simp del]

definition number_of_digits :: "string \<Rightarrow> nat" where
  "number_of_digits ds = foldl (\<lambda>n c. 10 * n + (char_code c - 48)) 0 ds"

lemma char_code_digit [simp]: "d < 10 \<Longrightarrow> char_code (digit_char d) = 48 + d"
  by (simp add: char_code_def digit_char_def)

lemma is_digit_digit [simp]: "d < 10 \<Longrightarrow> is_digit (digit_char d)"
  by (simp add: is_digit_def)

lemma decimal_digits: "\<forall>c \<in> set (decimal n). is_digit c"
proof (induction n rule: decimal.induct)
  case (1 n)
  then show ?case by (subst decimal.simps) auto
qed

lemma decimal_not_Nil [simp]: "decimal n \<noteq> []"
  by (subst decimal.simps) simp

lemma number_of_decimal: "number_of_digits (decimal n) = n"
proof (induction n rule: decimal.induct)
  case (1 n)
  show ?case
  proof (cases "n < 10")
    case True
    then show ?thesis by (subst decimal.simps) (simp add: number_of_digits_def)
  next
    case False
    then have "number_of_digits (decimal (n div 10)) = n div 10" by (rule 1)
    then show ?thesis using False by (subst decimal.simps) (simp add: number_of_digits_def)
  qed
qed

section \<open>Scanning a number\<close>

text \<open>White space, an optional sign, the digits, and what follows them.\<close>

definition scan_number :: "string \<Rightarrow> bool \<times> string \<times> string" where
  "scan_number s =
     (let s1 = dropWhile is_space s;
          neg = (s1 \<noteq> [] \<and> hd s1 = CHR ''-'');
          s2 = (if s1 \<noteq> [] \<and> (hd s1 = CHR ''-'' \<or> hd s1 = CHR ''+'') then tl s1 else s1) in
      (neg, takeWhile is_digit s2, dropWhile is_digit s2))"

lemma digit_not_sign: "is_digit c \<Longrightarrow> c \<noteq> CHR ''-'' \<and> c \<noteq> CHR ''+'' \<and> \<not> is_space c"
  by (auto simp: is_digit_def is_space_def char_code_def)

lemma scan_decimal: "scan_number (decimal n) = (False, decimal n, [])"
proof -
  obtain c cs where c: "decimal n = c # cs" by (cases "decimal n") simp_all
  with decimal_digits [of n] have "is_digit c" by simp
  note sign = digit_not_sign [OF this]
  have "takeWhile is_digit (decimal n) = decimal n" "dropWhile is_digit (decimal n) = []"
    using decimal_digits [of n] by simp_all
  then show ?thesis using sign c by (simp add: scan_number_def Let_def)
qed

text \<open>\<open>strtol(s, &end, 10)\<close> for a 64-bit \<open>long\<close>: \<open>None\<close> when nothing is converted.\<close>

definition strtol :: "string \<Rightarrow> (int \<times> string) option" where
  "strtol s = (case scan_number s of (neg, ds, rest) \<Rightarrow>
     if ds = [] then None
     else let v = (if neg then - int (number_of_digits ds) else int (number_of_digits ds)) in
       Some (max (-9223372036854775808) (min 9223372036854775807 v), rest))"

text \<open>\<open>std::stoull(s)\<close>: it throws, or it ignores what follows the digits; a sign negates modulo
  \<open>2 ^ 64\<close>.\<close>

datatype std_exception = invalid_argument | out_of_range

definition stoull :: "string \<Rightarrow> std_exception + u64" where
  "stoull s = (case scan_number s of (neg, ds, rest) \<Rightarrow>
     if ds = [] then Inl invalid_argument
     else if 18446744073709551615 < number_of_digits ds then Inl out_of_range
     else Inr (if neg then - of_nat (number_of_digits ds) else of_nat (number_of_digits ds)))"

lemma strtol_decimal: "n \<le> 9223372036854775807 \<Longrightarrow> strtol (decimal n) = Some (int n, [])"
  by (simp add: strtol_def scan_decimal number_of_decimal Let_def)

lemma stoull_decimal: "n \<le> 18446744073709551615 \<Longrightarrow> stoull (decimal n) = Inr (of_nat n)"
  by (simp add: stoull_def scan_decimal number_of_decimal)

text \<open>A minus sign is taken too: the value is the negation in \<open>2 ^ 64\<close>.\<close>

lemma scan_negative: "scan_number (CHR ''-'' # decimal n) = (True, decimal n, [])"
  using decimal_digits [of n] by (simp add: scan_number_def is_space_def char_code_def Let_def)

lemma stoull_negative: "n \<le> 18446744073709551615 \<Longrightarrow> stoull (CHR ''-'' # decimal n) = Inr (- of_nat n)"
  by (simp add: stoull_def scan_negative number_of_decimal)

end
