(* ===== verification/Doubles.thy ===== *)
theory Doubles
  imports Complex_Main C_Numbers
begin

text \<open>
  The \<open>double\<close> arithmetic of the program, as IEEE 754 has it on x86-64: an operation gives the exact
  result rounded to 53 significant bits, ties to even.  Every \<open>double\<close> of this code is at least 0,
  and either 0 or between \<open>2 ^ -64\<close> and \<open>2 ^ 200\<close>, so that neither overflow nor gradual underflow
  comes in; a division by 0 gives infinity or a NaN.  The text of a \<open>double\<close> in fixed notation
  is the exact value rounded to the decimals asked for, as the C library prints it.
\<close>

section \<open>Rounding natural numbers\<close>

fun bit_length :: "nat \<Rightarrow> nat" where
  "bit_length n = (if n = 0 then 0 else Suc (bit_length (n div 2)))"

declare bit_length.simps [simp del]

definition round_half_even :: "nat \<Rightarrow> nat \<Rightarrow> nat" where
  "round_half_even p d = (let q = p div d; r = p mod d in
     if 2 * r < d \<or> (2 * r = d \<and> even q) then q else Suc q)"

definition round_double :: "nat \<Rightarrow> nat" where
  "round_double p = (let s = bit_length p - 53 in round_half_even p (2 ^ s) * 2 ^ s)"

lemma bit_length_bound: "n < 2 ^ bit_length n"
proof (induction n rule: bit_length.induct)
  case (1 n)
  show ?case
  proof (cases "n = 0")
    case False
    then have "n div 2 < 2 ^ bit_length (n div 2)" by (rule 1)
    then show ?thesis using False by (subst bit_length.simps) simp
  qed (simp add: bit_length.simps)
qed

lemma bit_length_least: "0 < n \<Longrightarrow> 2 ^ (bit_length n - 1) \<le> n"
proof (induction n rule: bit_length.induct)
  case (1 n)
  show ?case
  proof (cases "n div 2 = 0")
    case True
    then have "n = 1" using 1(2) by simp
    then show ?thesis by (simp add: bit_length.simps)
  next
    case False
    then have "2 ^ (bit_length (n div 2) - 1) \<le> n div 2" using 1 by simp
    moreover have "0 < bit_length (n div 2)" using False by (subst bit_length.simps) simp
    moreover have "bit_length n = Suc (bit_length (n div 2))" using 1(2) by (subst bit_length.simps) simp
    ultimately show ?thesis by (cases "bit_length (n div 2)") simp_all
  qed
qed

lemma round_half_even_le: "0 < d \<Longrightarrow> 2 * (round_half_even p d * d) \<le> 2 * p + d"
proof -
  assume d: "0 < d"
  have p: "p = p div d * d + p mod d" by simp
  show ?thesis
  proof (cases "2 * (p mod d) < d \<or> (2 * (p mod d) = d \<and> even (p div d))")
    case True
    then have "round_half_even p d = p div d" by (simp add: round_half_even_def Let_def)
    moreover have "p div d * d \<le> p" by simp
    ultimately show ?thesis by (metis mult_le_mono2 trans_le_add1)
  next
    case False
    then have r: "round_half_even p d = Suc (p div d)" and "d \<le> 2 * (p mod d)"
      by (auto simp: round_half_even_def Let_def)
    then have "2 * (p div d * d) + 2 * d \<le> 2 * p + d" using p by linarith
    then show ?thesis by (simp add: r)
  qed
qed

lemma round_double_le:
  assumes "0 < p"
  shows "2 ^ 53 * round_double p \<le> 2 ^ 53 * p + p"
proof (cases "bit_length p \<le> 53")
  case True
  then show ?thesis by (simp add: round_double_def round_half_even_def)
next
  case False
  define s where "s = bit_length p - 53"
  have "2 * round_double p \<le> 2 * p + 2 ^ s"
    using round_half_even_le [of "2 ^ s" p] by (simp add: round_double_def s_def Let_def)
  moreover have "2 ^ 52 * 2 ^ s \<le> p"
  proof -
    have "bit_length p - 1 = 52 + s" using False by (simp add: s_def)
    then have "2 ^ (52 + s) \<le> p" using bit_length_least [OF assms] by simp
    then show ?thesis by (simp only: power_add)
  qed
  ultimately show ?thesis by simp
qed

text \<open>The rounding is monotone and keeps what is exact.\<close>


lemma round_half_even_mono:
  assumes "0 < d" and "p \<le> p'"
  shows "round_half_even p d \<le> round_half_even p' d"
proof -
  let ?q = "p div d" let ?q' = "p' div d"
  have bounds: "?q' \<le> round_half_even p' d" "round_half_even p d \<le> Suc ?q"
    by (simp_all add: round_half_even_def Let_def)
  have le: "?q \<le> ?q'" using assms(2) by (rule div_le_mono)
  show ?thesis
  proof (cases "?q = ?q'")
    case True
    have "p mod d \<le> p' mod d"
      using assms(2) True by (metis add_le_cancel_left mult_div_mod_eq)
    then show ?thesis using True by (auto simp: round_half_even_def Let_def)
  next
    case False
    with le bounds show ?thesis by linarith
  qed
qed

lemma round_half_even_exact: "0 < d \<Longrightarrow> d dvd p \<Longrightarrow> round_half_even p d = p div d"
  by (simp add: round_half_even_def)

lemma round_double_exact: "2 ^ (bit_length p - 53) dvd p \<Longrightarrow> round_double p = p"
  by (simp add: round_double_def Let_def round_half_even_exact)

lemma bit_length_least_of: "p < 2 ^ k \<Longrightarrow> bit_length p \<le> k"
proof (rule ccontr)
  assume p: "p < 2 ^ k" and "\<not> bit_length p \<le> k"
  then have k: "k \<le> bit_length p - 1" by simp
  have "0 < p" using \<open>\<not> bit_length p \<le> k\<close> by (cases "p = 0") (simp_all add: bit_length.simps)
  from k have "2 ^ k \<le> (2 :: nat) ^ (bit_length p - 1)" by simp
  also have "\<dots> \<le> p" by (rule bit_length_least [OF \<open>0 < p\<close>])
  finally show False using p by simp
qed

lemma round_double_bounds:
  shows "round_double p \<le> 2 ^ bit_length p" and "0 < p \<Longrightarrow> 2 ^ (bit_length p - 1) \<le> round_double p"
proof -
  let ?n = "bit_length p" let ?s = "bit_length p - 53"
  have pow: "round_half_even (2 ^ k) (2 ^ ?s) * 2 ^ ?s = 2 ^ k" if "?s \<le> k" for k
    using that by (simp add: round_half_even_exact le_imp_power_dvd)
  have "round_half_even p (2 ^ ?s) \<le> round_half_even (2 ^ ?n) (2 ^ ?s)"
    by (rule round_half_even_mono) (use bit_length_bound [of p] in simp_all)
  then have "round_double p \<le> round_half_even (2 ^ ?n) (2 ^ ?s) * 2 ^ ?s"
    by (simp add: round_double_def Let_def)
  then show "round_double p \<le> 2 ^ ?n" using pow [of ?n] by simp
  assume p: "0 < p"
  have "round_half_even (2 ^ (?n - 1)) (2 ^ ?s) \<le> round_half_even p (2 ^ ?s)"
    by (rule round_half_even_mono) (use bit_length_least [OF p] in simp_all)
  then have "round_half_even (2 ^ (?n - 1)) (2 ^ ?s) * 2 ^ ?s \<le> round_double p"
    by (simp add: round_double_def Let_def)
  then show "2 ^ (?n - 1) \<le> round_double p" using pow [of "?n - 1"] by simp
qed

lemma round_double_mono:
  assumes "p \<le> p'"
  shows "round_double p \<le> round_double p'"
proof (cases "bit_length p = bit_length p'")
  case True
  then show ?thesis using assms by (simp add: round_double_def Let_def round_half_even_mono)
next
  case False
  have "p < 2 ^ bit_length p'" using bit_length_bound [of p'] assms by linarith
  with False have less: "bit_length p \<le> bit_length p' - 1" "0 < bit_length p'"
    using bit_length_least_of [of p "bit_length p'"] by linarith+
  then have "0 < p'" by (cases "p' = 0") (simp_all add: bit_length.simps)
  have "round_double p \<le> 2 ^ bit_length p" by (rule round_double_bounds)
  also have "\<dots> \<le> 2 ^ (bit_length p' - 1)" using less(1) by simp
  also have "\<dots> \<le> round_double p'" by (rule round_double_bounds(2) [OF \<open>0 < p'\<close>])
  finally show ?thesis .
qed

section \<open>Rounding rationals\<close>

text \<open>The nearest integer, the even one of two.\<close>

definition nearest :: "rat \<Rightarrow> int" where
  "nearest x = (let f = \<lfloor>x\<rfloor>; d = x - of_int f in
     if 2 * d < 1 \<or> (2 * d = 1 \<and> even f) then f else f + 1)"

text \<open>The exponent \<open>e\<close> of a positive number, with \<open>2 ^ e \<le> x < 2 ^ (e + 1)\<close>.\<close>

definition exponent :: "rat \<Rightarrow> int" where
  "exponent x = (let (p, q) = quotient_of x; e = int (bit_length (nat p)) - int (bit_length (nat q)) in
     if 2 powi e \<le> x then e else e - 1)"

definition fl :: "rat \<Rightarrow> rat" where
  "fl x = (if x \<le> 0 then 0 else
     let k = 52 - exponent x in of_int (nearest (x * 2 powi k)) * 2 powi (- k))"

lemma nearest_error: "2 * \<bar>of_int (nearest x) - x\<bar> \<le> 1"
proof -
  have "of_int \<lfloor>x\<rfloor> \<le> x" "x < of_int \<lfloor>x\<rfloor> + 1" by linarith+
  then show ?thesis unfolding nearest_def Let_def abs_if by (simp; linarith)
qed

lemma nearest_of_int [simp]: "nearest (of_int n) = n"
  by (simp add: nearest_def)

lemma nearest_of_nat [simp]: "nearest (of_nat n) = int n"
  using nearest_of_int [of "int n"] by simp

lemma nearest_mono_0: "0 \<le> x \<Longrightarrow> 0 \<le> nearest x"
  by (auto simp: nearest_def Let_def)

lemma exponent_bounds:
  assumes "0 < x"
  shows "2 powi exponent x \<le> x" and "x < 2 powi (exponent x + 1)"
proof -
  obtain p q where pq: "quotient_of x = (p, q)" by fastforce
  then have x: "x = of_int p / of_int q" and q: "0 < q"
    using quotient_of_div quotient_of_denom_pos by auto
  with assms have p: "0 < p" by (simp add: zero_less_divide_iff)
  define a b where "a = nat p" and "b = nat q"
  define m n where "m = bit_length a" and "n = bit_length b"
  have ab: "0 < a" "0 < b" "x = of_nat a / of_nat b" using p q x by (simp_all add: a_def b_def)
  have 1: "a < 2 ^ m" "2 ^ (m - 1) \<le> a" "b < 2 ^ n" "2 ^ (n - 1) \<le> b"
    using bit_length_bound bit_length_least ab by (auto simp: m_def n_def)
  then have "0 < m" "0 < n" using ab by (auto intro!: Nat.gr0I)
  then obtain m' n' where mn: "m = Suc m'" "n = Suc n'" by (metis gr0_implies_Suc)
  have rat: "(of_nat a :: rat) < 2 ^ m" "(2 :: rat) ^ m' \<le> of_nat a" "(of_nat b :: rat) < 2 ^ n" "(2 :: rat) ^ n' \<le> of_nat b"
    using 1 unfolding mn diff_Suc_1 by (metis of_nat_less_iff of_nat_le_iff of_nat_numeral of_nat_power)+
  let ?e = "int m - int n"
  have powi: "2 powi (int i - int j) = (2 :: rat) ^ i / 2 ^ j" for i j
    by (simp only: power_int_diff power_int_of_nat zero_neq_numeral [symmetric] simp_thms)
  have "x < 2 ^ m / 2 ^ n'"
    unfolding ab(3) by (rule frac_less) (use rat ab in auto)
  also have "\<dots> = 2 powi (int m - int n')" by (rule powi [symmetric])
  also have "int m - int n' = ?e + 1" by (simp add: mn)
  finally have up: "x < 2 powi (?e + 1)" .
  have "?e - 1 = int m' - int n" by (simp add: mn)
  then have "2 powi (?e - 1) = (2 :: rat) ^ m' / 2 ^ n" by (simp only: powi)
  also have "\<dots> \<le> x" unfolding ab(3) by (rule frac_le) (use rat ab in auto)
  finally have low: "2 powi (?e - 1) \<le> x" .
  have e: "exponent x = (if 2 powi ?e \<le> x then ?e else ?e - 1)"
    by (simp add: exponent_def pq m_def n_def a_def b_def)
  show "2 powi exponent x \<le> x" "x < 2 powi (exponent x + 1)" using up low by (auto simp: e)
qed

lemma exponent_unique: "0 < x \<Longrightarrow> 2 powi e \<le> x \<Longrightarrow> x < 2 powi (e + 1) \<Longrightarrow> exponent x = e"
proof -
  assume x: "0 < x" "2 powi e \<le> x" "x < 2 powi (e + 1)"
  note b = exponent_bounds [OF x(1)]
  have less: "i < j" if "(2 :: rat) powi i < 2 powi j" for i j
    by (rule ccontr) (use that power_int_increasing [of j i "2 :: rat"] in simp)
  have "e < exponent x + 1" "exponent x < e + 1"
    by (rule less, rule le_less_trans [OF x(2) b(2)], rule less, rule le_less_trans [OF b(1) x(3)])
  then show ?thesis by simp
qed

text \<open>The relative error of one rounding.\<close>

lemma fl_error: "0 \<le> x \<Longrightarrow> \<bar>fl x - x\<bar> \<le> x / 2 ^ 53"
proof (cases "x = 0")
  case False
  assume "0 \<le> x"
  with False have x: "0 < x" by simp
  define k where "k = 52 - exponent x"
  define s :: rat where "s = 2 powi k"
  have s: "0 < s" by (simp add: s_def)
  have fl: "fl x = of_int (nearest (x * s)) / s"
    using x by (simp add: fl_def k_def s_def Let_def power_int_minus divide_inverse)
  have "2 powi exponent x * s = 2 powi 52" by (simp add: s_def k_def flip: power_int_add)
  then have "2 ^ 52 = 2 powi exponent x * s" by (simp add: power_int_def)
  also have "\<dots> \<le> x * s" using exponent_bounds(1) [OF x] s by simp
  finally have big: "2 ^ 52 \<le> x * s" .
  have "\<bar>fl x - x\<bar> * s = \<bar>of_int (nearest (x * s)) - x * s\<bar>"
    using s unfolding fl by (simp add: abs_if field_simps split: if_splits)
  also have "\<dots> \<le> 1 / 2" using nearest_error [of "x * s"] by simp
  also have "\<dots> \<le> x * s / 2 ^ 53" using big by simp
  finally show ?thesis using s by (simp add: field_simps)
qed (simp add: fl_def)

text \<open>The natural numbers' rounding is the same one.\<close>

lemma nearest_quotient: "0 < d \<Longrightarrow> nearest (of_nat p / of_nat d) = int (round_half_even p d)"
proof -
  assume d: "0 < d"
  have x: "of_nat p / of_nat d = of_nat (p div d) + of_nat (p mod d) / (of_nat d :: rat)"
    using d by (simp add: field_simps flip: of_nat_mult of_nat_add)
  have "of_nat (p mod d) / (of_nat d :: rat) < 1" "0 \<le> of_nat (p mod d) / (of_nat d :: rat)"
    using d by (simp_all add: divide_less_eq)
  then have f: "\<lfloor>of_nat p / (of_nat d :: rat)\<rfloor> = int (p div d)" unfolding x by (simp add: floor_eq_iff)
  have half: "2 * (of_nat r / (of_nat d :: rat)) < 1 \<longleftrightarrow> 2 * r < d"
    "2 * (of_nat r / (of_nat d :: rat)) = 1 \<longleftrightarrow> 2 * r = d" for r
  proof -
    have "2 * (of_nat r / (of_nat d :: rat)) = of_nat (2 * r) / of_nat d" by simp
    then show "2 * (of_nat r / (of_nat d :: rat)) < 1 \<longleftrightarrow> 2 * r < d" "2 * (of_nat r / (of_nat d :: rat)) = 1 \<longleftrightarrow> 2 * r = d"
      using d by (simp_all only: divide_less_eq_1_pos divide_eq_1_iff of_nat_0_less_iff of_nat_less_iff of_nat_eq_iff) auto
  qed
  have "of_nat p / of_nat d - of_int \<lfloor>of_nat p / (of_nat d :: rat)\<rfloor> = (of_nat (p mod d) / of_nat d :: rat)"
    unfolding f by (simp add: x)
  then have "nearest (of_nat p / of_nat d) = (if 2 * (p mod d) < d \<or> (2 * (p mod d) = d \<and> even (int (p div d)))
      then int (p div d) else int (p div d) + 1)"
    unfolding nearest_def Let_def by (simp only: half f)
  then show ?thesis by (simp add: round_half_even_def Let_def)
qed

lemma exponent_of_nat: "0 < p \<Longrightarrow> exponent (of_nat p) = int (bit_length p) - 1"
proof (rule exponent_unique)
  assume p: "0 < p"
  then have "0 < bit_length p" using bit_length_bound [of p] by (auto intro!: Nat.gr0I)
  then obtain k where k: "bit_length p = Suc k" by (metis gr0_implies_Suc)
  have "(2 :: rat) ^ k \<le> of_nat p" "of_nat p < (2 :: rat) ^ Suc k"
    using bit_length_least [OF p] bit_length_bound [of p] unfolding k diff_Suc_1
    by (metis of_nat_less_iff of_nat_le_iff of_nat_numeral of_nat_power)+
  moreover have "int (Suc k) - 1 = int k" "int (Suc k) - 1 + 1 = int (Suc k)" by simp_all
  ultimately show "2 powi (int (bit_length p) - 1) \<le> (of_nat p :: rat)" "of_nat p < (2 :: rat) powi (int (bit_length p) - 1 + 1)"
    unfolding k by (simp_all only: power_int_of_nat)
qed simp

lemma fl_of_nat: "fl (of_nat p) = of_nat (round_double p)"
proof (cases "p = 0")
  case False
  let ?n = "bit_length p"
  have e: "fl (of_nat p) = of_int (nearest (of_nat p * 2 powi (53 - int ?n))) * 2 powi (int ?n - 53)"
    using False by (simp add: fl_def Let_def exponent_of_nat algebra_simps)
  show ?thesis
  proof (cases "?n \<le> 53")
    case True
    then have k: "53 - int ?n = int (53 - ?n)" by simp
    have "of_nat p * 2 powi (53 - int ?n) = (of_nat (p * 2 ^ (53 - ?n)) :: rat)" unfolding k by simp
    then have "fl (of_nat p) = of_nat (p * 2 ^ (53 - ?n)) * 2 powi (int ?n - 53)" 
      unfolding e by (simp only: nearest_of_nat of_int_of_nat_eq)
    also have "\<dots> = of_nat p * (2 powi (53 - int ?n) * 2 powi (int ?n - 53))" unfolding k by simp
    also have "\<dots> = of_nat p" by (simp flip: power_int_add)
    finally show ?thesis using True by (simp add: round_double_def round_half_even_exact)
  next
    case False
    then have k: "int ?n - 53 = int (?n - 53)" "53 - int ?n = - int (?n - 53)" by simp_all
    have "of_nat p * 2 powi (53 - int ?n) = of_nat p / (of_nat (2 ^ (?n - 53)) :: rat)"
      unfolding k(2) by (simp add: power_int_minus divide_inverse)
    then have "nearest (of_nat p * 2 powi (53 - int ?n)) = int (round_half_even p (2 ^ (?n - 53)))"
      by (simp only: nearest_quotient zero_less_numeral zero_less_power)
    then show ?thesis unfolding e k(1) by (simp add: round_double_def Let_def)
  qed
qed (simp add: fl_def round_double_def round_half_even_def)

section \<open>Error bounds\<close>

text \<open>\<open>close n x y\<close>: \<open>y\<close> is \<open>x\<close> after at most \<open>n\<close> roundings.\<close>

definition ulp :: rat where
  "ulp = 1 / 2 ^ 53"

definition close :: "nat \<Rightarrow> rat \<Rightarrow> rat \<Rightarrow> bool" where
  "close n x y \<longleftrightarrow> 0 \<le> x \<and> x * (1 - ulp) ^ n \<le> y \<and> y \<le> x * (1 + ulp) ^ n"

lemma ulp_less: "0 < ulp" "ulp < 1" "1 \<le> (1 + ulp)\<^sup>2 * (1 - ulp)"
  by (simp_all add: ulp_def power2_eq_square)

lemma close_refl [simp]: "0 \<le> x \<Longrightarrow> close 0 x x"
  by (simp add: close_def)

lemma close_nonneg: "close n x y \<Longrightarrow> 0 \<le> x \<and> 0 \<le> y"
  using ulp_less by (auto simp: close_def intro: order_trans [rotated])

lemma close_pos: "close n x y \<Longrightarrow> 0 < x \<Longrightarrow> 0 < y"
  using ulp_less by (auto simp: close_def intro: less_le_trans [rotated])

lemma close_fl: "close n x y \<Longrightarrow> close (Suc n) x (fl y)"
proof -
  assume c: "close n x y"
  then have y: "0 \<le> x" "0 \<le> y" using close_nonneg by auto
  from fl_error [OF y(2)] have "y * (1 - ulp) \<le> fl y" "fl y \<le> y * (1 + ulp)"
    by (simp_all add: ulp_def abs_if field_simps split: if_splits)
  moreover have "x * (1 - ulp) ^ n * (1 - ulp) \<le> y * (1 - ulp)" "y * (1 + ulp) \<le> x * (1 + ulp) ^ n * (1 + ulp)"
    using c ulp_less by (auto simp: close_def intro!: mult_right_mono)
  ultimately show ?thesis using y by (auto simp: close_def mult_ac)
qed

lemma close_more: "close n x y \<Longrightarrow> n \<le> m \<Longrightarrow> close m x y"
proof -
  assume c: "close n x y" and m: "n \<le> m"
  have "(1 - ulp) ^ m \<le> (1 - ulp) ^ n" "(1 + ulp) ^ n \<le> (1 + ulp) ^ m"
    using m ulp_less by (auto intro!: power_decreasing power_increasing)
  with c show ?thesis unfolding close_def by (meson mult_left_mono order_trans)
qed

lemma close_mult:
  assumes "close n x y" and "close m x' y'"
  shows "close (n + m) (x * x') (y * y')"
proof -
  have "(x * (1 - ulp) ^ n) * (x' * (1 - ulp) ^ m) \<le> y * y'" "y * y' \<le> (x * (1 + ulp) ^ n) * (x' * (1 + ulp) ^ m)"
    using assms close_nonneg [OF assms(1)] close_nonneg [OF assms(2)] ulp_less
    by (auto simp: close_def intro!: mult_mono)
  then show ?thesis using assms by (simp add: close_def power_add mult_ac)
qed

lemma close_inverse:
  assumes c: "close n x y" and x: "0 < x"
  shows "close (2 * n) (inverse x) (inverse y)"
proof -
  have y: "0 < y" using close_pos [OF c x] .
  have s: "0 < 1 - ulp" "0 < 1 + ulp" using ulp_less by simp_all
  have grow: "1 \<le> (1 + ulp) ^ (2 * n) * (1 - ulp) ^ n" 
    using ulp_less(3) by (simp add: power_mult flip: power_mult_distrib)
  have shrink: "(1 - ulp) ^ (2 * n) * (1 + ulp) ^ n \<le> 1"
  proof -
    have "(1 - ulp)\<^sup>2 * (1 + ulp) \<le> 1" by (simp add: ulp_def power2_eq_square)
    then show ?thesis using s by (simp add: power_mult power_le_one flip: power_mult_distrib)
  qed
  have "x = x * 1" by simp
  also have "\<dots> \<le> x * ((1 + ulp) ^ (2 * n) * (1 - ulp) ^ n)" using grow x by (intro mult_left_mono) simp_all
  also have "\<dots> = (1 + ulp) ^ (2 * n) * (x * (1 - ulp) ^ n)" by simp
  also have "\<dots> \<le> (1 + ulp) ^ (2 * n) * y" using c s by (intro mult_left_mono) (simp_all add: close_def)
  finally have up: "x \<le> (1 + ulp) ^ (2 * n) * y" .
  have "(1 - ulp) ^ (2 * n) * y \<le> (1 - ulp) ^ (2 * n) * (x * (1 + ulp) ^ n)"
    using c s by (intro mult_left_mono) (simp_all add: close_def)
  also have "\<dots> = x * ((1 - ulp) ^ (2 * n) * (1 + ulp) ^ n)" by simp
  also have "\<dots> \<le> x * 1" using shrink x by (intro mult_left_mono) simp_all
  finally have "(1 - ulp) ^ (2 * n) * y \<le> x" by simp
  with up x y show ?thesis by (simp add: close_def field_simps)
qed

lemma close_divide: "close n x y \<Longrightarrow> close m x' y' \<Longrightarrow> 0 < x' \<Longrightarrow> close (n + 2 * m) (x / x') (y / y')"
  unfolding divide_inverse by (intro close_mult close_inverse)

lemma close_error:
  assumes "close n x y" and "n \<le> 16"
  shows "\<bar>y - x\<bar> \<le> x / 2 ^ 48"
proof -
  have "close 16 x y" using close_more [OF assms] .
  moreover have "1 - 1 / 2 ^ 48 \<le> (1 - ulp) ^ 16" "(1 + ulp) ^ 16 \<le> 1 + 1 / 2 ^ 48"
    by (simp_all add: ulp_def power_divide field_simps)
  ultimately have "x * (1 - 1 / 2 ^ 48) \<le> y" "y \<le> x * (1 + 1 / 2 ^ 48)"
    unfolding close_def by (meson mult_left_mono order_trans)+
  then show ?thesis by (cases "x \<le> y") (simp_all add: abs_if field_simps)
qed

section \<open>The type\<close>

datatype double = Fin rat | Inf | Nan

definition to_double :: "nat \<Rightarrow> double" where
  "to_double n = Fin (fl (of_nat n))"

fun d_mul :: "double \<Rightarrow> double \<Rightarrow> double" where
  "d_mul (Fin x) (Fin y) = Fin (fl (x * y))"
| "d_mul Inf (Fin y) = (if y = 0 then Nan else Inf)"
| "d_mul (Fin x) Inf = (if x = 0 then Nan else Inf)"
| "d_mul Inf Inf = Inf"
| "d_mul x y = Nan"

fun d_div :: "double \<Rightarrow> double \<Rightarrow> double" where
  "d_div (Fin x) (Fin y) = (if y \<noteq> 0 then Fin (fl (x / y)) else if x = 0 then Nan else Inf)"
| "d_div Inf (Fin y) = Inf"
| "d_div (Fin x) Inf = Fin 0"
| "d_div x y = Nan"

text \<open>A finite double that is within \<open>n\<close> roundings of a number.\<close>

definition about :: "nat \<Rightarrow> rat \<Rightarrow> double \<Rightarrow> bool" where
  "about n x d \<longleftrightarrow> (\<exists>y. d = Fin y \<and> close n x y)"

lemma about_Fin: "0 \<le> x \<Longrightarrow> about 0 x (Fin x)"
  by (simp add: about_def)

lemma about_more: "about n x d \<Longrightarrow> n \<le> m \<Longrightarrow> about m x d"
  using close_more by (auto simp: about_def)

lemma about_of_nat: "about 1 (of_nat n) (to_double n)"
  using close_fl [OF close_refl [of "of_nat n"]] by (simp add: about_def to_double_def)

lemma about_mul: "about n x d \<Longrightarrow> about m x' d' \<Longrightarrow> about (Suc (n + m)) (x * x') (d_mul d d')"
  by (auto simp: about_def intro!: close_fl [OF close_mult])

lemma about_div: "about n x d \<Longrightarrow> about m x' d' \<Longrightarrow> 0 < x' \<Longrightarrow> about (Suc (n + 2 * m)) (x / x') (d_div d d')"
proof -
  assume "about n x d" "about m x' d'" and x: "0 < x'"
  then obtain y y' where y: "d = Fin y" "close n x y" "d' = Fin y'" "close m x' y'" by (auto simp: about_def)
  have "0 < y'" using close_pos [OF y(4) x] .
  then show ?thesis using close_fl [OF close_divide [OF y(2,4) x]] by (simp add: about_def y(1,3))
qed

section \<open>The text of a double\<close>

text \<open>\<open>p\<close> decimals; the exact value is rounded.\<close>

definition zero_padded :: "nat \<Rightarrow> string \<Rightarrow> string" where
  "zero_padded w ds = replicate (w - length ds) CHR ''0'' @ ds"

definition fixed_text :: "nat \<Rightarrow> rat \<Rightarrow> string" where
  "fixed_text p x =
     (let ds = zero_padded (Suc p) (decimal (nat (nearest (x * 10 ^ p)))); n = length ds - p in
      take n ds @ (if p = 0 then [] else CHR ''.'' # drop n ds))"

text \<open>The default NaN of x86-64, which a division of 0 by 0 gives, has its sign bit set.\<close>

fun double_text :: "nat \<Rightarrow> double \<Rightarrow> string" where
  "double_text p (Fin x) = fixed_text p x"
| "double_text p Inf = ''inf''"
| "double_text p Nan = ''-nan''"

text \<open>What a reader makes of the text.\<close>

definition read_fixed :: "string \<Rightarrow> rat" where
  "read_fixed s = (let a = takeWhile (\<lambda>c. c \<noteq> CHR ''.'') s; b = drop (Suc (length a)) s in
     of_nat (number_of_digits (a @ b)) / 10 ^ length b)"

lemma number_of_zeros: "number_of_digits (replicate k CHR ''0'' @ ds) = number_of_digits ds"
  by (induction k) (simp_all add: number_of_digits_def char_code_def)

lemma no_point: "c \<in> set (zero_padded w (decimal n)) \<Longrightarrow> c \<noteq> CHR ''.''"
  using decimal_digits [of n] by (auto simp: zero_padded_def is_digit_def char_code_def)

lemma read_fixed_text:
  assumes "0 \<le> x"
  shows "read_fixed (fixed_text p x) = of_int (nearest (x * 10 ^ p)) / 10 ^ p"
proof -
  define v where "v = nat (nearest (x * 10 ^ p))"
  define ds where "ds = zero_padded (Suc p) (decimal v)"
  define n where "n = length ds - p"
  have v: "of_nat v = (of_int (nearest (x * 10 ^ p)) :: rat)"
    using nearest_mono_0 [of "x * 10 ^ p"] assms by (simp add: v_def)
  have len: "Suc p \<le> length ds" by (simp add: ds_def zero_padded_def)
  then have n: "length (drop n ds) = p" by (simp add: n_def)
  have num: "number_of_digits ds = v" by (simp add: ds_def zero_padded_def number_of_zeros number_of_decimal)
  have t: "fixed_text p x = take n ds @ (if p = 0 then [] else CHR ''.'' # drop n ds)"
    by (simp add: fixed_text_def Let_def ds_def n_def v_def)
  have pt: "\<forall>c \<in> set ds. c \<noteq> CHR ''.''" using no_point by (auto simp: ds_def)
  have a: "takeWhile (\<lambda>c. c \<noteq> CHR ''.'') (fixed_text p x) = take n ds"
  proof -
    have "\<forall>c \<in> set (take n ds). c \<noteq> CHR ''.''" using pt by (meson in_set_takeD)
    then show ?thesis unfolding t by (cases "p = 0") simp_all
  qed
  have b: "drop (Suc (length (take n ds))) (fixed_text p x) = drop n ds"
  proof (cases "p = 0")
    case True
    then show ?thesis unfolding t by (simp add: n_def)
  qed (simp add: t)
  show ?thesis
    unfolding read_fixed_def Let_def a b by (simp only: append_take_drop_id num n v)
qed

lemma fixed_text_error: "0 \<le> x \<Longrightarrow> \<bar>read_fixed (fixed_text p x) - x\<bar> \<le> 1 / (2 * 10 ^ p)"
proof -
  assume "0 \<le> x"
  let ?s = "10 ^ p :: rat"
  have "\<bar>of_int (nearest (x * ?s)) / ?s - x\<bar> * ?s = \<bar>of_int (nearest (x * ?s)) - x * ?s\<bar>"
    by (simp add: abs_if field_simps)
  also have "\<dots> \<le> 1 / 2" using nearest_error [of "x * ?s"] by simp
  finally show ?thesis unfolding read_fixed_text [OF \<open>0 \<le> x\<close>] by (simp add: field_simps)
qed

text \<open>The text of a computed quotient: half a unit of the last decimal, and what the roundings add.\<close>

definition shown :: "nat \<Rightarrow> rat \<Rightarrow> string \<Rightarrow> bool" where
  "shown p x s \<longleftrightarrow> \<bar>read_fixed s - x\<bar> \<le> 1 / (2 * 10 ^ p) + x / 2 ^ 48"

lemma about_shown: "about n x d \<Longrightarrow> n \<le> 16 \<Longrightarrow> shown p x (double_text p d)"
proof -
  assume "about n x d" "n \<le> 16"
  then obtain y where y: "d = Fin y" "close n x y" by (auto simp: about_def)
  have "\<bar>y - x\<bar> \<le> x / 2 ^ 48" "\<bar>read_fixed (fixed_text p y) - y\<bar> \<le> 1 / (2 * 10 ^ p)"
    using fixed_text_error [of y p] close_error [OF y(2) \<open>n \<le> 16\<close>] close_nonneg [OF y(2)] by simp_all
  then show ?thesis unfolding shown_def y(1) double_text.simps by linarith
qed

end
