(* ===== verification/Matching_Engine.thy ===== *)
theory Matching_Engine
  imports Book_Interface Message_Queue Doubles
begin

text \<open>
  \<open>MatchingEngine\<close> (\<open>src/engine/matching_engine.h\<close>): the loop of the engine's thread over the
  messages it pops, the latencies it records, and the report made from them.  The clock is a
  parameter: \<open>clock k\<close> is what the \<open>k\<close>-th call of \<open>clock_gettime\<close> delivers.
\<close>

section \<open>State\<close>

record engine =
  e_book :: bitset_book
  latencies :: "u64 list"
  queue_latencies :: "u64 list"
  ready :: bool

record timespec =
  tv_sec :: int
  tv_nsec :: int

text \<open>\<open>ts.tv_sec * 1'000'000'000ULL + ts.tv_nsec\<close>, in \<open>uint64_t\<close>.\<close>

definition now_ns :: "timespec \<Rightarrow> u64" where
  "now_ns ts = word_of_int (tv_sec ts) * 1000000000 + word_of_int (tv_nsec ts)"

definition new_engine :: "bitset_book \<Rightarrow> engine" where
  "new_engine b = \<lparr>e_book = b, latencies = [], queue_latencies = [], ready = False\<rparr>"

section \<open>The engine's loop\<close>

definition handle_message :: "OrderMessage \<Rightarrow> bitset_book \<Rightarrow> bitset_book exec" where
  "handle_message msg b =
     (if m_type msg = SUBMIT then submit_order b (m_id msg) (m_price msg) (m_qty msg) (m_is_buy msg)
      else if m_type msg = CANCEL then cancel_order b (m_id msg)
      else ret b)"

definition record_latencies :: "timespec \<Rightarrow> timespec \<Rightarrow> OrderMessage \<Rightarrow> engine \<Rightarrow> engine" where
  "record_latencies ts_pop ts msg e =
     e\<lparr>latencies := latencies e @ [now_ns ts - m_timestamp msg],
       queue_latencies := queue_latencies e @ [now_ns ts_pop - m_timestamp msg]\<rparr>"

definition process_message :: "timespec \<Rightarrow> timespec \<Rightarrow> OrderMessage \<Rightarrow> engine \<Rightarrow> engine exec" where
  "process_message ts_pop ts msg e =
     ebind (handle_message msg (e_book e)) (\<lambda>b. ret (record_latencies ts_pop ts msg (e\<lparr>e_book := b\<rparr>)))"

text \<open>
  \<open>while (true)\<close> over the messages that \<open>pop\<close> delivers.  The flag tells whether the loop has
  ended; with no message left it is waiting in \<open>pop\<close>.
\<close>

fun run_loop :: "(nat \<Rightarrow> timespec) \<Rightarrow> nat \<Rightarrow> OrderMessage list \<Rightarrow> engine \<Rightarrow> (engine \<times> bool) exec" where
  "run_loop clock k [] e = ret (e, False)"
| "run_loop clock k (msg # msgs) e =
     (if m_type msg = SHUTDOWN then ret (e, True)
      else ebind (process_message (clock k) (clock (Suc k)) msg e) (run_loop clock (k + 2) msgs))"

definition engine_run ::
  "(nat \<Rightarrow> timespec) \<Rightarrow> nat \<Rightarrow> OrderMessage list \<Rightarrow> engine \<Rightarrow> (engine \<times> bool) exec" where
  "engine_run clock max_orders msgs e =
     ebind (init (e_book e) max_orders) (\<lambda>b. run_loop clock 0 msgs (e\<lparr>e_book := b, ready := True\<rparr>))"

text \<open>\<open>stop\<close> pushes this message and joins the thread.\<close>

definition shutdown_message :: OrderMessage where
  "shutdown_message = zero_message\<lparr>m_type := SHUTDOWN\<rparr>"

section \<open>What the loop does to the book and the latencies\<close>

text \<open>The messages before the first \<open>SHUTDOWN\<close>, as commands on the book.\<close>

definition work :: "OrderMessage list \<Rightarrow> OrderMessage list" where
  "work msgs = takeWhile (\<lambda>m. m_type m \<noteq> SHUTDOWN) msgs"

definition command_of :: "OrderMessage \<Rightarrow> command" where
  "command_of m = (if m_type m = SUBMIT then Submit (m_id m) (m_price m) (m_qty m) (m_is_buy m) else Cancel (m_id m))"

definition queue_ns :: "(nat \<Rightarrow> timespec) \<Rightarrow> nat \<Rightarrow> OrderMessage list \<Rightarrow> u64 list" where
  "queue_ns clock k ms = map (\<lambda>(i, m). now_ns (clock (k + 2 * i)) - m_timestamp m) (enumerate 0 ms)"

definition e2e_ns :: "(nat \<Rightarrow> timespec) \<Rightarrow> nat \<Rightarrow> OrderMessage list \<Rightarrow> u64 list" where
  "e2e_ns clock k ms = map (\<lambda>(i, m). now_ns (clock (k + 2 * i + 1)) - m_timestamp m) (enumerate 0 ms)"

lemma enumerate_Suc_shift: "enumerate (Suc n) xs = map (\<lambda>(i, x). (Suc i, x)) (enumerate n xs)"
  by (induction xs arbitrary: n) auto

lemma ns_Cons:
  "queue_ns clock k (m # ms) = (now_ns (clock k) - m_timestamp m) # queue_ns clock (k + 2) ms"
  "e2e_ns clock k (m # ms) = (now_ns (clock (Suc k)) - m_timestamp m) # e2e_ns clock (k + 2) ms"
  by (auto simp: queue_ns_def e2e_ns_def enumerate_Suc_shift algebra_simps)

lemma work_Cons: "work (m # ms) = (if m_type m = SHUTDOWN then [] else m # work ms)"
  by (simp add: work_def)

theorem run_loop_refines:
  assumes "bitset_refines (e_book e) a" and "commands_ok submit_ok (map command_of (work msgs)) a"
  shows "returns (run_loop clock k msgs e) (\<lambda>(e', stopped).
    bitset_refines (e_book e') (spec_commands (map command_of (work msgs)) a) \<and>
    latencies e' = latencies e @ e2e_ns clock k (work msgs) \<and>
    queue_latencies e' = queue_latencies e @ queue_ns clock k (work msgs) \<and>
    (stopped \<longleftrightarrow> (\<exists>m \<in> set msgs. m_type m = SHUTDOWN)) \<and> ready e' = ready e)"
  using assms
proof (induction msgs arbitrary: k e a)
  case Nil
  then show ?case by (simp add: work_def e2e_ns_def queue_ns_def)
next
  case (Cons m ms)
  show ?case
  proof (cases "m_type m = SHUTDOWN")
    case True
    then show ?thesis using Cons.prems by (simp add: work_def e2e_ns_def queue_ns_def)
  next
    case False
    let ?a1 = "spec_command (command_of m) a"
    have ok: "command_ok submit_ok (command_of m) a" "commands_ok submit_ok (map command_of (work ms)) ?a1"
      using Cons.prems(2) False by (simp_all add: work_Cons)
    have "returns (do_command bitset_ops (command_of m) (e_book e)) (\<lambda>b. bitset_refines b ?a1)"
      by (rule bitset_if.command_refines [OF Cons.prems(1) ok(1)])
    then obtain b where b: "do_command bitset_ops (command_of m) (e_book e) = ret b" "bitset_refines b ?a1"
      by (auto simp: returns_def)
    define e1 where "e1 = e\<lparr>e_book := b, latencies := latencies e @ [now_ns (clock (Suc k)) - m_timestamp m],
      queue_latencies := queue_latencies e @ [now_ns (clock k) - m_timestamp m]\<rparr>"
    have "process_message (clock k) (clock (Suc k)) m e = ret e1"
      using b(1) False by (cases "m_type m") (simp_all add: process_message_def handle_message_def record_latencies_def
          command_of_def bitset_ops_def e1_def)
    then have run: "run_loop clock k (m # ms) e = run_loop clock (k + 2) ms e1" using False by simp
    have "returns (run_loop clock (k + 2) ms e1) (\<lambda>(e', stopped).
        bitset_refines (e_book e') (spec_commands (map command_of (work ms)) ?a1) \<and>
        latencies e' = latencies e1 @ e2e_ns clock (k + 2) (work ms) \<and>
        queue_latencies e' = queue_latencies e1 @ queue_ns clock (k + 2) (work ms) \<and>
        (stopped \<longleftrightarrow> (\<exists>m \<in> set ms. m_type m = SHUTDOWN)) \<and> ready e' = ready e1)"
      by (rule Cons.IH) (use b(2) ok(2) in \<open>simp_all add: e1_def\<close>)
    then show ?thesis
      unfolding run by (rule returns_mono) (use False in \<open>auto simp: work_Cons ns_Cons e1_def\<close>)
  qed
qed

theorem engine_run_refines:
  assumes "array_shaped (e_book e)" and "0 < n" and "n \<le> 4294967295"
    and "commands_ok submit_ok (map command_of (work msgs)) (spec_init n)"
  shows "returns (engine_run clock n msgs e) (\<lambda>(e', stopped).
    bitset_refines (e_book e') (spec_commands (map command_of (work msgs)) (spec_init n)) \<and>
    latencies e' = latencies e @ e2e_ns clock 0 (work msgs) \<and>
    queue_latencies e' = queue_latencies e @ queue_ns clock 0 (work msgs) \<and>
    (stopped \<longleftrightarrow> (\<exists>m \<in> set msgs. m_type m = SHUTDOWN)) \<and> ready e')"
proof -
  obtain b where b: "init (e_book e) n = ret b" "bitset_refines b (spec_init n)"
    using bitset_if.init_law [OF assms(1-3)] by (auto simp: returns_def bitset_ops_def)
  have "returns (run_loop clock 0 msgs (e\<lparr>e_book := b, ready := True\<rparr>)) (\<lambda>(e', stopped).
    bitset_refines (e_book e') (spec_commands (map command_of (work msgs)) (spec_init n)) \<and>
    latencies e' = latencies (e\<lparr>e_book := b, ready := True\<rparr>) @ e2e_ns clock 0 (work msgs) \<and>
    queue_latencies e' = queue_latencies (e\<lparr>e_book := b, ready := True\<rparr>) @ queue_ns clock 0 (work msgs) \<and>
    (stopped \<longleftrightarrow> (\<exists>m \<in> set msgs. m_type m = SHUTDOWN)) \<and> ready e' = ready (e\<lparr>e_book := b, ready := True\<rparr>))"
    by (rule run_loop_refines) (use b(2) assms(4) in simp_all)
  then show ?thesis by (simp add: engine_run_def b(1) split_beta)
qed

section \<open>One message more\<close>

lemma run_loop_snoc:
  "run_loop clock k (ms @ [m]) e = ebind (run_loop clock k ms e) (\<lambda>(e', stopped).
     if stopped then ret (e', True) else run_loop clock (k + 2 * length ms) [m] e')"
proof (induction ms arbitrary: k e)
  case (Cons m' ms)
  have at: "k + 2 * length (m' # ms) = k + 2 + 2 * length ms" by simp
  have "run_loop clock (k + 2) (ms @ [m]) = (\<lambda>e. ebind (run_loop clock (k + 2) ms e) (\<lambda>(e', stopped).
     if stopped then ret (e', True) else run_loop clock (k + 2 * length (m' # ms)) [m] e'))"
    unfolding at by (rule ext) (rule Cons.IH)
  then show ?case by (simp add: ebind_assoc)
qed simp

lemma run_loop_cong:
  assumes "\<And>i. i < 2 * length ms \<Longrightarrow> clock' (k + i) = clock (k + i)"
  shows "run_loop clock' k ms e = run_loop clock k ms e"
  using assms
proof (induction ms arbitrary: k e)
  case (Cons m ms)
  have "clock' k = clock k" "clock' (Suc k) = clock (Suc k)"
    using Cons.prems [of 0] Cons.prems [of 1] by simp_all
  moreover have "run_loop clock' (k + 2) ms = run_loop clock (k + 2) ms"
    using Cons.IH [of "k + 2"] Cons.prems [of "i + 2" for i] by (auto simp: add.assoc fun_eq_iff)
  ultimately show ?case by simp
qed simp

lemma process_message_facts:
  assumes "process_message tp ts m e = ret e'"
  shows "ready e' = ready e" and "length (latencies e') = Suc (length (latencies e))"
    and "length (queue_latencies e') = Suc (length (queue_latencies e))"
  using assms by (auto simp: process_message_def record_latencies_def ebind_eq_ret)

lemma run_loop_facts:
  assumes "run_loop clock k ms e = ret (e', stopped)"
  shows "ready e' = ready e \<and> (stopped \<longleftrightarrow> (\<exists>m \<in> set ms. m_type m = SHUTDOWN)) \<and>
    length (latencies e') = length (latencies e) + length (work ms) \<and>
    length (queue_latencies e') = length (queue_latencies e) + length (work ms)"
  using assms
proof (induction ms arbitrary: k e)
  case (Cons m ms)
  show ?case
  proof (cases "m_type m = SHUTDOWN")
    case False
    then obtain e1 where e1: "process_message (clock k) (clock (Suc k)) m e = ret e1"
      "run_loop clock (k + 2) ms e1 = ret (e', stopped)"
      using Cons.prems by (auto simp: ebind_eq_ret)
    from Cons.IH [OF e1(2)] process_message_facts [OF e1(1)] False show ?thesis by (auto simp: work_Cons)
  qed (use Cons.prems in \<open>simp add: work_Cons\<close>)
qed (simp add: work_def)

lemma engine_run_facts:
  assumes "engine_run clock n ms e = ret (e', stopped)"
  shows "ready e'" and "stopped \<longleftrightarrow> (\<exists>m \<in> set ms. m_type m = SHUTDOWN)"
    and "length (latencies e') = length (latencies e) + length (work ms)"
    and "length (queue_latencies e') = length (queue_latencies e) + length (work ms)"
  using assms by (auto simp: engine_run_def ebind_eq_ret dest!: run_loop_facts)

lemma engine_run_shutdown:
  assumes "engine_run clock n ms e = ret (e', False)" and "m_type m = SHUTDOWN"
  shows "engine_run clock n (ms @ [m]) e = ret (e', True)"
  using assms by (auto simp: engine_run_def ebind_eq_ret run_loop_snoc)

lemma engine_run_next:
  assumes run: "engine_run clock n ms e = ret (e', False)" and "m_type m \<noteq> SHUTDOWN"
    and "handle_message m (e_book e') = ret b"
  shows "\<exists>clock'. engine_run clock' n (ms @ [m]) e = ret (record_latencies tp ts m (e'\<lparr>e_book := b\<rparr>), False)"
proof -
  let ?c = "clock(2 * length ms := tp, Suc (2 * length ms) := ts)"
  have "run_loop ?c 0 ms e1 = run_loop clock 0 ms e1" for e1 by (rule run_loop_cong) simp
  with assms show ?thesis
    by (intro exI [of _ ?c]) (auto simp: engine_run_def ebind_eq_ret run_loop_snoc process_message_def)
qed

section \<open>The report\<close>

text \<open>
  \<open>(size_t)(n * c)\<close> for a double constant \<open>c = m / 2 ^ 53\<close> (with \<open>0 < c < 1\<close>) and an \<open>n\<close> that is
  exact as a double: the product is rounded to 53 significant bits, ties to even, and
  truncated.
\<close>

definition mul_trunc :: "nat \<Rightarrow> nat \<Rightarrow> nat" where
  "mul_trunc n m = round_double (n * m) div 2 ^ 53"

text \<open>The doubles nearest to 0.50, 0.99 and 0.999.\<close>

definition P50 :: nat where "P50 = 4503599627370496"
definition P99 :: nat where "P99 = 8917127262193582"
definition P999 :: nat where "P999 = 8998192055486251"

definition percentiles :: "u64 list \<Rightarrow> u64 list exec" where
  "percentiles xs =
     ebind (arr_get xs (mul_trunc (length xs) P50)) (\<lambda>p50.
     ebind (arr_get xs (mul_trunc (length xs) P99)) (\<lambda>p99.
     ebind (arr_get xs (mul_trunc (length xs) P999)) (\<lambda>p999. ret [p50, p99, p999])))"

text \<open>The six numbers that \<open>report\<close> prints; it sorts the vectors in place.\<close>

definition report :: "engine \<Rightarrow> (engine \<times> u64 list) exec" where
  "report e =
     (let e1 = e\<lparr>latencies := sort (latencies e), queue_latencies := sort (queue_latencies e)\<rparr> in
      ebind (percentiles (latencies e1)) (\<lambda>ps.
      ebind (percentiles (queue_latencies e1)) (\<lambda>qs. ret (e1, ps @ qs))))"

text \<open>The lines that \<open>dump_latencies\<close> writes when the file opens.\<close>

fun dump_rows :: "u64 list \<Rightarrow> u64 list \<Rightarrow> nat list \<Rightarrow> string list exec" where
  "dump_rows ls qs [] = ret []"
| "dump_rows ls qs (i # is) =
     ebind (arr_get ls i) (\<lambda>l. ebind (arr_get qs i) (\<lambda>q.
     ebind (dump_rows ls qs is) (\<lambda>rows. ret ((decimal (unat l) @ '','' @ decimal (unat q)) # rows))))"

definition dump_latencies :: "engine \<Rightarrow> string list exec" where
  "dump_latencies e =
     ebind (dump_rows (latencies e) (queue_latencies e) [0..<length (latencies e)]) (\<lambda>rows.
     ret (''e2e_ns,queue_ns'' # rows))"

lemma mul_trunc_less:
  assumes "0 < n" and "0 < m" and "m \<le> 2 ^ 53 - 2"
  shows "mul_trunc n m < n"
proof -
  have "2 ^ 53 * round_double (n * m) \<le> (2 ^ 53 + 1) * (n * m)"
    using round_double_le [of "n * m"] assms by (simp add: algebra_simps)
  also have "\<dots> = n * ((2 ^ 53 + 1) * m)" by (simp add: algebra_simps)
  also have "\<dots> < n * (2 ^ 53 * 2 ^ 53)"
  proof -
    have "(2 ^ 53 + 1) * m \<le> (2 ^ 53 + 1) * (2 ^ 53 - 2)" using assms(3) by (rule mult_le_mono2)
    also have "\<dots> < (2 ^ 53 * 2 ^ 53 :: nat)" by simp
    finally show ?thesis using assms(1) by simp
  qed
  finally have "round_double (n * m) < n * 2 ^ 53" by simp
  then show ?thesis by (simp add: mul_trunc_def less_mult_imp_div_less)
qed

lemma mul_trunc_mono: "m \<le> m' \<Longrightarrow> mul_trunc n m \<le> mul_trunc n m'"
  by (simp add: mul_trunc_def round_double_mono div_le_mono)

lemma mul_trunc_half: "n < 2 ^ 53 \<Longrightarrow> mul_trunc n P50 = n div 2"
proof -
  assume n: "n < 2 ^ 53"
  have c: "P50 = 2 ^ 52" by (simp add: P50_def)
  have "n * P50 < 2 ^ 53 * 2 ^ 52" using n unfolding c by (rule mult_strict_right_mono) simp
  then have "bit_length (n * P50) \<le> 105" using bit_length_least_of [of "n * P50" 105] by simp
  then have "(2 :: nat) ^ (bit_length (n * P50) - 53) dvd 2 ^ 52" by (intro le_imp_power_dvd) simp
  then have "round_double (n * P50) = n * 2 ^ 52"
    unfolding c by (intro round_double_exact dvd_mult)
  then have "mul_trunc n P50 = n * 2 ^ 52 div (2 * 2 ^ 52)" by (simp add: mul_trunc_def)
  also have "\<dots> = n div 2" by (rule div_mult_mult2) simp
  finally show ?thesis .
qed

lemma quantile_index:
  assumes "xs \<noteq> []"
  shows "mul_trunc (length xs) P50 < length xs" "mul_trunc (length xs) P99 < length xs" "mul_trunc (length xs) P999 < length xs"
    "mul_trunc (length xs) P50 \<le> mul_trunc (length xs) P99" "mul_trunc (length xs) P99 \<le> mul_trunc (length xs) P999"
proof -
  have n: "0 < length xs" using assms by simp
  show "mul_trunc (length xs) P50 < length xs" "mul_trunc (length xs) P99 < length xs" "mul_trunc (length xs) P999 < length xs"
    by (rule mul_trunc_less [OF n]; simp add: P50_def P99_def P999_def)+
  show "mul_trunc (length xs) P50 \<le> mul_trunc (length xs) P99" "mul_trunc (length xs) P99 \<le> mul_trunc (length xs) P999"
    by (rule mul_trunc_mono, simp add: P50_def P99_def P999_def)+
qed

text \<open>The three values are elements in ascending order; the first is the upper median.\<close>

definition quantiles_of :: "u64 list \<Rightarrow> u64 list \<Rightarrow> bool" where
  "quantiles_of xs ps \<longleftrightarrow> length ps = 3 \<and> sorted ps \<and> set ps \<subseteq> set xs \<and>
     (length xs < 2 ^ 53 \<longrightarrow> ps ! 0 = sort xs ! (length xs div 2))"

theorem percentiles_return:
  assumes "xs \<noteq> []"
  shows "returns (percentiles (sort xs)) (quantiles_of xs)"
proof -
  have ne: "sort xs \<noteq> []" using assms by (metis length_0_conv length_sort)
  note ix = quantile_index [OF ne, unfolded length_sort]
  have "sorted [sort xs ! mul_trunc (length xs) P50, sort xs ! mul_trunc (length xs) P99, sort xs ! mul_trunc (length xs) P999]"
    using ix by (auto intro!: sorted_nth_mono)
  moreover have "sort xs ! i \<in> set xs" if "i < length xs" for i
    using nth_mem [of i "sort xs"] that by simp
  ultimately show ?thesis
    using ix mul_trunc_half [of "length xs"] by (simp add: percentiles_def quantiles_of_def)
qed

lemma report_returns:
  assumes "latencies e \<noteq> []" and "queue_latencies e \<noteq> []"
  shows "returns (report e) (\<lambda>(e', ps). e_book e' = e_book e \<and> latencies e' = sort (latencies e) \<and>
    queue_latencies e' = sort (queue_latencies e) \<and>
    quantiles_of (latencies e) (take 3 ps) \<and> quantiles_of (queue_latencies e) (drop 3 ps))"
proof -
  obtain ps qs where "percentiles (sort (latencies e)) = ret ps" "quantiles_of (latencies e) ps"
    "percentiles (sort (queue_latencies e)) = ret qs" "quantiles_of (queue_latencies e) qs"
    using percentiles_return [OF assms(1)] percentiles_return [OF assms(2)] by (auto simp: returns_def)
  moreover from this have "length ps = 3" by (simp add: quantiles_of_def)
  ultimately show ?thesis by (simp add: report_def Let_def)
qed

lemma percentiles_empty: "percentiles [] = stop OutOfBounds"
  by (simp add: percentiles_def)

lemma dump_rows_return:
  "\<forall>i \<in> set is. i < length ls \<and> i < length qs \<Longrightarrow>
   dump_rows ls qs is = ret (map (\<lambda>i. decimal (unat (ls ! i)) @ '','' @ decimal (unat (qs ! i))) is)"
  by (induction "is") auto

text \<open>What a run leaves to dump: one line per message, end-to-end time first.\<close>

lemma ns_length [simp]: "length (e2e_ns clock k ms) = length ms" "length (queue_ns clock k ms) = length ms"
  by (simp_all add: e2e_ns_def queue_ns_def)

definition dump_text :: "u64 list \<Rightarrow> u64 list \<Rightarrow> string list" where
  "dump_text ls qs = ''e2e_ns,queue_ns'' # map (\<lambda>(l, q). decimal (unat l) @ '','' @ decimal (unat q)) (zip ls qs)"

lemma dump_latencies_returns:
  assumes "length (queue_latencies e) = length (latencies e)"
  shows "dump_latencies e = ret (dump_text (latencies e) (queue_latencies e))"
proof -
  have "map (\<lambda>i. decimal (unat (latencies e ! i)) @ '','' @ decimal (unat (queue_latencies e ! i))) [0..<length (latencies e)] =
    map (\<lambda>(l, q). decimal (unat l) @ '','' @ decimal (unat q)) (zip (latencies e) (queue_latencies e))"
    by (rule nth_equalityI) (simp_all add: assms)
  with assms show ?thesis by (simp add: dump_latencies_def dump_text_def dump_rows_return)
qed

text \<open>An engine that processed nothing has nothing to report on.\<close>

lemma report_empty: "latencies e = [] \<Longrightarrow> report e = stop OutOfBounds"
  by (simp add: report_def percentiles_empty)

end
