(* ===== verification/Spsc_Queue.thy ===== *)
theory Spsc_Queue
  imports Message_Queue
begin

text \<open>
  \<open>SPSCQueue<N, Cached>\<close> (\<open>src/engine/spsc_queue.h\<close>), as a transition system: one producer
  thread inside \<open>push\<close>, one consumer thread inside \<open>pop\<close>, each moving one load, store or slot
  access at a time.  The indices are 64-bit words.

  The memory is that of acquire and release.  Each index has one writer, and its stores are
  numbered: store number \<open>v\<close> of \<open>head_\<close> or \<open>tail_\<close> writes \<open>v\<close>.  An acquire load returns any store
  that is not older than the one the thread last read, not just the newest, and what happened
  before that store is then ordered before the thread's later accesses.  Slots are not
  atomic: two accesses of the same slot, one of them a write, that are not ordered are a data
  race.  The step relation stops before a race, and within the queue's contract there is none.
\<close>

unbundle bit_operations_syntax

section \<open>State\<close>

text \<open>The program counters, with the locals live there.\<close>

datatype 'm producer =
    PIdle
  | PCheck 'm (tail_idx: u64) (next_tail_idx: u64)
  | PSpin 'm (tail_idx: u64) (next_tail_idx: u64)
  | PWrite 'm (tail_idx: u64)
  | PPublish 'm (tail_idx: u64)

datatype 'm consumer =
    CIdle
  | CCheck (head_idx: u64)
  | CSpin (head_idx: u64)
  | CRead (head_idx: u64)
  | CPublish (head_idx: u64) 'm

record 'm spsc =
  q_buffer :: "'m list"
  q_head :: u64
  tail_cached :: u64
  q_tail :: u64
  head_cached :: u64
  producer :: "'m producer"
  consumer :: "'m consumer"
  pushed :: "'m list"   \<comment> \<open>the messages of completed pushes\<close>
  popped :: "'m list"   \<comment> \<open>the messages of completed pops\<close>
  head_view :: nat      \<comment> \<open>the store of \<open>head_\<close> that the producer has last read\<close>
  tail_view :: nat      \<comment> \<open>the store of \<open>tail_\<close> that the consumer has last read\<close>

definition q_mask :: "nat \<Rightarrow> u64" where
  "q_mask N = of_nat N - 1"

definition slot :: "nat \<Rightarrow> u64 \<Rightarrow> nat" where
  "slot N idx = unat (idx AND q_mask N)"

definition spsc_start :: "'m \<Rightarrow> nat \<Rightarrow> 'm spsc" where
  "spsc_start d N = \<lparr>q_buffer = replicate N d, q_head = 0, tail_cached = 0, q_tail = 0, head_cached = 0,
     producer = PIdle, consumer = CIdle, pushed = [], popped = [], head_view = 0, tail_view = 0\<rparr>"

section \<open>Steps\<close>

text \<open>\<open>v\<close> is the number of the store that an acquire load returns.\<close>

definition push_step :: "bool \<Rightarrow> nat \<Rightarrow> 'm \<Rightarrow> nat \<Rightarrow> 'm spsc \<Rightarrow> 'm spsc" where
  "push_step cached N msg v s = (case producer s of
     PIdle \<Rightarrow> s\<lparr>producer := PCheck msg (q_tail s) ((q_tail s + 1) AND q_mask N)\<rparr>
   | PCheck m t nx \<Rightarrow>
       if cached \<and> nx \<noteq> head_cached s then s\<lparr>producer := PWrite m t\<rparr>
       else s\<lparr>producer := PSpin m t nx\<rparr>
   | PSpin m t nx \<Rightarrow>
       if nx = of_nat v then s\<lparr>head_view := v\<rparr>
       else s\<lparr>head_view := v, head_cached := (if cached then of_nat v else head_cached s), producer := PWrite m t\<rparr>
   | PWrite m t \<Rightarrow> s\<lparr>q_buffer := (q_buffer s)[slot N t := m], producer := PPublish m t\<rparr>
   | PPublish m t \<Rightarrow> s\<lparr>q_tail := t + 1, producer := PIdle, pushed := pushed s @ [m]\<rparr>)"

definition pop_step :: "bool \<Rightarrow> nat \<Rightarrow> nat \<Rightarrow> 'm spsc \<Rightarrow> 'm spsc" where
  "pop_step cached N v s = (case consumer s of
     CIdle \<Rightarrow> s\<lparr>consumer := CCheck (q_head s)\<rparr>
   | CCheck h \<Rightarrow>
       if cached \<and> h \<noteq> tail_cached s then s\<lparr>consumer := CRead h\<rparr>
       else s\<lparr>consumer := CSpin h\<rparr>
   | CSpin h \<Rightarrow>
       if h = of_nat v then s\<lparr>tail_view := v\<rparr>
       else s\<lparr>tail_view := v, tail_cached := (if cached then of_nat v else tail_cached s), consumer := CRead h\<rparr>
   | CRead h \<Rightarrow> s\<lparr>consumer := CPublish h (q_buffer s ! slot N h)\<rparr>
   | CPublish h m \<Rightarrow> s\<lparr>q_head := h + 1, consumer := CIdle, popped := popped s @ [m]\<rparr>)"

lemma push_step_simps [simp]:
  "producer s = PIdle \<Longrightarrow> push_step cached N msg v s = s\<lparr>producer := PCheck msg (q_tail s) ((q_tail s + 1) AND q_mask N)\<rparr>"
  "producer s = PCheck m t nx \<Longrightarrow> push_step cached N msg v s =
     (if cached \<and> nx \<noteq> head_cached s then s\<lparr>producer := PWrite m t\<rparr> else s\<lparr>producer := PSpin m t nx\<rparr>)"
  "producer s = PSpin m t nx \<Longrightarrow> push_step cached N msg v s = (if nx = of_nat v then s\<lparr>head_view := v\<rparr>
     else s\<lparr>head_view := v, head_cached := (if cached then of_nat v else head_cached s), producer := PWrite m t\<rparr>)"
  "producer s = PWrite m t \<Longrightarrow> push_step cached N msg v s =
     s\<lparr>q_buffer := (q_buffer s)[slot N t := m], producer := PPublish m t\<rparr>"
  "producer s = PPublish m t \<Longrightarrow> push_step cached N msg v s =
     s\<lparr>q_tail := t + 1, producer := PIdle, pushed := pushed s @ [m]\<rparr>"
  by (simp_all add: push_step_def)

lemma pop_step_simps [simp]:
  "consumer s = CIdle \<Longrightarrow> pop_step cached N v s = s\<lparr>consumer := CCheck (q_head s)\<rparr>"
  "consumer s = CCheck h \<Longrightarrow> pop_step cached N v s =
     (if cached \<and> h \<noteq> tail_cached s then s\<lparr>consumer := CRead h\<rparr> else s\<lparr>consumer := CSpin h\<rparr>)"
  "consumer s = CSpin h \<Longrightarrow> pop_step cached N v s = (if h = of_nat v then s\<lparr>tail_view := v\<rparr>
     else s\<lparr>tail_view := v, tail_cached := (if cached then of_nat v else tail_cached s), consumer := CRead h\<rparr>)"
  "consumer s = CRead h \<Longrightarrow> pop_step cached N v s = s\<lparr>consumer := CPublish h (q_buffer s ! slot N h)\<rparr>"
  "consumer s = CPublish h m \<Longrightarrow> pop_step cached N v s = s\<lparr>q_head := h + 1, consumer := CIdle, popped := popped s @ [m]\<rparr>"
  by (simp_all add: pop_step_def)

text \<open>
  The next access of a slot is a race: the producer is about to write a slot that the consumer
  has read in a pop the producer has not seen complete, or the consumer is about to read a
  slot that the producer has written in a push the consumer has not seen complete.
\<close>

definition slot_writes :: "'m spsc \<Rightarrow> nat" where
  "slot_writes s = length (pushed s) + (case producer s of PPublish m t \<Rightarrow> 1 | _ \<Rightarrow> 0)"

definition slot_reads :: "'m spsc \<Rightarrow> nat" where
  "slot_reads s = length (popped s) + (case consumer s of CPublish h m \<Rightarrow> 1 | _ \<Rightarrow> 0)"

definition push_races :: "nat \<Rightarrow> 'm spsc \<Rightarrow> bool" where
  "push_races N s = (case producer s of
     PWrite m t \<Rightarrow> \<exists>i \<in> {head_view s..<slot_reads s}. slot N (of_nat i) = slot N t | _ \<Rightarrow> False)"

definition pop_races :: "nat \<Rightarrow> 'm spsc \<Rightarrow> bool" where
  "pop_races N s = (case consumer s of
     CRead h \<Rightarrow> \<exists>i \<in> {tail_view s..<slot_writes s}. slot N (of_nat i) = slot N h | _ \<Rightarrow> False)"

inductive spsc_step :: "bool \<Rightarrow> nat \<Rightarrow> 'm spsc \<Rightarrow> 'm spsc \<Rightarrow> bool" for cached N where
  producer_moves: "head_view s \<le> v \<Longrightarrow> v \<le> length (popped s) \<Longrightarrow> \<not> push_races N s \<Longrightarrow>
    spsc_step cached N s (push_step cached N msg v s)"
| consumer_moves: "tail_view s \<le> v \<Longrightarrow> v \<le> length (pushed s) \<Longrightarrow> \<not> pop_races N s \<Longrightarrow>
    spsc_step cached N s (pop_step cached N v s)"

inductive_cases spsc_stepE: "spsc_step cached N s t"

definition spsc_started :: "'m spsc \<Rightarrow> nat" where
  "spsc_started s = length (pushed s) + (if producer s = PIdle then 0 else 1)"

text \<open>A thread spins when the loop test of its slow path holds.\<close>

definition push_spins :: "'m spsc \<Rightarrow> bool" where
  "push_spins s = (case producer s of PSpin m t nx \<Rightarrow> nx = q_head s | _ \<Rightarrow> False)"

definition pop_spins :: "'m spsc \<Rightarrow> bool" where
  "pop_spins s = (case consumer s of CSpin h \<Rightarrow> h = q_tail s | _ \<Rightarrow> False)"

section \<open>Masks\<close>

text \<open>For a power of two the mask is the remainder.\<close>

lemma q_mask_pow2: "k \<le> 63 \<Longrightarrow> q_mask (2 ^ k) = mask k"
  by (simp add: q_mask_def mask_eq_decr_exp)

lemma slot_mod:
  assumes "N = 2 ^ k" and "k \<le> 63"
  shows "slot N idx = unat idx mod N"
proof -
  have "idx AND q_mask N = take_bit k idx"
    unfolding assms(1) q_mask_pow2 [OF assms(2)] take_bit_eq_mask ..
  then have "slot N idx = take_bit k (unat idx)"
    by (simp only: slot_def unsigned_take_bit_eq)
  then show ?thesis by (simp add: assms(1) take_bit_eq_mod)
qed

section \<open>The invariant of the first two laps\<close>

text \<open>
  What the producer believes the consumer's index to be: the cached copy, or what it last read.
\<close>

definition seen :: "bool \<Rightarrow> 'm spsc \<Rightarrow> nat" where
  "seen cached s = (if cached then unat (head_cached s) else head_view s)"

lemma seen_upd [simp]:
  "seen cached (s\<lparr>q_buffer := bs\<rparr>) = seen cached s" "seen cached (s\<lparr>producer := pc\<rparr>) = seen cached s"
  "seen cached (s\<lparr>consumer := cc\<rparr>) = seen cached s" "seen cached (s\<lparr>tail_cached := i\<rparr>) = seen cached s"
  "seen cached (s\<lparr>q_tail := i\<rparr>) = seen cached s" "seen cached (s\<lparr>pushed := xs\<rparr>) = seen cached s"
  "seen cached (s\<lparr>popped := xs\<rparr>) = seen cached s" "seen cached (s\<lparr>q_head := i\<rparr>) = seen cached s"
  "seen cached (s\<lparr>tail_view := v\<rparr>) = seen cached s"
  by (simp_all add: seen_def)

definition ring_ok :: "bool \<Rightarrow> nat \<Rightarrow> 'm spsc \<Rightarrow> bool" where
  "ring_ok cached N s \<longleftrightarrow>
     length (q_buffer s) = N \<and>
     unat (q_tail s) = length (pushed s) \<and> unat (q_head s) = length (popped s) \<and>
     length (popped s) \<le> length (pushed s) \<and> length (pushed s) \<le> length (popped s) + N \<and>
     popped s = take (length (popped s)) (pushed s) \<and>
     (\<forall>i. length (popped s) \<le> i \<and> i < length (pushed s) \<longrightarrow> q_buffer s ! (i mod N) = pushed s ! i) \<and>
     unat (head_cached s) \<le> head_view s \<and> head_view s \<le> length (popped s) \<and>
     (length (pushed s) < 2 * N \<longrightarrow> length (pushed s) + 1 \<le> N + seen cached s)"

definition producer_ok :: "bool \<Rightarrow> nat \<Rightarrow> 'm spsc \<Rightarrow> bool" where
  "producer_ok cached N s = (case producer s of
     PIdle \<Rightarrow> True
   | PCheck m t nx \<Rightarrow> t = q_tail s \<and> nx = (t + 1) AND q_mask N
   | PSpin m t nx \<Rightarrow> t = q_tail s \<and> nx = (t + 1) AND q_mask N
   | PWrite m t \<Rightarrow> t = q_tail s \<and> length (pushed s) < head_view s + N \<and>
       (length (pushed s) + 1 < 2 * N \<longrightarrow> length (pushed s) + 2 \<le> N + seen cached s)
   | PPublish m t \<Rightarrow> t = q_tail s \<and> length (pushed s) < head_view s + N \<and>
       (length (pushed s) + 1 < 2 * N \<longrightarrow> length (pushed s) + 2 \<le> N + seen cached s) \<and>
       q_buffer s ! (length (pushed s) mod N) = m)"

definition consumer_ok :: "bool \<Rightarrow> 'm spsc \<Rightarrow> bool" where
  "consumer_ok cached s = (case consumer s of
     CIdle \<Rightarrow> True
   | CCheck h \<Rightarrow> h = q_head s
   | CSpin h \<Rightarrow> h = q_head s
   | CRead h \<Rightarrow> h = q_head s \<and> length (popped s) < tail_view s \<and>
       (cached \<longrightarrow> length (popped s) < unat (tail_cached s))
   | CPublish h m \<Rightarrow> h = q_head s \<and> length (popped s) < tail_view s \<and>
       (cached \<longrightarrow> length (popped s) < unat (tail_cached s)) \<and> m = pushed s ! length (popped s))"

text \<open>What the consumer knows of the producer's index.\<close>

definition tail_ok :: "bool \<Rightarrow> 'm spsc \<Rightarrow> bool" where
  "tail_ok cached s \<longleftrightarrow> length (popped s) \<le> tail_view s \<and> tail_view s \<le> length (pushed s) \<and>
     (cached \<longrightarrow> length (popped s) \<le> unat (tail_cached s) \<and> unat (tail_cached s) \<le> tail_view s)"

lemma producer_ok_simps [simp]:
  "producer s = PIdle \<Longrightarrow> producer_ok cached N s"
  "producer s = PCheck m t nx \<Longrightarrow> producer_ok cached N s \<longleftrightarrow> t = q_tail s \<and> nx = (t + 1) AND q_mask N"
  "producer s = PSpin m t nx \<Longrightarrow> producer_ok cached N s \<longleftrightarrow> t = q_tail s \<and> nx = (t + 1) AND q_mask N"
  "producer s = PWrite m t \<Longrightarrow> producer_ok cached N s \<longleftrightarrow> t = q_tail s \<and> length (pushed s) < head_view s + N \<and>
     (length (pushed s) + 1 < 2 * N \<longrightarrow> length (pushed s) + 2 \<le> N + seen cached s)"
  "producer s = PPublish m t \<Longrightarrow> producer_ok cached N s \<longleftrightarrow> t = q_tail s \<and> length (pushed s) < head_view s + N \<and>
     (length (pushed s) + 1 < 2 * N \<longrightarrow> length (pushed s) + 2 \<le> N + seen cached s) \<and>
     q_buffer s ! (length (pushed s) mod N) = m"
  by (simp_all add: producer_ok_def)

lemma consumer_ok_simps [simp]:
  "consumer s = CIdle \<Longrightarrow> consumer_ok cached s"
  "consumer s = CCheck h \<Longrightarrow> consumer_ok cached s \<longleftrightarrow> h = q_head s"
  "consumer s = CSpin h \<Longrightarrow> consumer_ok cached s \<longleftrightarrow> h = q_head s"
  "consumer s = CRead h \<Longrightarrow> consumer_ok cached s \<longleftrightarrow> h = q_head s \<and> length (popped s) < tail_view s \<and>
     (cached \<longrightarrow> length (popped s) < unat (tail_cached s))"
  "consumer s = CPublish h m' \<Longrightarrow> consumer_ok cached s \<longleftrightarrow> h = q_head s \<and> length (popped s) < tail_view s \<and>
     (cached \<longrightarrow> length (popped s) < unat (tail_cached s)) \<and> m' = pushed s ! length (popped s)"
  by (simp_all add: consumer_ok_def)

definition spsc_inv :: "bool \<Rightarrow> nat \<Rightarrow> 'm spsc \<Rightarrow> bool" where
  "spsc_inv cached N s \<longleftrightarrow> ring_ok cached N s \<and> producer_ok cached N s \<and> consumer_ok cached s \<and>
     tail_ok cached s \<and> spsc_started s \<le> 2 * N"

lemma spsc_inv_start: "0 < N \<Longrightarrow> spsc_inv cached N (spsc_start d N)"
  by (simp add: spsc_inv_def ring_ok_def tail_ok_def spsc_start_def spsc_started_def seen_def)

lemma spsc_invD:
  assumes "spsc_inv cached N s"
  shows "ring_ok cached N s" and "producer_ok cached N s" and "consumer_ok cached s" and "tail_ok cached s"
    and "spsc_started s \<le> 2 * N"
  using assms by (simp_all add: spsc_inv_def)

text \<open>The full check of the code, in the first two laps: room for one more message.\<close>

lemma room_check:
  assumes N: "N = 2 ^ k" "k \<le> 62" and t: "unat t < 2 * N" and seen: "unat t + 1 \<le> N + unat c" "unat c \<le> unat t"
    and pass: "(t + 1) AND q_mask N \<noteq> c"
  shows "unat t + 1 < 2 * N \<Longrightarrow> unat t + 2 \<le> N + unat c"
proof -
  have small: "N \<le> 2 ^ 62" using power_increasing [OF N(2), of "2 :: nat"] N(1) by simp
  then have t1: "unat (t + 1) = unat t + 1" using t by (simp add: unat_word_ariths)
  have nx: "unat ((t + 1) AND q_mask N) = (unat t + 1) mod N"
    using slot_mod [OF N(1), of "t + 1"] N(2) by (simp add: slot_def t1)
  assume le: "unat t + 1 < 2 * N"
  show "unat t + 2 \<le> N + unat c"
  proof (rule ccontr)
    assume "\<not> ?thesis"
    with seen(1) have c: "unat t + 1 = N + unat c" by simp
    with le have "(unat t + 1) mod N = unat c" by simp
    with nx pass show False by (metis unsigned_word_eqI)
  qed
qed

section \<open>Every step keeps the invariant\<close>

lemma mod_eq_less: "i mod N = j mod N \<Longrightarrow> i \<le> j \<Longrightarrow> j < i + N \<Longrightarrow> i = (j :: nat)"
proof -
  assume eq: "i mod N = j mod N" and le: "i \<le> j" and lt: "j < i + N"
  then have "N dvd j - i" by (metis mod_eq_dvd_iff_nat)
  then have "j - i = 0" using lt by (metis dvd_imp_le gr0I less_diff_conv2 le linorder_not_less add.commute)
  with le show "i = j" by simp
qed

lemma idx_suc:
  assumes "N = 2 ^ k" and "k \<le> 62" and "unat (t :: u64) \<le> 2 * N"
  shows "unat (t + 1) = unat t + 1"
proof -
  have "N \<le> 2 ^ 62" using power_increasing [OF assms(2), of "2 :: nat"] assms(1) by simp
  then show ?thesis using assms(3) by (simp add: unat_word_ariths)
qed

lemma ring_okD:
  assumes "ring_ok cached N s"
  shows "length (q_buffer s) = N" and "unat (q_tail s) = length (pushed s)" and "unat (q_head s) = length (popped s)"
    and "length (popped s) \<le> length (pushed s)" and "length (pushed s) \<le> length (popped s) + N"
    and "popped s = take (length (popped s)) (pushed s)"
    and "length (popped s) \<le> i \<Longrightarrow> i < length (pushed s) \<Longrightarrow> q_buffer s ! (i mod N) = pushed s ! i"
    and "unat (head_cached s) \<le> head_view s" and "head_view s \<le> length (popped s)"
    and "length (pushed s) < 2 * N \<Longrightarrow> length (pushed s) + 1 \<le> N + seen cached s"
  using assms unfolding ring_ok_def by blast+

lemma tail_okD:
  assumes "tail_ok cached s"
  shows "length (popped s) \<le> tail_view s" and "tail_view s \<le> length (pushed s)"
    and "cached \<Longrightarrow> length (popped s) \<le> unat (tail_cached s)" and "cached \<Longrightarrow> unat (tail_cached s) \<le> tail_view s"
  using assms unfolding tail_ok_def by blast+

lemma seen_le: "ring_ok cached N s \<Longrightarrow> seen cached s \<le> head_view s"
  using ring_okD(8) [of cached N s] by (simp add: seen_def)

lemma started_small:
  fixes N n :: nat
  assumes "N = 2 ^ k" and "k \<le> 62" and "n \<le> 2 * N"
  shows "n < 18446744073709551615"
proof -
  have "N \<le> 2 ^ 62" using power_increasing [OF assms(2), of "2 :: nat"] assms(1) by simp
  then show ?thesis using assms(3) by simp
qed

lemma consumer_ok_more:
  assumes "consumer_ok cached s" and "tail_ok cached s" and "consumer s' = consumer s" "q_head s' = q_head s" "popped s' = popped s"
    "tail_cached s' = tail_cached s" "pushed s' = pushed s @ xs" "tail_view s' = tail_view s"
  shows "consumer_ok cached s'"
  using assms tail_okD(2) [OF assms(2)] by (cases "consumer s") (auto simp: nth_append)

text \<open>Leaving the full check with a value of the head index that differs from the next tail.\<close>

lemma write_ok:
  assumes N: "N = 2 ^ k" "k \<le> 62" and ring: "ring_ok cached N s" and room: "length (pushed s) < 2 * N"
    and c: "unat c \<le> v" "v \<le> length (popped s)" "length (pushed s) + 1 \<le> N + unat c"
    and pass: "(q_tail s + 1) AND q_mask N \<noteq> c"
  shows "length (pushed s) < v + N"
    and "length (pushed s) + 1 < 2 * N \<Longrightarrow> length (pushed s) + 2 \<le> N + unat c"
proof -
  note R = ring_okD [OF ring]
  show "length (pushed s) < v + N" using c by simp
  show "length (pushed s) + 1 < 2 * N \<Longrightarrow> length (pushed s) + 2 \<le> N + unat c"
    using room_check [OF N _ _ _ pass] R(2) room c R(4) by simp
qed

text \<open>A step of the producer that only moves it on.\<close>

lemma producer_move:
  assumes inv: "spsc_inv cached N s" and "producer_ok cached N (s\<lparr>head_view := v, head_cached := c, producer := p\<rparr>)"
    and "producer s \<noteq> PIdle" and "p \<noteq> PIdle" and v: "head_view s \<le> v" "v \<le> length (popped s)"
    and c: "unat c \<le> v" "unat (head_cached s) \<le> unat c"
  shows "spsc_inv cached N (s\<lparr>head_view := v, head_cached := c, producer := p\<rparr>)"
proof -
  let ?s = "s\<lparr>head_view := v, head_cached := c, producer := p\<rparr>"
  note I = spsc_invD [OF inv] note R = ring_okD [OF I(1)]
  have "seen cached s \<le> seen cached ?s" using v c by (simp add: seen_def)
  then have "length (pushed s) < 2 * N \<longrightarrow> length (pushed s) + 1 \<le> N + seen cached ?s"
    using R(10) by linarith
  then have "ring_ok cached N ?s" using I(1) v c unfolding ring_ok_def by simp
  moreover have "consumer_ok cached ?s" by (rule consumer_ok_more [OF I(3,4), where xs = "[]"]) simp_all
  moreover have "tail_ok cached ?s" using I(4) by (simp add: tail_ok_def)
  ultimately show ?thesis using assms(2-4) I(5) by (simp add: spsc_inv_def spsc_started_def)
qed

lemma push_step_inv:
  assumes N: "N = 2 ^ k" "k \<le> 62" and inv: "spsc_inv cached N s" and st: "spsc_started (push_step cached N msg v s) \<le> 2 * N"
    and v: "head_view s \<le> v" "v \<le> length (popped s)"
  shows "spsc_inv cached N (push_step cached N msg v s)"
proof -
  note I = spsc_invD [OF inv] note R = ring_okD [OF I(1)]
  note slot = slot_mod [OF N(1)]
  have stay: "s\<lparr>head_view := head_view s, head_cached := head_cached s, producer := p\<rparr> = s\<lparr>producer := p\<rparr>" for p by simp
  note move = producer_move [OF inv _ _ _ order_refl R(9,8) order_refl, unfolded stay]
  show ?thesis
  proof (cases "producer s")
    case PIdle
    let ?s = "s\<lparr>producer := PCheck msg (q_tail s) ((q_tail s + 1) AND q_mask N)\<rparr>"
    have "consumer_ok cached ?s" by (rule consumer_ok_more [OF I(3,4), where xs = "[]"]) simp_all
    moreover have "ring_ok cached N ?s" using I(1) unfolding ring_ok_def by simp
    moreover have "tail_ok cached ?s" using I(4) by (simp add: tail_ok_def)
    ultimately show ?thesis using PIdle st by (simp add: spsc_inv_def)
  next
    case (PCheck m t nx)
    then have room: "length (pushed s) < 2 * N" and t: "t = q_tail s" "nx = (t + 1) AND q_mask N"
      using I(2,5) by (simp_all add: spsc_started_def)
    show ?thesis
    proof (cases "cached \<and> nx \<noteq> head_cached s")
      case True
      then have c: "length (pushed s) + 1 \<le> N + unat (head_cached s)" using R(10) [OF room] by (simp add: seen_def)
      note W = write_ok [OF N I(1) room R(8,9) c]
      have eq: "push_step cached N msg v s = s\<lparr>producer := PWrite m t\<rparr>" using True PCheck by simp
      show ?thesis
        unfolding eq by (rule move) (use True PCheck t W in \<open>simp_all add: seen_def\<close>)
    next
      case False
      then have eq: "push_step cached N msg v s = s\<lparr>producer := PSpin m t nx\<rparr>" using PCheck by auto
      show ?thesis unfolding eq by (rule move) (use PCheck t in simp_all)
    qed
  next
    case (PSpin m t nx)
    then have room: "length (pushed s) < 2 * N" and t: "t = q_tail s" "nx = (t + 1) AND q_mask N"
      using I(2,5) by (simp_all add: spsc_started_def)
    have "v < 18446744073709551615"
      by (rule started_small [OF N]) (use v R(4) room in linarith)
    then have of_v: "unat (of_nat v :: u64) = v" by simp
    show ?thesis
    proof (cases "nx = of_nat v")
      case True
      have "spsc_inv cached N (s\<lparr>head_view := v, head_cached := head_cached s, producer := PSpin m t nx\<rparr>)"
        by (rule producer_move [OF inv]) (use PSpin t v R(8) in simp_all)
      moreover have "s\<lparr>head_view := v, head_cached := head_cached s, producer := PSpin m t nx\<rparr> = s\<lparr>head_view := v\<rparr>"
        by (rule spsc.equality) (simp_all add: PSpin)
      ultimately have "spsc_inv cached N (s\<lparr>head_view := v\<rparr>)" by simp
      then show ?thesis using PSpin True by simp
    next
      case False
      have c: "length (pushed s) + 1 \<le> N + unat (of_nat v :: u64)"
        unfolding of_v using R(10) [OF room] seen_le [OF I(1)] v by linarith
      have "unat (of_nat v :: u64) \<le> v" by (simp only: of_v)
      note W = write_ok [OF N I(1) room this v(2) c]
      let ?c = "if cached then of_nat v else head_cached s"
      have "spsc_inv cached N (s\<lparr>head_view := v, head_cached := ?c, producer := PWrite m t\<rparr>)"
        by (rule producer_move [OF inv]) (use False PSpin t W v R(8) of_v in \<open>simp_all add: seen_def\<close>)
      then show ?thesis using False PSpin by simp
    qed
  next
    case (PWrite m t)
    then have t: "t = q_tail s" and free: "length (pushed s) < head_view s + N"
      and next_room: "length (pushed s) + 1 < 2 * N \<longrightarrow> length (pushed s) + 2 \<le> N + seen cached s"
      using I(2) by simp_all
    have sl: "slot N t = length (pushed s) mod N" using slot [of t] t R(2) N(2) by simp
    have other: "i mod N \<noteq> length (pushed s) mod N" if "length (popped s) \<le> i" "i < length (pushed s)" for i
      using mod_eq_less [of i N "length (pushed s)"] that free R(9) by auto
    let ?s = "s\<lparr>q_buffer := (q_buffer s)[slot N t := m], producer := PPublish m t\<rparr>"
    have step: "push_step cached N msg v s = ?s" by (simp add: PWrite)
    have "N > 0" using N(1) by simp
    then have here: "(q_buffer s)[slot N t := m] ! (length (pushed s) mod N) = m" by (simp add: sl R(1))
    have "(q_buffer s)[slot N t := m] ! (i mod N) = pushed s ! i"
      if "length (popped s) \<le> i" "i < length (pushed s)" for i
      using R(7) [OF that] not_sym [OF other [OF that]] by (simp add: sl)
    then have "ring_ok cached N ?s"
      using R(1-6,8-10) unfolding ring_ok_def by simp
    moreover have "consumer_ok cached ?s"
      by (rule consumer_ok_more [OF I(3,4), where xs = "[]"]) simp_all
    moreover have "producer_ok cached N ?s" using t free next_room here by simp
    moreover have "tail_ok cached ?s" using I(4) by (simp add: tail_ok_def)
    moreover have "spsc_started ?s \<le> 2 * N" using I(5) PWrite by (simp add: spsc_started_def)
    ultimately show ?thesis unfolding step spsc_inv_def by blast
  next
    case (PPublish m t)
    then have t: "t = q_tail s" and free: "length (pushed s) < head_view s + N"
      and next_room: "length (pushed s) + 1 < 2 * N \<longrightarrow> length (pushed s) + 2 \<le> N + seen cached s"
      and here: "q_buffer s ! (length (pushed s) mod N) = m"
      using I(2) by simp_all
    let ?s = "s\<lparr>q_tail := t + 1, producer := PIdle, pushed := pushed s @ [m]\<rparr>"
    have step: "push_step cached N msg v s = ?s" by (simp add: PPublish)
    have "unat (t + 1) = length (pushed s) + 1"
      using idx_suc [OF N, of t] t R(2) I(5) by (simp add: spsc_started_def)
    moreover have "q_buffer s ! (i mod N) = (pushed s @ [m]) ! i" if "length (popped s) \<le> i" "i < Suc (length (pushed s))" for i
      using R(7) [OF that(1)] that(2) here by (cases "i = length (pushed s)") (simp_all add: nth_append)
    moreover have "popped s = take (length (popped s)) (pushed s @ [m])" using R(4,6) by simp
    ultimately have "ring_ok cached N ?s"
      using free next_room R(1,3,4,8,9) unfolding ring_ok_def by simp
    moreover have "consumer_ok cached ?s"
      by (rule consumer_ok_more [OF I(3,4), where xs = "[m]"]) simp_all
    moreover have "tail_ok cached ?s" using I(4) by (auto simp: tail_ok_def)
    ultimately show ?thesis
      unfolding step using PPublish I(5) by (simp add: spsc_inv_def spsc_started_def)
  qed
qed

lemma producer_ok_pop:
  assumes prod: "producer_ok cached N s" and same: "producer s' = producer s" "q_tail s' = q_tail s" "pushed s' = pushed s"
    and buf: "q_buffer s' = q_buffer s" and more: "head_view s' = head_view s" "head_cached s' = head_cached s"
  shows "producer_ok cached N s'"
  using assms by (cases "producer s") (auto simp: seen_def)

lemma pop_step_inv:
  assumes N: "N = 2 ^ k" "k \<le> 62" and inv: "spsc_inv cached N s"
    and v: "tail_view s \<le> v" "v \<le> length (pushed s)"
  shows "spsc_inv cached N (pop_step cached N v s)"
proof -
  note I = spsc_invD [OF inv] note R = ring_okD [OF I(1)] note T = tail_okD [OF I(4)]
  have begun: "length (pushed s) \<le> 2 * N" using I(5) by (simp add: spsc_started_def split: if_splits)
  have ring_same: "ring_ok cached N (s\<lparr>tail_view := w, tail_cached := x, consumer := c\<rparr>)" for w x c
    using I(1) by (simp add: ring_ok_def)
  have prod_same: "producer_ok cached N (s\<lparr>tail_view := w, tail_cached := x, consumer := c\<rparr>)" for w x c
    by (rule producer_ok_pop [OF I(2)]) simp_all
  have move: "spsc_inv cached N (s\<lparr>tail_view := w, tail_cached := x, consumer := c\<rparr>)"
    if "consumer_ok cached (s\<lparr>tail_view := w, tail_cached := x, consumer := c\<rparr>)"
      "tail_ok cached (s\<lparr>tail_view := w, tail_cached := x, consumer := c\<rparr>)" for w x c
    using that ring_same prod_same I(5) by (simp add: spsc_inv_def spsc_started_def)
  have stay: "s\<lparr>tail_view := tail_view s, tail_cached := tail_cached s, consumer := c\<rparr> = s\<lparr>consumer := c\<rparr>" for c by simp
  have tail_same: "tail_ok cached (s\<lparr>consumer := c\<rparr>)" for c using I(4) by (simp add: tail_ok_def)
  note go = move [where w = "tail_view s" and x = "tail_cached s", unfolded stay, OF _ tail_same]
  have neq: "unat (q_head s) \<noteq> unat i" if "q_head s \<noteq> i" for i
    using that by (simp add: word_unat_eq_iff)
  show ?thesis
  proof (cases "consumer s")
    case CIdle
    then show ?thesis using go by simp
  next
    case (CCheck h)
    show ?thesis
    proof (cases "cached \<and> h \<noteq> tail_cached s")
      case True
      then have "length (popped s) < unat (tail_cached s)"
        using T(3) I(3) CCheck neq [of "tail_cached s"] R(3) by simp
      moreover from this have "length (popped s) < tail_view s" using T(4) True by simp
      ultimately show ?thesis using go [of "CRead h"] True I(3) CCheck by simp
    next
      case False
      then have eq: "pop_step cached N v s = s\<lparr>consumer := CSpin h\<rparr>" using CCheck by auto
      show ?thesis unfolding eq using go [of "CSpin h"] I(3) CCheck by simp
    qed
  next
    case (CSpin h)
    then have h: "h = q_head s" using I(3) by simp
    have "v < 18446744073709551615" by (rule started_small [OF N]) (use v begun in linarith)
    then have of_v: "unat (of_nat v :: u64) = v" by simp
    show ?thesis
    proof (cases "h = of_nat v")
      case True
      have "spsc_inv cached N (s\<lparr>tail_view := v, tail_cached := tail_cached s, consumer := CSpin h\<rparr>)"
        by (rule move) (use h v T in \<open>auto simp: tail_ok_def\<close>)
      moreover have "s\<lparr>tail_view := v, tail_cached := tail_cached s, consumer := CSpin h\<rparr> = s\<lparr>tail_view := v\<rparr>"
        by (rule spsc.equality) (simp_all add: CSpin)
      ultimately have "spsc_inv cached N (s\<lparr>tail_view := v\<rparr>)" by simp
      then show ?thesis using True CSpin by simp
    next
      case False
      then have "length (popped s) \<noteq> v" using neq [of "of_nat v"] h R(3) of_v by simp
      then have lt: "length (popped s) < v" using T(1) v(1) by simp
      let ?x = "if cached then of_nat v else tail_cached s"
      have "spsc_inv cached N (s\<lparr>tail_view := v, tail_cached := ?x, consumer := CRead h\<rparr>)"
        by (rule move) (use h lt v of_v in \<open>simp_all add: tail_ok_def\<close>)
      then show ?thesis using False CSpin by simp
    qed
  next
    case (CRead h)
    then have h: "h = q_head s" and lt: "length (popped s) < length (pushed s)" using I(3) T(2) by simp_all
    have "slot N h = length (popped s) mod N" using slot_mod [OF N(1), of h] N(2) h R(3) by simp
    then have "q_buffer s ! slot N h = pushed s ! length (popped s)" using R(7) [of "length (popped s)"] lt by simp
    then show ?thesis using go [of "CPublish h (q_buffer s ! slot N h)"] I(3) CRead by simp
  next
    case (CPublish h m)
    then have h: "h = q_head s" and view: "length (popped s) < tail_view s"
      and m: "m = pushed s ! length (popped s)" and tc1: "cached \<longrightarrow> length (popped s) < unat (tail_cached s)"
      using I(3) by simp_all
    then have lt: "length (popped s) < length (pushed s)" using T(2) by simp
    let ?s = "s\<lparr>q_head := h + 1, consumer := CIdle, popped := popped s @ [m]\<rparr>"
    have step: "pop_step cached N v s = ?s" by (simp add: CPublish)
    have h1: "unat (h + 1) = length (popped s) + 1"
      using idx_suc [OF N, of h] h R(3,4) begun by simp
    have "popped s @ [m] = take (Suc (length (popped s))) (pushed s)"
      using R(6) lt m by (simp add: take_Suc_conv_app_nth)
    then have "ring_ok cached N ?s"
      using R(1-3,5,7-10) lt h1 unfolding ring_ok_def by simp
    moreover have "producer_ok cached N ?s" by (rule producer_ok_pop [OF I(2)]) simp_all
    moreover have "tail_ok cached ?s" using view tc1 T by (auto simp: tail_ok_def)
    ultimately show ?thesis
      unfolding step using I(5) by (simp add: spsc_inv_def spsc_started_def)
  qed
qed

section \<open>No data races\<close>

text \<open>
  The slot the producer is about to write was read in a pop it has seen complete, and the
  slot the consumer is about to read was written in a push it has seen complete.
\<close>

lemma slot_of_nat:
  assumes "N = 2 ^ k" and "k \<le> 62" and "i \<le> 2 * N"
  shows "slot N (of_nat i) = i mod N"
proof -
  have "i < 18446744073709551615" by (rule started_small [OF assms])
  then have "unat (of_nat i :: u64) = i" by simp
  then show ?thesis using slot_mod [OF assms(1), of "of_nat i"] assms(2) by simp
qed

lemma push_race_free:
  assumes N: "N = 2 ^ k" "k \<le> 62" and inv: "spsc_inv cached N s"
  shows "\<not> push_races N s"
proof
  assume "push_races N s"
  then obtain m t i where pc: "producer s = PWrite m t" and i: "head_view s \<le> i" "i < slot_reads s" "slot N (of_nat i) = slot N t"
    by (auto simp: push_races_def split: producer.splits)
  note I = spsc_invD [OF inv] note R = ring_okD [OF I(1)] note T = tail_okD [OF I(4)]
  from pc have t: "t = q_tail s" and free: "length (pushed s) < head_view s + N" and begun: "length (pushed s) < 2 * N"
    using I(2,5) by (simp_all add: spsc_started_def)
  have "slot_reads s \<le> length (pushed s)"
    using I(3) T R(4) by (cases "consumer s") (auto simp: slot_reads_def)
  with i have less: "i < length (pushed s)" by simp
  then have "slot N (of_nat i) = i mod N" using slot_of_nat [OF N, of i] begun by simp
  moreover have "slot N t = length (pushed s) mod N" using slot_mod [OF N(1), of t] N(2) t R(2) by simp
  ultimately show False using mod_eq_less [of i N "length (pushed s)"] i(1,3) free less by simp
qed

lemma pop_race_free:
  assumes N: "N = 2 ^ k" "k \<le> 62" and inv: "spsc_inv cached N s"
  shows "\<not> pop_races N s"
proof
  assume "pop_races N s"
  then obtain h i where cc: "consumer s = CRead h" and i: "tail_view s \<le> i" "i < slot_writes s" "slot N (of_nat i) = slot N h"
    by (auto simp: pop_races_def split: consumer.splits)
  note I = spsc_invD [OF inv] note R = ring_okD [OF I(1)] note T = tail_okD [OF I(4)]
  from cc have h: "h = q_head s" and view: "length (popped s) < tail_view s" using I(3) by simp_all
  have writes: "slot_writes s \<le> length (popped s) + N"
    using I(2) R(5,9) by (cases "producer s") (auto simp: slot_writes_def)
  have "slot_writes s \<le> spsc_started s" by (cases "producer s") (auto simp: slot_writes_def spsc_started_def)
  then have "slot N (of_nat i) = i mod N" using slot_of_nat [OF N, of i] i(2) I(5) by simp
  moreover have "slot N h = length (popped s) mod N" using slot_mod [OF N(1), of h] N(2) h R(3) by simp
  ultimately show False using mod_eq_less [of "length (popped s)" N i] i view writes by simp
qed

lemmas race_free = push_race_free pop_race_free

section \<open>The queue contract\<close>

lemma push_step_started: "spsc_started s \<le> spsc_started (push_step cached N msg v s)"
  by (cases "producer s") (auto simp: spsc_started_def)

lemma pop_step_started: "spsc_started (pop_step cached N v s) = spsc_started s"
  by (cases "consumer s") (auto simp: spsc_started_def)

lemma spsc_step_inv:
  assumes "N = 2 ^ k" "k \<le> 62" and "spsc_inv cached N s" and "spsc_step cached N s t" and "spsc_started t \<le> 2 * N"
  shows "spsc_inv cached N t"
  using assms(4)
proof cases
  case (producer_moves v msg)
  then show ?thesis using push_step_inv [OF assms(1-3), of msg v] assms(5) by simp
next
  case (consumer_moves v)
  then show ?thesis using pop_step_inv [OF assms(1-3)] by simp
qed

lemma spsc_not_both_blocked:
  assumes N: "N = 2 ^ k" "0 < k" "k \<le> 62" and inv: "spsc_inv cached N s"
    and spin: "push_spins s" "pop_spins s"
  shows False
proof -
  note I = spsc_invD [OF inv] note R = ring_okD [OF I(1)]
  from spin(1) I(2,5) have full: "(q_tail s + 1) AND q_mask N = q_head s"
    and room: "length (pushed s) < 2 * N"
    by (auto simp: push_spins_def producer_ok_def spsc_started_def split: producer.splits)
  from spin(2) I(3) have empty: "q_head s = q_tail s" by (auto simp: pop_spins_def consumer_ok_def split: consumer.splits)
  have t1: "unat (q_tail s + 1) = length (pushed s) + 1"
    using idx_suc [OF N(1,3), of "q_tail s"] R(2) room by simp
  have "unat ((q_tail s + 1) AND q_mask N) = (length (pushed s) + 1) mod N"
    using slot_mod [OF N(1), of "q_tail s + 1"] N(3) t1 by (simp add: slot_def)
  with full empty have eq: "(length (pushed s) + 1) mod N = length (pushed s)" using R(2) by simp
  have "2 \<le> N" using N(1,2) by (cases k) simp_all
  moreover from this eq have "length (pushed s) < N" by (metis mod_less_divisor not_numeral_le_zero gr0I)
  ultimately show False
    using eq by (cases "length (pushed s) + 1 = N") simp_all
qed

lemma spsc_blocked_pop_drained:
  assumes "spsc_inv cached N s" and "pop_spins s"
  shows "popped s = pushed s"
proof -
  note I = spsc_invD [OF assms(1)] note R = ring_okD [OF I(1)]
  from assms(2) I(3) have "q_head s = q_tail s" by (auto simp: pop_spins_def consumer_ok_def split: consumer.splits)
  then have "length (popped s) = length (pushed s)" using R(2,3) by simp
  then show ?thesis using R(6) by simp
qed

lemma spsc_fifo: "spsc_inv cached N s \<Longrightarrow> prefix (popped s) (pushed s)"
  using ring_okD(6) [OF spsc_invD(1)] by (metis take_is_prefix)

lemma spsc_is_queue:
  fixes d :: "'a"
  assumes N: "N = 2 ^ k" "0 < k" "k \<le> 62"
  shows "message_queue (spsc_start d N) (spsc_step cached N) pushed popped spsc_started push_spins pop_spins
    (Some (2 * N)) (spsc_inv cached N)"
proof unfold_locales
  have N0: "0 < N" by (simp add: N)
  show "pushed (spsc_start d N) = []" "popped (spsc_start d N) = []" "spsc_started (spsc_start d N) = 0"
    by (simp_all add: spsc_start_def spsc_started_def)
  show "spsc_inv cached N (spsc_start d N)" by (rule spsc_inv_start [OF N0])
  show "spsc_started s \<le> spsc_started t" if "spsc_step cached N s t" for s t :: "'a spsc"
    using that by cases (simp_all only: push_step_started pop_step_started order_refl)
  show "spsc_inv cached N t" if "spsc_inv cached N s" "spsc_step cached N s t" "in_budget (Some (2 * N)) (spsc_started t)"
    for s t :: "'a spsc"
    by (rule spsc_step_inv [OF N(1,3) that(1,2)]) (use that(3) in \<open>simp add: in_budget_def\<close>)
  show "prefix (popped s) (pushed s)" if "spsc_inv cached N s" for s :: "'a spsc" using that by (rule spsc_fifo)
  show "\<not> pop_spins s" if "spsc_inv cached N s" "push_spins s" for s :: "'a spsc"
    using spsc_not_both_blocked [OF N that] by blast
  show "popped s = pushed s" if "spsc_inv cached N s" "pop_spins s" for s :: "'a spsc"
    using that by (rule spsc_blocked_pop_drained)
qed

section \<open>The two threads\<close>

definition spsc_ops :: "bool \<Rightarrow> nat \<Rightarrow> ('m, 'm spsc) queue_ops" where
  "spsc_ops cached N = \<lparr>
     qo_push = (\<lambda>msg v s. push_step cached N msg v s),
     qo_push_can = (\<lambda>v s. head_view s \<le> v \<and> v \<le> length (popped s) \<and> \<not> push_races N s),
     qo_pop = (\<lambda>v s. pop_step cached N v s),
     qo_pop_can = (\<lambda>v s. tail_view s \<le> v \<and> v \<le> length (pushed s) \<and> \<not> pop_races N s),
     qo_wake = (\<lambda>s. s),
     qo_pushing = (\<lambda>s. case producer s of PIdle \<Rightarrow> False | _ \<Rightarrow> True),
     qo_popping = (\<lambda>s. case consumer s of CIdle \<Rightarrow> False | _ \<Rightarrow> True),
     qo_received = popped\<rparr>"

lemma spsc_ops_simps [simp]:
  "qo_push (spsc_ops cached N) msg v s = push_step cached N msg v s"
  "qo_push_can (spsc_ops cached N) v s \<longleftrightarrow> head_view s \<le> v \<and> v \<le> length (popped s) \<and> \<not> push_races N s"
  "qo_pop (spsc_ops cached N) v s = pop_step cached N v s"
  "qo_pop_can (spsc_ops cached N) v s \<longleftrightarrow> tail_view s \<le> v \<and> v \<le> length (pushed s) \<and> \<not> pop_races N s"
  "qo_wake (spsc_ops cached N) s = s"
  "qo_pushing (spsc_ops cached N) s \<longleftrightarrow> producer s \<noteq> PIdle"
  "qo_popping (spsc_ops cached N) s \<longleftrightarrow> consumer s \<noteq> CIdle"
  "qo_received (spsc_ops cached N) s = popped s"
  by (simp_all add: spsc_ops_def split: producer.splits consumer.splits)

definition spsc_begun :: "'m spsc \<Rightarrow> 'm list" where
  "spsc_begun s = pushed s @ (case producer s of PIdle \<Rightarrow> [] | PCheck m t nx \<Rightarrow> [m] | PSpin m t nx \<Rightarrow> [m]
     | PWrite m t \<Rightarrow> [m] | PPublish m t \<Rightarrow> [m])"

definition spsc_effort :: "'m spsc \<Rightarrow> nat" where
  "spsc_effort s =
     (case producer s of PIdle \<Rightarrow> 0 | PCheck m t nx \<Rightarrow> 4 | PSpin m t nx \<Rightarrow> 3 | PWrite m t \<Rightarrow> 2 | PPublish m t \<Rightarrow> 1) +
     (case consumer s of CIdle \<Rightarrow> 0 | CCheck h \<Rightarrow> 4 | CSpin h \<Rightarrow> 3 | CRead h \<Rightarrow> 2 | CPublish h m \<Rightarrow> 1)"

text \<open>A thread that does not spin gets on by reading the newest store.\<close>

lemma newest_index:
  assumes "spsc_inv cached N s"
  shows "q_head s = of_nat (length (popped s))" and "q_tail s = of_nat (length (pushed s))"
proof -
  note R = ring_okD [OF spsc_invD(1) [OF assms]]
  have "q_head s = of_nat (unat (q_head s))" "q_tail s = of_nat (unat (q_tail s))" by simp_all
  then show "q_head s = of_nat (length (popped s))" "q_tail s = of_nat (length (pushed s))"
    using R(2,3) by metis+
qed

lemma spsc_choices:
  assumes "N = 2 ^ k" "k \<le> 62" and inv: "spsc_inv cached N s"
  shows "qo_push_can (spsc_ops c N) (length (popped s)) s" and "qo_pop_can (spsc_ops c N) (length (pushed s)) s"
  using race_free [OF assms] ring_okD(9) [OF spsc_invD(1) [OF inv]] tail_okD(2) [OF spsc_invD(4) [OF inv]] by simp_all

lemma push_effort:
  assumes "spsc_inv cached N s" and "producer s \<noteq> PIdle" and "\<not> push_spins s"
  shows "spsc_effort (push_step cached N m (length (popped s)) s) < spsc_effort s"
  using assms newest_index(1) [OF assms(1)] by (cases "producer s") (auto simp: spsc_effort_def push_spins_def)

lemma pop_effort:
  assumes "spsc_inv cached N s" and "consumer s \<noteq> CIdle" and "\<not> pop_spins s"
  shows "spsc_effort (pop_step cached N (length (pushed s)) s) < spsc_effort s"
  using assms newest_index(2) [OF assms(1)] by (cases "consumer s") (auto simp: spsc_effort_def pop_spins_def)

lemma begin_effort:
  "producer s = PIdle \<Longrightarrow> spsc_effort (push_step cached N m v s) = spsc_effort s + 4"
  "consumer s = CIdle \<Longrightarrow> spsc_effort (pop_step cached N v s) = spsc_effort s + 4"
  by (simp_all add: spsc_effort_def)

lemma push_step_begins:
  assumes "producer s = PIdle"
  shows "spsc_begun (push_step cached N m v s) = spsc_begun s @ [m]" and "producer (push_step cached N m v s) \<noteq> PIdle"
  using assms by (simp_all add: spsc_begun_def)

lemma push_step_goes_on: "producer s \<noteq> PIdle \<Longrightarrow> spsc_begun (push_step cached N m v s) = spsc_begun s"
  by (cases "producer s") (simp_all add: spsc_begun_def)

lemma push_step_other: "consumer (push_step cached N m v s) = consumer s \<and> popped (push_step cached N m v s) = popped s"
  by (cases "producer s") simp_all

lemma pop_step_begins: "consumer s = CIdle \<Longrightarrow> consumer (pop_step cached N v s) \<noteq> CIdle"
  by simp

lemma pop_step_waits: "consumer (pop_step cached N v s) \<noteq> CIdle \<Longrightarrow> popped (pop_step cached N v s) = popped s"
  by (cases "consumer s") simp_all

lemma pop_step_returns: "consumer (pop_step cached N v s) = CIdle \<Longrightarrow> \<exists>m. popped (pop_step cached N v s) = popped s @ [m]"
  by (cases "consumer s") (simp_all split: if_splits)

lemma pop_step_other: "producer (pop_step cached N v s) = producer s \<and> spsc_begun (pop_step cached N v s) = spsc_begun s"
  by (cases "consumer s") (simp_all add: spsc_begun_def)

lemmas step_facts = push_step_begins push_step_goes_on push_step_other pop_step_begins pop_step_waits
  pop_step_returns pop_step_other

lemma spsc_is_threaded:
  fixes d :: "'m"
  assumes N: "N = 2 ^ k" "0 < k" "k \<le> 62"
  shows "threaded_queue (spsc_start d N) (spsc_step cached N) pushed popped spsc_started push_spins pop_spins
    (Some (2 * N)) (spsc_inv cached N) (spsc_ops cached N) spsc_begun spsc_effort"
proof (intro threaded_queue.intro spsc_is_queue [OF N] threaded_queue_axioms.intro)
  note can = spsc_choices [OF N(1,3)] and live = spsc_not_both_blocked [OF N]
  fix q :: "'m spsc" and m v
  show "qo_push_can (spsc_ops cached N) v q \<Longrightarrow> spsc_step cached N q (qo_push (spsc_ops cached N) m v q)"
    by (simp add: producer_moves)
  show "qo_pop_can (spsc_ops cached N) v q \<Longrightarrow> spsc_step cached N q (qo_pop (spsc_ops cached N) v q)"
    by (simp add: consumer_moves)
  show "spsc_started q = length (spsc_begun q)" "prefix (pushed q) (spsc_begun q)"
    "\<not> qo_pushing (spsc_ops cached N) q \<Longrightarrow> spsc_begun q = pushed q"
    by (cases "producer q", simp_all add: spsc_started_def spsc_begun_def)+
  show "spsc_inv cached N q \<Longrightarrow> \<not> qo_pushing (spsc_ops cached N) q \<Longrightarrow> \<exists>v. qo_push_can (spsc_ops cached N) v q \<and>
      spsc_effort (qo_push (spsc_ops cached N) m v q) \<le> spsc_effort q + 12"
    using can(1) [of cached q cached] by (intro exI [of _ "length (popped q)"]) (simp add: begin_effort del: push_step_simps pop_step_simps)
  show "spsc_inv cached N q \<Longrightarrow> \<not> qo_popping (spsc_ops cached N) q \<Longrightarrow> \<exists>v. qo_pop_can (spsc_ops cached N) v q \<and>
      spsc_effort (qo_pop (spsc_ops cached N) v q) \<le> spsc_effort q + 4"
    using can(2) [of cached q cached] by (intro exI [of _ "length (pushed q)"]) (simp add: begin_effort del: push_step_simps pop_step_simps)
  show "(\<exists>v. qo_push_can (spsc_ops cached N) v q \<and> spsc_effort (qo_push (spsc_ops cached N) m v q) < spsc_effort q) \<or>
      (\<exists>v. qo_pop_can (spsc_ops cached N) v q \<and> spsc_effort (qo_pop (spsc_ops cached N) v q) < spsc_effort q)"
    if "spsc_inv cached N q" "qo_pushing (spsc_ops cached N) q" "qo_popping (spsc_ops cached N) q"
    using can [OF that(1)] push_effort [OF that(1)] pop_effort [OF that(1)] live [OF that(1)] that(2,3)
    by (metis spsc_ops_simps(1,3,6,7))
  show "\<exists>v. qo_push_can (spsc_ops cached N) v q \<and> spsc_effort (qo_push (spsc_ops cached N) m v q) < spsc_effort q"
    if "spsc_inv cached N q" "qo_pushing (spsc_ops cached N) q" "\<not> push_spins q"
    using can(1) [OF that(1)] push_effort [OF that(1)] that(2,3) by (metis spsc_ops_simps(1,6))
  show "\<exists>v. qo_pop_can (spsc_ops cached N) v q \<and> spsc_effort (qo_pop (spsc_ops cached N) v q) < spsc_effort q"
    if "spsc_inv cached N q" "qo_popping (spsc_ops cached N) q" "popped q \<noteq> pushed q"
    using can(2) [OF that(1)] pop_effort [OF that(1)] spsc_blocked_pop_drained [OF that(1)] that(2,3)
    by (metis spsc_ops_simps(3,7))
  show "popped q \<noteq> spsc_begun q" if "spsc_inv cached N q" "push_spins q"
    using ring_okD(4) [OF spsc_invD(1) [OF that(1)]] that(2)
    by (auto simp: push_spins_def spsc_begun_def split: producer.splits)
  show "\<exists>v. qo_push_can (spsc_ops cached N) v q" "\<exists>v. qo_pop_can (spsc_ops cached N) v q" if "spsc_inv cached N q"
    using can [OF that] by blast+
qed (auto simp: step_facts spsc_start_def simp del: push_step_simps pop_step_simps)

section \<open>Beyond the second lap\<close>

text \<open>
  The full check compares the masked next tail with the head index, which is never masked.
  Once the head has passed \<open>N\<close> the two cannot be equal, and \<open>push\<close> no longer waits for
  room.
\<close>

text \<open>A whole call of \<open>push\<close> and of \<open>pop\<close>, in a state where the other thread is idle.\<close>

definition quiet :: "nat \<Rightarrow> 'm spsc \<Rightarrow> bool" where
  "quiet N s \<longleftrightarrow> producer s = PIdle \<and> consumer s = CIdle \<and> length (q_buffer s) = N \<and>
     unat (q_head s) = length (popped s) \<and> unat (q_tail s) = length (pushed s) \<and>
     head_view s \<le> length (popped s) \<and> tail_view s \<le> length (pushed s)"

lemma quietD:
  assumes "quiet N s"
  shows "producer s = PIdle" and "consumer s = CIdle" and "length (q_buffer s) = N"
    and "unat (q_head s) = length (popped s)" and "unat (q_tail s) = length (pushed s)"
    and "head_view s \<le> length (popped s)" and "tail_view s \<le> length (pushed s)"
    and "q_head s = of_nat (length (popped s))" and "q_tail s = of_nat (length (pushed s))"
    and "spsc_started s = length (pushed s)"
proof -
  have "q_head s = of_nat (unat (q_head s))" "q_tail s = of_nat (unat (q_tail s))" by simp_all
  then show "q_head s = of_nat (length (popped s))" "q_tail s = of_nat (length (pushed s))"
    using assms unfolding quiet_def by metis+
qed (use assms in \<open>simp_all add: quiet_def spsc_started_def\<close>)

text \<open>A step that touches no slot is no race; it may read the newest store.\<close>

lemma push_goes:
  assumes "push_step cached N m v s = t" and "head_view s \<le> v" "v \<le> length (popped s)"
    and "\<And>m' t'. producer s = PWrite m' t' \<Longrightarrow> \<not> push_races N s"
  shows "reaches (spsc_step cached N) s t"
proof -
  have "\<not> push_races N s" using assms(4) by (auto simp: push_races_def split: producer.splits)
  then show ?thesis using producer_moves [OF assms(2,3)] assms(1) by (metis reaches_step reaches_refl)
qed

lemma pop_goes:
  assumes "pop_step cached N v s = t" and "tail_view s \<le> v" "v \<le> length (pushed s)"
    and "\<And>h. consumer s = CRead h \<Longrightarrow> \<not> pop_races N s"
  shows "reaches (spsc_step cached N) s t"
proof -
  have "\<not> pop_races N s" using assms(4) by (auto simp: pop_races_def split: consumer.splits)
  then show ?thesis using consumer_moves [OF assms(2,3)] assms(1) by (metis reaches_step reaches_refl)
qed

lemma push_call:
  assumes q: "quiet N s" and pass: "(q_tail s + 1) AND q_mask N \<noteq> q_head s" and small: "length (pushed s) < 2 ^ 63"
    and free: "cached \<Longrightarrow> (q_tail s + 1) AND q_mask N \<noteq> head_cached s \<Longrightarrow>
      \<forall>i \<in> {head_view s..<length (popped s)}. slot N (of_nat i) \<noteq> slot N (q_tail s)"
  shows "\<exists>s'. reaches (spsc_step cached N) s s' \<and> quiet N s' \<and> q_head s' = q_head s \<and>
    q_buffer s' = (q_buffer s)[slot N (q_tail s) := m] \<and> pushed s' = pushed s @ [m] \<and> popped s' = popped s \<and>
    tail_cached s' = tail_cached s \<and> head_view s \<le> head_view s'"
proof -
  let ?step = "spsc_step cached N" and ?nx = "(q_tail s + 1) AND q_mask N" and ?n = "length (popped s)"
  note Q = quietD [OF q]
  define s1 where "s1 = s\<lparr>producer := PCheck m (q_tail s) ?nx\<rparr>"
  have 1: "reaches ?step s s1"
    by (rule push_goes [where v = "head_view s" and m = m]) (use Q in \<open>simp_all add: s1_def\<close>)
  define s3 where "s3 v hc = s1\<lparr>head_view := v, head_cached := hc, producer := PWrite m (q_tail s)\<rparr>" for v hc
  have "\<exists>v hc. reaches ?step s1 (s3 v hc) \<and> head_view s \<le> v \<and> v \<le> ?n \<and>
      (\<forall>i \<in> {v..<?n}. slot N (of_nat i) \<noteq> slot N (q_tail s))"
  proof (cases "cached \<and> ?nx \<noteq> head_cached s")
    case True
    have "reaches ?step s1 (s3 (head_view s) (head_cached s))"
      by (rule push_goes [where v = "head_view s" and m = m]) (use True Q in \<open>simp_all add: s1_def s3_def\<close>)
    then show ?thesis using True free Q(6) by blast
  next
    case False
    define s2 where "s2 = s1\<lparr>producer := PSpin m (q_tail s) ?nx\<rparr>"
    have "push_step cached N m (head_view s) s1 = s2" using False by (auto simp: s1_def s2_def)
    then have a: "reaches ?step s1 s2"
      by (rule push_goes) (use Q in \<open>simp_all add: s1_def\<close>)
    have "push_step cached N m ?n s2 = s3 ?n (if cached then q_head s else head_cached s)"
      using pass Q(8) by (simp add: s2_def s1_def s3_def)
    then have "reaches ?step s2 (s3 ?n (if cached then q_head s else head_cached s))"
      by (rule push_goes) (use Q in \<open>simp_all add: s1_def s2_def\<close>)
    then have "reaches ?step s1 (s3 ?n (if cached then q_head s else head_cached s))"
      using a by (rule reaches_trans)
    then show ?thesis using Q(6) by (intro exI [of _ ?n] exI conjI) simp_all
  qed
  then obtain v hc where 2: "reaches ?step s1 (s3 v hc)" and v: "head_view s \<le> v" "v \<le> ?n"
    and clear: "\<forall>i \<in> {v..<?n}. slot N (of_nat i) \<noteq> slot N (q_tail s)" by blast
  define s4 where "s4 = (s3 v hc)\<lparr>q_buffer := (q_buffer s)[slot N (q_tail s) := m], producer := PPublish m (q_tail s)\<rparr>"
  define s5 where "s5 = s4\<lparr>q_tail := q_tail s + 1, producer := PIdle, pushed := pushed s @ [m]\<rparr>"
  have 3: "reaches ?step (s3 v hc) s4"
    by (rule push_goes [where v = v and m = m])
      (use v clear Q(2) in \<open>simp_all add: s3_def s4_def s1_def push_races_def slot_reads_def\<close>)
  have 4: "reaches ?step s4 s5"
    by (rule push_goes [where v = v and m = m]) (use v in \<open>simp_all add: s3_def s4_def s5_def s1_def\<close>)
  have t1: "unat (q_tail s + 1) = length (pushed s) + 1"
    using Q(5) small by (simp add: unat_word_ariths)
  have "reaches ?step s s5"
    by (rule reaches_trans [OF 4 reaches_trans [OF 3 reaches_trans [OF 2 1]]])
  moreover have "quiet N s5"
    using q t1 v by (simp add: quiet_def s5_def s4_def s3_def s1_def)
  ultimately show ?thesis
    using v by (intro exI [of _ s5]) (simp add: s5_def s4_def s3_def s1_def)
qed

text \<open>The consumer's cached tail is used up, so that \<open>pop\<close> reads the newest one.\<close>

lemma pop_call:
  assumes q: "quiet N s" and some: "length (popped s) < length (pushed s)" and small: "length (pushed s) < 2 ^ 63"
    and tc: "cached \<longrightarrow> q_head s = tail_cached s"
  shows "\<exists>s'. reaches (spsc_step cached N) s s' \<and> quiet N s' \<and> q_head s' = q_head s + 1 \<and> q_buffer s' = q_buffer s \<and>
    pushed s' = pushed s \<and> popped s' = popped s @ [q_buffer s ! slot N (q_head s)] \<and>
    (cached \<longrightarrow> tail_cached s' = q_tail s') \<and> head_view s' = head_view s"
proof -
  let ?step = "spsc_step cached N" and ?h = "q_head s" and ?n = "length (pushed s)"
  note Q = quietD [OF q]
  define s1 where "s1 = s\<lparr>consumer := CCheck ?h\<rparr>"
  define s2 where "s2 = s1\<lparr>consumer := CSpin ?h\<rparr>"
  define s3 where "s3 = s1\<lparr>tail_view := ?n, tail_cached := (if cached then q_tail s else tail_cached s), consumer := CRead ?h\<rparr>"
  define s4 where "s4 = s3\<lparr>consumer := CPublish ?h (q_buffer s ! slot N ?h)\<rparr>"
  define s5 where "s5 = s4\<lparr>q_head := ?h + 1, consumer := CIdle, popped := popped s @ [q_buffer s ! slot N ?h]\<rparr>"
  note defs = s1_def s2_def s3_def s4_def s5_def
  have ht: "?h \<noteq> q_tail s" using Q(4,5) some by auto
  have h1: "unat (?h + 1) = length (popped s) + 1"
    using Q(4) some small by (simp add: unat_word_ariths)
  have 1: "reaches ?step s s1"
    by (rule pop_goes [where v = "tail_view s"]) (use Q in \<open>simp_all add: defs\<close>)
  have 2: "reaches ?step s1 s2"
    by (rule pop_goes [where v = "tail_view s"]) (use Q tc in \<open>auto simp: defs\<close>)
  have 3: "reaches ?step s2 s3"
    by (rule pop_goes [where v = ?n]) (use Q ht in \<open>simp_all add: defs\<close>)
  have 4: "reaches ?step s3 s4"
    by (rule pop_goes [where v = ?n]) (use Q in \<open>simp_all add: defs pop_races_def slot_writes_def\<close>)
  have 5: "reaches ?step s4 s5"
    by (rule pop_goes [where v = ?n]) (use Q in \<open>simp_all add: defs\<close>)
  have "reaches ?step s s5"
    by (rule reaches_trans [OF 5 reaches_trans [OF 4 reaches_trans [OF 3 reaches_trans [OF 2 1]]]])
  moreover have "quiet N s5"
    using q h1 by (simp add: quiet_def defs)
  ultimately show ?thesis
    by (intro exI [of _ s5]) (simp add: defs)
qed

text \<open>First lap: every message is popped before the next is pushed.\<close>

lemma first_lap:
  assumes N: "N = 2 ^ k" "0 < k" "k \<le> 61" and n: "n \<le> N"
  shows "\<exists>s. reaches (spsc_step cached N) (spsc_start d N) s \<and> quiet N s \<and>
    pushed s = replicate n a \<and> popped s = replicate n a \<and> (cached \<longrightarrow> q_head s = tail_cached s)"
  using n
proof (induction n)
  case 0
  have "quiet N (spsc_start d N)" by (simp add: quiet_def spsc_start_def)
  then show ?case
    by (intro exI [of _ "spsc_start d N"]) (simp add: reaches_refl, simp add: spsc_start_def)
next
  case (Suc n)
  then obtain s where s: "reaches (spsc_step cached N) (spsc_start d N) s" "quiet N s"
    "pushed s = replicate n a" "popped s = replicate n a" "cached \<longrightarrow> q_head s = tail_cached s"
    by auto
  have N61: "N \<le> 2 ^ 61" using power_increasing [OF N(3), of "2 :: nat"] N(1) by simp
  have N2: "2 \<le> N" using N(1,2) by (cases k) simp_all
  have ix: "unat (q_head s) = n" "unat (q_tail s) = n" using quietD(4,5) [OF s(2)] s(3,4) by simp_all
  have t1: "unat (q_tail s + 1) = n + 1" using ix Suc.prems N61 by (simp add: unat_word_ariths)
  have nx: "unat ((q_tail s + 1) AND q_mask N) = (n + 1) mod N"
    using slot_mod [OF N(1), of "q_tail s + 1"] N(3) t1 by (simp add: slot_def)
  have "(n + 1) mod N \<noteq> n" using Suc.prems N2 by (cases "n + 1 = N") simp_all
  then have pass: "(q_tail s + 1) AND q_mask N \<noteq> q_head s" using nx ix(1) by auto
  have small: "length (pushed s) < 2 ^ 63" using s(3) Suc.prems N61 by simp
  have at: "slot N (q_head s) = n" "slot N (q_tail s) = n"
    using slot_mod [OF N(1)] N(3) ix Suc.prems by simp_all
  have "k \<le> 62" using N(3) by simp
  note slot_nat = slot_of_nat [OF N(1) this]
  have free: "\<forall>i \<in> {head_view s..<length (popped s)}. slot N (of_nat i) \<noteq> slot N (q_tail s)"
    using Suc.prems s(4) at slot_nat by auto
  obtain s1 where s1: "reaches (spsc_step cached N) s s1" "quiet N s1" "q_head s1 = q_head s"
    "q_buffer s1 = (q_buffer s)[slot N (q_tail s) := a]" "pushed s1 = pushed s @ [a]" "popped s1 = popped s"
    "tail_cached s1 = tail_cached s"
    using push_call [OF s(2) pass small free] by blast
  have "cached \<longrightarrow> q_head s1 = tail_cached s1" using s(5) s1 by simp
  then obtain s2 where s2: "reaches (spsc_step cached N) s1 s2" "quiet N s2" "q_buffer s2 = q_buffer s1"
    "pushed s2 = pushed s1" "popped s2 = popped s1 @ [q_buffer s1 ! slot N (q_head s1)]"
    "cached \<longrightarrow> tail_cached s2 = q_tail s2"
    using pop_call [OF s1(2), of cached] s1 s(3,4) Suc.prems N61 by auto
  have "q_buffer s1 ! slot N (q_head s1) = a"
    using s1(3,4) at quietD(3) [OF s(2)] Suc.prems by simp
  then have msgs: "pushed s2 = replicate (Suc n) a" "popped s2 = replicate (Suc n) a"
    using s s1 s2 by (simp_all add: replicate_append_same)
  moreover from this have "q_head s2 = q_tail s2" using quietD(8,9) [OF s2(2)] by simp
  moreover have "reaches (spsc_step cached N) (spsc_start d N) s2"
    by (rule reaches_trans [OF s2(1) reaches_trans [OF s1(1) s(1)]])
  ultimately show ?case using s2 by auto
qed

text \<open>Second lap: the consumer stands still; \<open>N\<close> more messages go in.\<close>

lemma second_lap:
  fixes d :: "'m"
  assumes N: "N = 2 ^ k" "0 < k" "k \<le> 61" and n: "n \<le> N"
  shows "\<exists>s. reaches (spsc_step cached N) (spsc_start d N) s \<and> quiet N s \<and> n \<le> head_view s \<and>
    pushed s = replicate (N + n) a \<and> popped s = replicate N a \<and> (cached \<longrightarrow> q_head s = tail_cached s)"
  using n
proof (induction n)
  case 0
  show ?case using first_lap [OF N order_refl, of cached d a] by simp
next
  case (Suc n)
  then obtain s where s: "reaches (spsc_step cached N) (spsc_start d N) s" "quiet N s"
    "pushed s = replicate (N + n) a" "popped s = replicate N a" "cached \<longrightarrow> q_head s = tail_cached s"
    by auto
  have N61: "N \<le> 2 ^ 61" using power_increasing [OF N(3), of "2 :: nat"] N(1) by simp
  have k62: "k \<le> 62" using N(3) by simp
  have "spsc_started s \<le> 2 * N" using quietD(10) [OF s(2)] s(3) Suc.prems by simp
  then have "spsc_inv cached N s"
    using message_queue.reachable_inv [OF spsc_is_queue [OF N(1,2) k62] s(1)] by (simp add: in_budget_def)
  then have ring: "ring_ok cached N s" by (rule spsc_invD)
  have seen: "n + 1 \<le> seen cached s" using ring_okD(10) [OF ring] s(3) Suc.prems by simp
  then have view: "n + 1 \<le> head_view s" using seen_le [OF ring] by simp
  have pass: "(q_tail s + 1) AND q_mask N \<noteq> q_head s"
  proof
    assume "(q_tail s + 1) AND q_mask N = q_head s"
    then have "slot N (q_tail s + 1) = N" using quietD(4) [OF s(2)] s(4) by (simp add: slot_def)
    moreover have "slot N (q_tail s + 1) < N" using slot_mod [OF N(1)] N by simp
    ultimately show False by simp
  qed
  have small: "length (pushed s) < 2 ^ 63" using s(3) Suc.prems N61 by simp
  have "slot N (q_tail s) = n"
    using slot_mod [OF N(1), of "q_tail s"] N(3) quietD(5) [OF s(2)] s(3) Suc.prems by simp
  then have free: "\<forall>i \<in> {head_view s..<length (popped s)}. slot N (of_nat i) \<noteq> slot N (q_tail s)"
    using view s(4) slot_of_nat [OF N(1) k62] by auto
  obtain s1 where s1: "reaches (spsc_step cached N) s s1" "quiet N s1" "q_head s1 = q_head s"
    "pushed s1 = pushed s @ [a]" "popped s1 = popped s" "tail_cached s1 = tail_cached s" "head_view s \<le> head_view s1"
    using push_call [OF s(2) pass small free, of cached a] by blast
  have "reaches (spsc_step cached N) (spsc_start d N) s1" by (rule reaches_trans [OF s1(1) s(1)])
  moreover have "pushed s1 = replicate (N + Suc n) a" using s1 s(3) by (simp add: replicate_append_same)
  ultimately show ?case using s1 s(4,5) view by (intro exI [of _ s1]) simp
qed

text \<open>
  The message of push \<open>2 * N + 1\<close> overwrites the oldest unread one and is popped in its
  place: \<open>N\<close> messages stay behind.
\<close>

theorem third_lap_overtakes:
  assumes N: "N = 2 ^ k" "0 < k" "k \<le> 61"
  shows "\<exists>s. reaches (spsc_step cached N) (spsc_start d N) s \<and>
    pushed s = replicate (2 * N) a @ [b] \<and> popped s = replicate N a @ [b]"
proof -
  obtain s where s: "reaches (spsc_step cached N) (spsc_start d N) s" "quiet N s" "N \<le> head_view s"
    "pushed s = replicate (2 * N) a" "popped s = replicate N a" "cached \<longrightarrow> q_head s = tail_cached s"
    using second_lap [OF N order_refl, of cached d a] by (auto simp: mult_2)
  have N61: "N \<le> 2 ^ 61" using power_increasing [OF N(3), of "2 :: nat"] N(1) by simp
  have N0: "0 < N" using N(1) by simp
  note slot = slot_mod [OF N(1)]
  have ix: "unat (q_head s) = N" "unat (q_tail s) = 2 * N" using quietD(4,5) [OF s(2)] s(4,5) by simp_all
  have pass: "(q_tail s + 1) AND q_mask N \<noteq> q_head s"
  proof
    assume "(q_tail s + 1) AND q_mask N = q_head s"
    then have "slot N (q_tail s + 1) = N" using ix by (simp add: slot_def)
    moreover have "slot N (q_tail s + 1) < N" using slot N by simp
    ultimately show False by simp
  qed
  have small: "length (pushed s) < 2 ^ 63" using s(4) N61 by simp
  have free: "\<forall>i \<in> {head_view s..<length (popped s)}. slot N (of_nat i) \<noteq> slot N (q_tail s)"
    using s(3,5) by simp
  obtain s1 where s1: "reaches (spsc_step cached N) s s1" "quiet N s1" "q_head s1 = q_head s"
    "q_buffer s1 = (q_buffer s)[slot N (q_tail s) := b]" "pushed s1 = pushed s @ [b]" "popped s1 = popped s"
    "tail_cached s1 = tail_cached s"
    using push_call [OF s(2) pass small free, of cached b] by blast
  have slots: "slot N (q_head s) = 0" "slot N (q_tail s) = 0" using slot N(3) ix by simp_all
  then have "q_buffer s1 ! slot N (q_head s1) = b"
    using s1(3,4) quietD(3) [OF s(2)] N0 by simp
  moreover obtain s2 where "reaches (spsc_step cached N) s1 s2" "pushed s2 = pushed s1"
    "popped s2 = popped s1 @ [q_buffer s1 ! slot N (q_head s1)]"
    using pop_call [OF s1(2), of cached] s1 s(4-6) N61 by auto
  ultimately show ?thesis
    using s s1 reaches_trans [OF _ reaches_trans [OF s1(1) s(1)]] by (intro exI [of _ s2]) auto
qed

section \<open>Capacity one\<close>

text \<open>The \<open>static_assert\<close> admits \<open>N = 1\<close>, where the first \<open>push\<close> already waits for a pop.\<close>

definition stuck :: "'m spsc \<Rightarrow> bool" where
  "stuck s \<longleftrightarrow> q_head s = 0 \<and> q_tail s = 0 \<and> head_cached s = 0 \<and> tail_cached s = 0 \<and> pushed s = [] \<and> popped s = [] \<and>
     head_view s = 0 \<and> tail_view s = 0 \<and>
     (case producer s of PIdle \<Rightarrow> True | PCheck m t nx \<Rightarrow> nx = 0 | PSpin m t nx \<Rightarrow> nx = 0 | _ \<Rightarrow> False) \<and>
     (case consumer s of CIdle \<Rightarrow> True | CCheck h \<Rightarrow> h = 0 | CSpin h \<Rightarrow> h = 0 | _ \<Rightarrow> False)"

lemma capacity_one_stuck:
  assumes "reaches (spsc_step cached 1) (spsc_start d 1) s"
  shows "stuck s"
proof (rule reaches_invariant [OF assms])
  show "stuck (spsc_start d 1)" by (simp add: stuck_def spsc_start_def)
  have mask: "x AND q_mask (Suc 0) = 0" for x by (simp add: q_mask_def)
  fix t u :: "'a spsc" assume t: "stuck t" and step: "spsc_step cached 1 t u"
  from step show "stuck u"
  proof cases
    case (producer_moves v msg)
    with t show ?thesis
      by (cases "producer t") (auto simp: stuck_def mask)
  next
    case (consumer_moves v)
    with t show ?thesis by (cases "consumer t") (auto simp: stuck_def)
  qed
qed

section \<open>The server's queues\<close>

text \<open>\<open>kQueueCapacity\<close> is \<open>131072\<close>.\<close>

definition kQueueCapacity :: nat where
  "kQueueCapacity = 131072"

interpretation cached_q: threaded_queue "spsc_start zero_message kQueueCapacity" "spsc_step True kQueueCapacity"
  pushed popped spsc_started push_spins pop_spins "Some (2 * kQueueCapacity)" "spsc_inv True kQueueCapacity"
  "spsc_ops True kQueueCapacity" spsc_begun spsc_effort
  by (rule spsc_is_threaded [where k = 17]) (simp_all add: kQueueCapacity_def)

interpretation uncached_q: threaded_queue "spsc_start zero_message kQueueCapacity" "spsc_step False kQueueCapacity"
  pushed popped spsc_started push_spins pop_spins "Some (2 * kQueueCapacity)" "spsc_inv False kQueueCapacity"
  "spsc_ops False kQueueCapacity" spsc_begun spsc_effort
  by (rule spsc_is_threaded [where k = 17]) (simp_all add: kQueueCapacity_def)

end
