(* ===== verification/Naive_Queue.thy ===== *)
theory Naive_Queue
  imports Message_Queue
begin

text \<open>
  \<open>NaiveQueue\<close> (\<open>src/engine/naive_queue.h\<close>): a \<open>std::queue\<close> under a mutex, with a condition
  variable for the empty queue.  The threads move from one lock operation, queue operation,
  wait or notification to the next.  Of the library: \<open>wait\<close> releases the mutex and sleeps in
  one step, it may wake without a notification, and \<open>notify_one\<close> wakes a sleeping thread.
\<close>

section \<open>State\<close>

datatype 'm pusher =
    NIdle
  | NLock 'm       \<comment> \<open>before \<open>lock_guard\<close>\<close>
  | NPush 'm       \<comment> \<open>holding the mutex\<close>
  | NUnlock
  | NNotify        \<comment> \<open>after the inner block, before \<open>notify_one\<close>\<close>

datatype 'm popper =
    MIdle
  | MLock          \<comment> \<open>before \<open>unique_lock\<close>, or woken and locking again\<close>
  | MTest          \<comment> \<open>holding the mutex, about to evaluate the predicate of \<open>wait\<close>\<close>
  | MWait          \<comment> \<open>asleep in \<open>wait\<close>\<close>
  | MTake          \<comment> \<open>the predicate held\<close>
  | MReturn 'm     \<comment> \<open>\<open>front\<close> and \<open>pop\<close> done; the mutex is released on return\<close>

datatype owner = Producer | Consumer

record 'm naive_queue =
  items :: "'m list"
  mutex :: "owner option"
  pusher :: "'m pusher"
  popper :: "'m popper"
  put_in :: "'m list"      \<comment> \<open>the messages pushed so far\<close>
  taken_out :: "'m list"   \<comment> \<open>the messages returned by \<open>pop\<close>\<close>

definition naive_start :: "'m naive_queue" where
  "naive_start = \<lparr>items = [], mutex = None, pusher = NIdle, popper = MIdle, put_in = [], taken_out = []\<rparr>"

section \<open>Steps\<close>

definition naive_push_step :: "'m \<Rightarrow> 'm naive_queue \<Rightarrow> 'm naive_queue" where
  "naive_push_step msg s = (case pusher s of
     NIdle \<Rightarrow> s\<lparr>pusher := NLock msg\<rparr>
   | NLock m \<Rightarrow> (if mutex s = None then s\<lparr>mutex := Some Producer, pusher := NPush m\<rparr> else s)
   | NPush m \<Rightarrow> s\<lparr>items := items s @ [m], put_in := put_in s @ [m], pusher := NUnlock\<rparr>
   | NUnlock \<Rightarrow> s\<lparr>mutex := None, pusher := NNotify\<rparr>
   | NNotify \<Rightarrow> s\<lparr>pusher := NIdle, popper := (if popper s = MWait then MLock else popper s)\<rparr>)"

definition naive_pop_step :: "'m naive_queue \<Rightarrow> 'm naive_queue" where
  "naive_pop_step s = (case popper s of
     MIdle \<Rightarrow> s\<lparr>popper := MLock\<rparr>
   | MLock \<Rightarrow> (if mutex s = None then s\<lparr>mutex := Some Consumer, popper := MTest\<rparr> else s)
   | MTest \<Rightarrow> (if items s = [] then s\<lparr>mutex := None, popper := MWait\<rparr> else s\<lparr>popper := MTake\<rparr>)
   | MWait \<Rightarrow> s
   | MTake \<Rightarrow> s\<lparr>items := tl (items s), popper := MReturn (hd (items s))\<rparr>
   | MReturn m \<Rightarrow> s\<lparr>mutex := None, popper := MIdle, taken_out := taken_out s @ [m]\<rparr>)"

definition naive_wakeup :: "'m naive_queue \<Rightarrow> 'm naive_queue" where
  "naive_wakeup s = (if popper s = MWait then s\<lparr>popper := MLock\<rparr> else s)"

inductive naive_step :: "'m naive_queue \<Rightarrow> 'm naive_queue \<Rightarrow> bool" where
  naive_producer: "naive_step s (naive_push_step msg s)"
| naive_consumer: "naive_step s (naive_pop_step s)"
| naive_spurious: "naive_step s (naive_wakeup s)"

text \<open>\<open>try_pop\<close> runs under the mutex as a whole.\<close>

definition try_pop :: "'m naive_queue \<Rightarrow> 'm option \<times> 'm naive_queue" where
  "try_pop s = (if items s = [] then (None, s) else (Some (hd (items s)), s\<lparr>items := tl (items s)\<rparr>))"

definition naive_started :: "'m naive_queue \<Rightarrow> nat" where
  "naive_started s = length (put_in s) + (case pusher s of NLock m \<Rightarrow> 1 | NPush m \<Rightarrow> 1 | _ \<Rightarrow> 0)"

text \<open>Waiting for the other thread: for the mutex, or asleep with no notification to come.\<close>

definition naive_blocked_push :: "'m naive_queue \<Rightarrow> bool" where
  "naive_blocked_push s \<longleftrightarrow> (case pusher s of NLock m \<Rightarrow> mutex s \<noteq> None | _ \<Rightarrow> False)"

definition naive_blocked_pop :: "'m naive_queue \<Rightarrow> bool" where
  "naive_blocked_pop s \<longleftrightarrow> (popper s = MWait \<and> pusher s = NIdle) \<or> (popper s = MLock \<and> mutex s = Some Consumer)"

section \<open>Invariant\<close>

text \<open>
  The mutex is held exactly where the code holds it; the queue holds what was pushed and not
  yet taken; and nobody sleeps on a non-empty queue unless a notification is on its way.
\<close>

definition in_hand :: "'m naive_queue \<Rightarrow> 'm list" where
  "in_hand s = (case popper s of MReturn m \<Rightarrow> [m] | _ \<Rightarrow> [])"

definition naive_inv :: "'m naive_queue \<Rightarrow> bool" where
  "naive_inv s \<longleftrightarrow>
     put_in s = taken_out s @ in_hand s @ items s \<and>
     (mutex s = Some Producer \<longleftrightarrow> (\<exists>m. pusher s = NPush m) \<or> pusher s = NUnlock) \<and>
     (mutex s = Some Consumer \<longleftrightarrow> popper s = MTest \<or> popper s = MTake \<or> (\<exists>m. popper s = MReturn m)) \<and>
     (popper s = MTake \<longrightarrow> items s \<noteq> []) \<and>
     (popper s = MWait \<and> items s \<noteq> [] \<longrightarrow> pusher s = NUnlock \<or> pusher s = NNotify)"

lemma naive_push_step_inv: "naive_inv s \<Longrightarrow> naive_inv (naive_push_step msg s)"
  by (cases "pusher s"; cases "popper s") (auto simp: naive_push_step_def naive_inv_def in_hand_def)

lemma naive_pop_step_inv:
  assumes inv: "naive_inv s"
  shows "naive_inv (naive_pop_step s)"
proof (cases "popper s")
  case MTake
  with inv obtain m ms where "items s = m # ms" by (cases "items s") (auto simp: naive_inv_def)
  with MTake inv show ?thesis by (auto simp: naive_pop_step_def naive_inv_def in_hand_def)
next
  case MTest
  with inv show ?thesis by (auto simp: naive_pop_step_def naive_inv_def in_hand_def)
next
  case MLock
  with inv show ?thesis by (auto simp: naive_pop_step_def naive_inv_def in_hand_def)
next
  case (MReturn m)
  with inv show ?thesis by (auto simp: naive_pop_step_def naive_inv_def in_hand_def)
next
  case MIdle
  with inv show ?thesis by (auto simp: naive_pop_step_def naive_inv_def in_hand_def)
next
  case MWait
  with inv show ?thesis by (simp add: naive_pop_step_def)
qed

lemma naive_wakeup_inv: "naive_inv s \<Longrightarrow> naive_inv (naive_wakeup s)"
  by (auto simp: naive_wakeup_def naive_inv_def in_hand_def)

lemma naive_step_inv: "naive_step s t \<Longrightarrow> naive_inv s \<Longrightarrow> naive_inv t"
  by (induction rule: naive_step.induct) (auto intro: naive_push_step_inv naive_pop_step_inv naive_wakeup_inv)

lemma naive_started_steps:
  "naive_started s \<le> naive_started (naive_push_step msg s)"
  "naive_started (naive_pop_step s) = naive_started s" "naive_started (naive_wakeup s) = naive_started s"
proof -
  show "naive_started s \<le> naive_started (naive_push_step msg s)"
    by (cases "pusher s") (simp_all add: naive_started_def naive_push_step_def)
  show "naive_started (naive_pop_step s) = naive_started s"
    by (cases "popper s") (simp_all add: naive_started_def naive_pop_step_def)
  show "naive_started (naive_wakeup s) = naive_started s"
    by (simp add: naive_started_def naive_wakeup_def)
qed

section \<open>The queue contract\<close>

lemma naive_is_queue: "message_queue naive_start naive_step put_in taken_out naive_started
  naive_blocked_push naive_blocked_pop None (naive_inv :: 'm naive_queue \<Rightarrow> bool)"
proof unfold_locales
  show "put_in naive_start = []" "taken_out naive_start = []" "naive_started naive_start = 0"
    by (simp_all add: naive_start_def naive_started_def)
  show "naive_inv (naive_start :: 'm naive_queue)" by (simp add: naive_start_def naive_inv_def in_hand_def)
next
  fix s t :: "'m naive_queue"
  show "naive_step s t \<Longrightarrow> naive_started s \<le> naive_started t"
    by (induction rule: naive_step.induct) (simp_all only: naive_started_steps order_refl)
  show "naive_inv s \<Longrightarrow> naive_step s t \<Longrightarrow> naive_inv t" by (rule naive_step_inv)
  show "naive_inv s \<Longrightarrow> prefix (taken_out s) (put_in s)" by (simp add: naive_inv_def)
  show "naive_inv s \<Longrightarrow> naive_blocked_push s \<Longrightarrow> \<not> naive_blocked_pop s"
    by (auto simp: naive_inv_def naive_blocked_push_def naive_blocked_pop_def split: pusher.splits)
  show "naive_inv s \<Longrightarrow> naive_blocked_pop s \<Longrightarrow> taken_out s = put_in s"
    by (auto simp: naive_inv_def naive_blocked_pop_def in_hand_def)
qed

section \<open>The two threads\<close>

definition naive_ops :: "('m, 'm naive_queue) queue_ops" where
  "naive_ops = \<lparr>
     qo_push = (\<lambda>msg v s. naive_push_step msg s), qo_push_can = (\<lambda>v s. True),
     qo_pop = (\<lambda>v s. naive_pop_step s), qo_pop_can = (\<lambda>v s. True), qo_wake = naive_wakeup,
     qo_pushing = (\<lambda>s. case pusher s of NIdle \<Rightarrow> False | _ \<Rightarrow> True),
     qo_popping = (\<lambda>s. case popper s of MIdle \<Rightarrow> False | _ \<Rightarrow> True),
     qo_received = taken_out\<rparr>"

lemma naive_ops_simps [simp]:
  "qo_push naive_ops msg v s = naive_push_step msg s" "qo_push_can naive_ops v s"
  "qo_pop naive_ops v s = naive_pop_step s" "qo_pop_can naive_ops v s" "qo_wake naive_ops s = naive_wakeup s"
  "qo_pushing naive_ops s \<longleftrightarrow> pusher s \<noteq> NIdle" "qo_popping naive_ops s \<longleftrightarrow> popper s \<noteq> MIdle"
  "qo_received naive_ops s = taken_out s"
  by (simp_all add: naive_ops_def split: pusher.splits popper.splits)

definition naive_begun :: "'m naive_queue \<Rightarrow> 'm list" where
  "naive_begun s = put_in s @ (case pusher s of NLock m \<Rightarrow> [m] | NPush m \<Rightarrow> [m] | _ \<Rightarrow> [])"

text \<open>\<open>notify_one\<close> sends a sleeping consumer back to the lock: the producer's steps weigh more.\<close>

definition naive_effort :: "'m naive_queue \<Rightarrow> nat" where
  "naive_effort s =
     3 * (case pusher s of NIdle \<Rightarrow> 0 | NLock m \<Rightarrow> 4 | NPush m \<Rightarrow> 3 | NUnlock \<Rightarrow> 2 | NNotify \<Rightarrow> 1) +
     (case popper s of MIdle \<Rightarrow> 0 | MLock \<Rightarrow> 4 | MTest \<Rightarrow> 3 | MWait \<Rightarrow> 2 | MTake \<Rightarrow> 2 | MReturn m \<Rightarrow> 1)"

lemma naive_push_effort:
  assumes "pusher s \<noteq> NIdle" and "mutex s = None \<or> (\<forall>m. pusher s \<noteq> NLock m)"
  shows "naive_effort (naive_push_step m s) < naive_effort s"
  using assms by (cases "pusher s"; cases "popper s") (auto simp: naive_push_step_def naive_effort_def)

lemma naive_pop_effort:
  assumes "popper s \<noteq> MIdle" and "popper s \<noteq> MWait" and "mutex s = None \<or> popper s \<noteq> MLock"
  shows "naive_effort (naive_pop_step s) < naive_effort s"
  using assms by (cases "popper s") (auto simp: naive_pop_step_def naive_effort_def)

lemma naive_both_go_on:
  assumes "naive_inv s" and "pusher s \<noteq> NIdle"
  shows "naive_effort (naive_push_step m s) < naive_effort s \<or> naive_effort (naive_pop_step s) < naive_effort s"
proof (cases "mutex s = None \<or> (\<forall>m. pusher s \<noteq> NLock m)")
  case True
  then show ?thesis using naive_push_effort [OF assms(2)] by blast
next
  case False
  then obtain m' where "pusher s = NLock m'" "mutex s = Some Consumer"
    using assms(1) by (cases "mutex s"; cases "the (mutex s)") (auto simp: naive_inv_def)
  then have "popper s = MTest \<or> popper s = MTake \<or> (\<exists>m. popper s = MReturn m)"
    using assms(1) by (simp add: naive_inv_def)
  then have "naive_effort (naive_pop_step s) < naive_effort s" by (intro naive_pop_effort) auto
  then show ?thesis ..
qed

lemma naive_pop_alone:
  assumes "naive_inv s" and "pusher s = NIdle" and "popper s \<noteq> MIdle" and "taken_out s \<noteq> put_in s"
  shows "naive_effort (naive_pop_step s) < naive_effort s"
proof (rule naive_pop_effort [OF assms(3)])
  show "popper s \<noteq> MWait" using assms by (auto simp: naive_inv_def in_hand_def)
  show "mutex s = None \<or> popper s \<noteq> MLock"
    using assms(1,2) by (cases "mutex s"; cases "the (mutex s)") (auto simp: naive_inv_def)
qed

lemma naive_push_alone:
  assumes "pusher s \<noteq> NIdle" and "\<not> naive_blocked_push s"
  shows "naive_effort (naive_push_step m s) < naive_effort s"
  using assms by (intro naive_push_effort) (auto simp: naive_blocked_push_def)

lemma naive_push_begins:
  assumes "pusher s = NIdle"
  shows "naive_begun (naive_push_step m s) = naive_begun s @ [m]" and "pusher (naive_push_step m s) \<noteq> NIdle"
    and "naive_effort (naive_push_step m s) = naive_effort s + 12"
  using assms by (simp_all add: naive_push_step_def naive_begun_def naive_effort_def)

lemma naive_push_goes_on: "pusher s \<noteq> NIdle \<Longrightarrow> naive_begun (naive_push_step m s) = naive_begun s"
  by (cases "pusher s") (simp_all add: naive_push_step_def naive_begun_def)

lemma naive_push_other:
  "(popper (naive_push_step m s) = MIdle \<longleftrightarrow> popper s = MIdle) \<and> taken_out (naive_push_step m s) = taken_out s"
  by (cases "pusher s") (simp_all add: naive_push_step_def)

lemma naive_pop_begins:
  assumes "popper s = MIdle"
  shows "popper (naive_pop_step s) \<noteq> MIdle" and "naive_effort (naive_pop_step s) = naive_effort s + 4"
  using assms by (simp_all add: naive_pop_step_def naive_effort_def)

lemma naive_pop_waits: "popper (naive_pop_step s) \<noteq> MIdle \<Longrightarrow> taken_out (naive_pop_step s) = taken_out s"
  by (cases "popper s") (simp_all add: naive_pop_step_def)

lemma naive_pop_returns: "popper (naive_pop_step s) = MIdle \<Longrightarrow> \<exists>m. taken_out (naive_pop_step s) = taken_out s @ [m]"
  by (cases "popper s") (simp_all add: naive_pop_step_def split: if_splits)

lemma naive_pop_other: "pusher (naive_pop_step s) = pusher s \<and> naive_begun (naive_pop_step s) = naive_begun s"
  by (cases "popper s") (simp_all add: naive_pop_step_def naive_begun_def)

lemmas naive_facts = naive_push_begins naive_push_goes_on naive_push_other naive_push_alone naive_pop_begins
  naive_pop_waits naive_pop_returns naive_pop_other naive_pop_alone

lemma naive_wake_facts:
  "pusher (naive_wakeup s) = pusher s" "naive_begun (naive_wakeup s) = naive_begun s"
  "popper (naive_wakeup s) = MIdle \<longleftrightarrow> popper s = MIdle" "taken_out (naive_wakeup s) = taken_out s"
  by (simp_all add: naive_wakeup_def naive_begun_def)

interpretation naive_q: threaded_queue "naive_start :: 'm naive_queue" naive_step put_in taken_out naive_started
  naive_blocked_push naive_blocked_pop None naive_inv naive_ops naive_begun naive_effort
proof (intro threaded_queue.intro naive_is_queue threaded_queue_axioms.intro)
  fix q :: "'m naive_queue" and m v
  show "naive_started q = length (naive_begun q)" "prefix (put_in q) (naive_begun q)"
    "\<not> qo_pushing naive_ops q \<Longrightarrow> naive_begun q = put_in q"
    by (cases "pusher q", simp_all add: naive_started_def naive_begun_def)+
  show "(\<exists>v. qo_push_can naive_ops v q \<and> naive_effort (qo_push naive_ops m v q) < naive_effort q) \<or>
      (\<exists>v. qo_pop_can naive_ops v q \<and> naive_effort (qo_pop naive_ops v q) < naive_effort q)"
    if "naive_inv q" "qo_pushing naive_ops q"
    using naive_both_go_on [OF that(1)] that(2) by simp
  show "taken_out q \<noteq> naive_begun q" if "naive_inv q" "naive_blocked_push q"
    using that by (auto simp: naive_inv_def naive_blocked_push_def naive_begun_def split: pusher.splits)
qed (auto simp: naive_facts naive_wake_facts naive_start_def intro: naive_step.intros)

text \<open>\<open>try_pop\<close> takes the oldest message there is, and never waits.\<close>

lemma try_pop_some:
  assumes "items s = m # ms"
  shows "try_pop s = (Some m, s\<lparr>items := ms\<rparr>)"
  using assms by (simp add: try_pop_def)

end
