(* ===== verification/Cpu_Pinning.thy ===== *)
theory Cpu_Pinning
  imports C_Numbers
begin

text \<open>
  Choosing the core a thread is pinned to (\<open>src/engine/cpu_pinning.h\<close>).  The environment is a
  map from names to values; the CPU set is the set of its members.
\<close>

definition kDefaultNetworkBenchCore :: int where
  "kDefaultNetworkBenchCore = 0"

definition kDefaultMatchingBenchCore :: int where
  "kDefaultMatchingBenchCore = 2"

text \<open>\<open>static_cast<int>\<close> of a 64-bit \<open>long\<close> keeps the low 32 bits.\<close>

definition cast_int :: "int \<Rightarrow> int" where
  "cast_int x = signed_take_bit 31 x"

definition configured_bench_core :: "(string \<rightharpoonup> string) \<Rightarrow> string \<Rightarrow> int \<Rightarrow> int" where
  "configured_bench_core env env_name default_core = (case env env_name of
     None \<Rightarrow> default_core
   | Some value \<Rightarrow>
       if value = [] then default_core
       else (case strtol value of
         None \<Rightarrow> default_core
       | Some (parsed, rest) \<Rightarrow>
           if rest \<noteq> [] \<or> parsed < 0 then default_core else cast_int parsed))"

definition network_bench_core :: "(string \<rightharpoonup> string) \<Rightarrow> int" where
  "network_bench_core env = configured_bench_core env ''LOBOOK_NETWORK_CORE'' kDefaultNetworkBenchCore"

definition matching_bench_core :: "(string \<rightharpoonup> string) \<Rightarrow> int" where
  "matching_bench_core env = configured_bench_core env ''LOBOOK_MATCHING_CORE'' kDefaultMatchingBenchCore"

text \<open>\<open>CPU_ZERO\<close> and \<open>CPU_SET\<close> on a \<open>cpu_set_t\<close> of 1024 bits: a core outside it is not set.\<close>

definition cpu_set :: "int \<Rightarrow> int set" where
  "cpu_set core_id = (if 0 \<le> core_id \<and> core_id < 1024 then {core_id} else {})"

lemma cast_int_small: "0 \<le> x \<Longrightarrow> x < 2147483648 \<Longrightarrow> cast_int x = x"
  by (simp add: cast_int_def signed_take_bit_int_eq_self)

lemma configured_decimal:
  assumes "env name = Some (decimal n)" and "n \<le> 9223372036854775807"
  shows "configured_bench_core env name d = cast_int (int n)"
  using assms by (simp add: configured_bench_core_def strtol_decimal)

lemma configured_small:
  assumes "env name = Some (decimal n)" and "n < 2147483648"
  shows "configured_bench_core env name d = int n"
  using assms by (simp add: configured_decimal cast_int_small)

text \<open>The negative check comes before the cast: a value past \<open>INT_MAX\<close> can come out negative.\<close>

lemma configured_truncates:
  assumes "env name = Some (decimal 4294967295)"
  shows "configured_bench_core env name d = -1"
proof -
  have "configured_bench_core env name d = cast_int (int 4294967295)"
    by (rule configured_decimal [where n = 4294967295]) (use assms in simp_all)
  also have "\<dots> = -1" by (simp add: cast_int_def)
  finally show ?thesis .
qed

end
