(* ===== verification/Server.thy ===== *)
theory Server
  imports Matching_Engine Spsc_Queue Naive_Queue Cpu_Pinning
begin

text \<open>
  The end-to-end harness (\<open>src/server.cpp\<close>): its arguments, its workload, the producer thread
  that stamps, pushes and paces, and what the engine has done when the run is over.
\<close>

definition kBookOrders :: nat where
  "kBookOrders = 100000"

section \<open>Arguments\<close>

record Args =
  queue_mode :: string
  pacing_ns :: u64
  workload :: u64
  dump_path :: string

definition default_args :: Args where
  "default_args = \<lparr>queue_mode = ''cached'', pacing_ns = 1000, workload = 100000, dump_path = []\<rparr>"

text \<open>How parsing ends early: \<open>exit(0)\<close>, \<open>return false\<close>, or an exception of \<open>stoull\<close>.\<close>

datatype parse_stop = Help | Rejected | Threw std_exception

fun parse_loop :: "string list \<Rightarrow> Args \<Rightarrow> parse_stop + Args" where
  "parse_loop [] out = Inr out"
| "parse_loop (a # rest) out =
     (if a = ''--help'' \<or> a = ''-h'' then Inl Help
      else if prefix ''--queue='' a then parse_loop rest (out\<lparr>queue_mode := drop 8 a\<rparr>)
      else if prefix ''--pacing-ns='' a then
        (case stoull (drop 12 a) of Inl e \<Rightarrow> Inl (Threw e) | Inr v \<Rightarrow> parse_loop rest (out\<lparr>pacing_ns := v\<rparr>))
      else if prefix ''--workload='' a then
        (case stoull (drop 11 a) of Inl e \<Rightarrow> Inl (Threw e) | Inr v \<Rightarrow> parse_loop rest (out\<lparr>workload := v\<rparr>))
      else if prefix ''--dump-latencies='' a then parse_loop rest (out\<lparr>dump_path := drop 17 a\<rparr>)
      else Inl Rejected)"

definition known_mode :: "string \<Rightarrow> bool" where
  "known_mode m \<longleftrightarrow> m = ''cached'' \<or> m = ''uncached'' \<or> m = ''naive''"

text \<open>The argument list without \<open>argv[0]\<close>.\<close>

definition parse_args :: "string list \<Rightarrow> parse_stop + Args" where
  "parse_args argv = (case parse_loop argv default_args of
     Inl e \<Rightarrow> Inl e
   | Inr out \<Rightarrow> if known_mode (queue_mode out) then Inr out else Inl Rejected)"

datatype queue_kind = CachedQueue | UncachedQueue | MutexQueue

definition select_queue :: "Args \<Rightarrow> queue_kind" where
  "select_queue args = (if queue_mode args = ''cached'' then CachedQueue
     else if queue_mode args = ''uncached'' then UncachedQueue else MutexQueue)"

lemma parse_args_known: "parse_args argv = Inr args \<Longrightarrow> known_mode (queue_mode args)"
  by (auto simp: parse_args_def split: sum.splits if_splits)

lemma parse_all_options:
  assumes "known_mode m" and "p \<le> 18446744073709551615" and "w \<le> 18446744073709551615"
  shows "parse_args [''--queue='' @ m, ''--pacing-ns='' @ decimal p, ''--workload='' @ decimal w, ''--dump-latencies='' @ f] =
    Inr \<lparr>queue_mode = m, pacing_ns = of_nat p, workload = of_nat w, dump_path = f\<rparr>"
  using assms by (simp add: parse_args_def default_args_def stoull_decimal)

text \<open>Arguments are read from the left; the first that cannot be taken ends the parse.\<close>

lemma parse_loop_append:
  "parse_loop (xs @ ys) out = (case parse_loop xs out of Inl e \<Rightarrow> Inl e | Inr out' \<Rightarrow> parse_loop ys out')"
  by (induction xs out rule: parse_loop.induct) (auto split: sum.splits)

definition option_names :: "string list" where
  "option_names = [''--help'', ''-h'', ''--queue='', ''--pacing-ns='', ''--workload='', ''--dump-latencies='']"

lemma parse_loop_unknown:
  assumes "\<forall>n \<in> set option_names. \<not> prefix n a"
  shows "parse_loop (a # rest) out = Inl Rejected"
  using assms by (auto simp: option_names_def)

section \<open>The workload and the producer thread\<close>

definition workload_message :: "nat \<Rightarrow> OrderMessage" where
  "workload_message i = zero_message\<lparr>m_id := of_nat i, m_price := 100, m_qty := 10, m_timestamp := 0,
     m_is_buy := True, m_type := SUBMIT\<rparr>"

definition build_workload :: "Args \<Rightarrow> OrderMessage list" where
  "build_workload args = map workload_message [0..<unat (workload args)]"

text \<open>
  Pacing: read the clock until it has reached \<open>wait_until\<close>.  The result is the number of
  readings made so far.
\<close>

partial_function (option) spin_until :: "(nat \<Rightarrow> timespec) \<Rightarrow> nat \<Rightarrow> u64 \<Rightarrow> nat option" where
  "spin_until clock k wait_until =
     (if now_ns (clock k) \<ge> wait_until then Some (Suc k) else spin_until clock (Suc k) wait_until)"

fun send_all :: "(nat \<Rightarrow> timespec) \<Rightarrow> nat \<Rightarrow> u64 \<Rightarrow> OrderMessage list \<Rightarrow> OrderMessage list option" where
  "send_all clock k pacing [] = Some []"
| "send_all clock k pacing (msg # msgs) =
     (let msg' = msg\<lparr>m_timestamp := now_ns (clock k)\<rparr> in
      case spin_until clock (Suc k) (m_timestamp msg' + pacing) of
        None \<Rightarrow> None
      | Some k' \<Rightarrow> map_option ((#) msg') (send_all clock k' pacing msgs))"

lemma spin_until_reading: "spin_until clock k w = Some k' \<Longrightarrow> k < k' \<and> w \<le> now_ns (clock (k' - 1))"
proof -
  assume run: "spin_until clock k w = Some k'"
  show ?thesis
  proof (rule spin_until.raw_induct [OF _ run])
    fix spin :: "(nat \<Rightarrow> timespec) \<Rightarrow> nat \<Rightarrow> u64 \<Rightarrow> nat option" and clock k w k'
    assume IH: "\<And>clock k w k'. spin clock k w = Some k' \<Longrightarrow> k < k' \<and> w \<le> now_ns (clock (k' - 1))"
      and step: "(if w \<le> now_ns (clock k) then Some (Suc k) else spin clock (Suc k) w) = Some k'"
    show "k < k' \<and> w \<le> now_ns (clock (k' - 1))"
    proof (cases "w \<le> now_ns (clock k)")
      case False
      with step have "spin clock (Suc k) w = Some k'" by simp
      from IH [OF this] show ?thesis by simp
    qed (use step in auto)
  qed
qed

lemma spin_until_stops:
  assumes "k \<le> j" and "w \<le> now_ns (clock j)"
  shows "\<exists>k'. spin_until clock k w = Some k'"
  using assms(1)
proof (induction "j - k" arbitrary: k)
  case 0
  then show ?case using assms(2) by (subst spin_until.simps) auto
next
  case (Suc d)
  then have "\<exists>k'. spin_until clock (Suc k) w = Some k'" by (intro Suc.hyps(1)) simp_all
  then show ?case by (subst spin_until.simps) auto
qed

definition unstamped :: "OrderMessage \<Rightarrow> OrderMessage" where
  "unstamped m = m\<lparr>m_timestamp := 0\<rparr>"

text \<open>
  A clock that shows real time \<open>T\<close>, in nanoseconds without wrap-around: it never goes back, a
  reading is at most \<open>gap\<close> after the one before, and time passes.
\<close>

definition shows_time :: "(nat \<Rightarrow> timespec) \<Rightarrow> (nat \<Rightarrow> nat) \<Rightarrow> nat \<Rightarrow> bool" where
  "shows_time clock T gap \<longleftrightarrow>
     (\<forall>k. now_ns (clock k) = of_nat (T k) \<and> T k \<le> T (Suc k) \<and> T (Suc k) \<le> T k + gap) \<and> (\<forall>w. \<exists>k. w \<le> T k)"

lemma shows_timeD:
  assumes "shows_time clock T gap"
  shows "now_ns (clock k) = of_nat (T k)" and "i \<le> j \<Longrightarrow> T i \<le> T j" and "T (Suc k) \<le> T k + gap"
    and "\<exists>k. w \<le> T k"
  using assms by (auto simp: shows_time_def intro: lift_Suc_mono_le)

text \<open>The pacing loop ends at the first reading at or after \<open>w\<close>, so at most \<open>gap\<close> late.\<close>

lemma spin_until_time:
  assumes clock: "shows_time clock T gap" and w: "w + gap < 18446744073709551616" and k: "T k \<le> w + gap"
  shows "\<exists>j. spin_until clock k (of_nat w) = Some (Suc j) \<and> k \<le> j \<and> w \<le> T j \<and> T j \<le> w + gap"
proof -
  have reading: "(of_nat w :: u64) \<le> now_ns (clock i) \<longleftrightarrow> w \<le> T i" if "T i \<le> w + gap" for i
    using w that by (simp add: shows_timeD(1) [OF clock] word_le_nat_alt unsigned_of_nat take_bit_nat_eq_self)
  obtain m where "w \<le> T m" using shows_timeD(4) [OF clock] by blast
  then have "w \<le> T (max k m)" using shows_timeD(2) [OF clock, of m "max k m"] by simp
  then show ?thesis
    using k
  proof (induction "max k m - k" arbitrary: k m)
    case 0
    then have "w \<le> T k" by (simp add: max_def split: if_splits)
    with reading [OF 0(3)] 0(3) show ?case by (subst spin_until.simps) auto
  next
    case (Suc d)
    show ?case
    proof (cases "w \<le> T k")
      case True
      with reading [OF Suc.prems(2)] Suc.prems(2) show ?thesis by (subst spin_until.simps) auto
    next
      case False
      have m: "max (Suc k) m = max k m" "d = max (Suc k) m - Suc k" using Suc.hyps(2) by (auto simp: max_def split: if_splits)
      have "T (Suc k) \<le> w + gap" using shows_timeD(3) [OF clock, of k] False by simp
      then obtain j where "spin_until clock (Suc k) (of_nat w) = Some (Suc j)" "Suc k \<le> j" "w \<le> T j" "T j \<le> w + gap"
        using Suc.hyps(1) [OF m(2)] Suc.prems(1) m(1) by auto
      with False reading [OF Suc.prems(2)] show ?thesis by (subst spin_until.simps) (auto intro: Suc_leD)
    qed
  qed
qed

text \<open>
  Sending ends before the clock wraps around.  The messages go out in order, changed in their time
  stamps only, and the stamps are at least the pacing and at most the pacing and two readings apart.
\<close>

definition spaced :: "nat \<Rightarrow> nat \<Rightarrow> OrderMessage list \<Rightarrow> bool" where
  "spaced least most sent \<longleftrightarrow> (\<forall>i. Suc i < length sent \<longrightarrow>
     unat (m_timestamp (sent ! i)) + least \<le> unat (m_timestamp (sent ! Suc i)) \<and>
     unat (m_timestamp (sent ! Suc i)) \<le> unat (m_timestamp (sent ! i)) + most)"

lemma spaced_Cons:
  assumes "spaced least most sent"
    and "sent \<noteq> [] \<Longrightarrow> unat (m_timestamp m) + least \<le> unat (m_timestamp (hd sent)) \<and>
      unat (m_timestamp (hd sent)) \<le> unat (m_timestamp m) + most"
  shows "spaced least most (m # sent)"
  unfolding spaced_def
proof (intro allI impI)
  fix i assume i: "Suc i < length (m # sent)"
  show "unat (m_timestamp ((m # sent) ! i)) + least \<le> unat (m_timestamp ((m # sent) ! Suc i)) \<and>
      unat (m_timestamp ((m # sent) ! Suc i)) \<le> unat (m_timestamp ((m # sent) ! i)) + most"
  proof (cases i)
    case 0
    then show ?thesis using i assms(2) by (cases sent) auto
  next
    case (Suc j)
    then show ?thesis using i assms(1) by (simp add: spaced_def)
  qed
qed

lemma send_all_spaced:
  assumes clock: "shows_time clock T gap"
  shows "T k + length msgs * (unat pacing + 2 * gap) < 18446744073709551616 \<Longrightarrow>
    \<exists>sent. send_all clock k pacing msgs = Some sent \<and> map unstamped sent = map unstamped msgs \<and>
      (sent \<noteq> [] \<longrightarrow> unat (m_timestamp (hd sent)) = T k) \<and> spaced (unat pacing) (unat pacing + 2 * gap) sent"
proof (induction msgs arbitrary: k)
  case Nil
  then show ?case by (simp add: spaced_def)
next
  case (Cons m ms)
  let ?w = "T k + unat pacing" and ?m = "m\<lparr>m_timestamp := now_ns (clock k)\<rparr>"
  have room: "?w + 2 * gap + length ms * (unat pacing + 2 * gap) < 18446744073709551616" using Cons.prems by simp
  then have small: "?w + gap < 18446744073709551616" by linarith
  have "T (Suc k) \<le> ?w + gap" using shows_timeD(3) [OF clock, of k] by simp
  from spin_until_time [OF clock small this] obtain j where
    j: "spin_until clock (Suc k) (of_nat ?w) = Some (Suc j)" "?w \<le> T j" "T j \<le> ?w + gap" by blast
  have next_time: "?w \<le> T (Suc j)" "T (Suc j) \<le> ?w + 2 * gap"
    using j(2,3) shows_timeD(2) [OF clock, of j "Suc j"] shows_timeD(3) [OF clock, of j] by simp_all
  then have "T (Suc j) + length ms * (unat pacing + 2 * gap) < 18446744073709551616" using room by linarith
  from Cons.IH [OF this] obtain sent where sent: "send_all clock (Suc j) pacing ms = Some sent"
    "map unstamped sent = map unstamped ms" "sent \<noteq> [] \<longrightarrow> unat (m_timestamp (hd sent)) = T (Suc j)"
    "spaced (unat pacing) (unat pacing + 2 * gap) sent" by blast
  have now: "now_ns (clock k) + pacing = of_nat ?w" by (simp add: shows_timeD(1) [OF clock])
  have stamp: "unat (m_timestamp ?m) = T k"
    using small by (simp add: shows_timeD(1) [OF clock] unsigned_of_nat take_bit_nat_eq_self)
  have "send_all clock k pacing (m # ms) = Some (?m # sent)" using j(1) sent(1) by (simp add: now)
  moreover have "spaced (unat pacing) (unat pacing + 2 * gap) (?m # sent)"
    using sent(3,4) next_time stamp by (intro spaced_Cons) auto
  moreover have "map unstamped (?m # sent) = map unstamped (m # ms)" using sent(2) by (simp add: unstamped_def [of m] unstamped_def [of ?m])
  ultimately show ?case using stamp by (metis list.sel(1))
qed

section \<open>The book after the run\<close>

text \<open>Bids of 10 at price 100, never a sell: the book takes the first \<open>kBookOrders\<close> of them.\<close>

definition workload_book :: "nat \<Rightarrow> nat \<Rightarrow> abook \<Rightarrow> bool" where
  "workload_book cap n a \<longleftrightarrow> awf a \<and> a_cap a = cap \<and> a_free a = cap - n \<and>
     a_q a True 100 = map (\<lambda>i. (i, 10)) [0..<min n cap] \<and>
     (\<forall>s p. (s, p) \<noteq> (True, 100) \<longrightarrow> a_q a s p = [])"

lemma workload_book_start: "workload_book cap 0 (spec_init cap)"
  using spec_init_awf by (simp add: workload_book_def spec_init_def)

lemma workload_book_step:
  assumes "workload_book cap n a"
  shows "submit_ok a n 100 10 True" and "workload_book cap (Suc n) (spec_submit a n 100 10 True)"
proof -
  from assms have wf: "awf a" and cap: "a_cap a = cap" and free: "a_free a = cap - n"
    and here: "a_q a True 100 = map (\<lambda>i. (i, 10)) [0..<min n cap]"
    and empty: "\<And>s p. (s, p) \<noteq> (True, 100) \<Longrightarrow> a_q a s p = []"
    by (auto simp: workload_book_def)
  have m: "spec_match a 100 10 True = (a, 10)"
    by (rule spec_match_none [OF wf]) (simp add: empty)
  have loc: "a_loc a n = None"
    unfolding awf_loc_None [OF wf]
  proof (intro allI)
    fix s p show "n \<notin> fst ` set (a_q a s p)"
      using here empty [of s p] by (cases "(s, p) = (True, 100)") auto
  qed
  then have add: "can_add a n" using cap free by (auto simp: can_add_def)
  then show "submit_ok a n 100 10 True" by (simp add: submit_ok_def m)
  have sub: "spec_submit a n 100 10 True = spec_add a n 100 10 True" by (simp add: spec_submit_def m)
  have "awf (spec_add a n 100 10 True)" by (rule can_add_awf [OF wf add])
  moreover have "a_q (spec_add a n 100 10 True) True 100 = map (\<lambda>i. (i, 10)) [0..<min (Suc n) cap]"
    using here free by (auto simp: spec_add_def MAX_PRICES_def min_def)
  moreover have "a_q (spec_add a n 100 10 True) s p = []" if "(s, p) \<noteq> (True, 100)" for s p
    using empty [OF that] that by (auto simp: spec_add_def upd2_apply)
  ultimately show "workload_book cap (Suc n) (spec_submit a n 100 10 True)"
    unfolding sub workload_book_def using cap free by (simp add: spec_add_def MAX_PRICES_def)
qed

lemma workload_commands:
  assumes "n \<le> 18446744073709551615"
  shows "commands_ok submit_ok (map (\<lambda>i. command_of (workload_message i)) [0..<n]) (spec_init cap) \<and>
    workload_book cap n (spec_commands (map (\<lambda>i. command_of (workload_message i)) [0..<n]) (spec_init cap))"
  using assms
proof (induction n)
  case 0
  then show ?case by (simp add: workload_book_start)
next
  case (Suc n)
  have c: "command_of (workload_message n) = Submit (of_nat n) 100 10 True"
    by (simp add: command_of_def workload_message_def zero_message_def)
  have "unat (of_nat n :: u64) = n" using Suc.prems by simp
  then show ?case
    using Suc workload_book_step [of cap n "spec_commands (map (\<lambda>i. command_of (workload_message i)) [0..<n]) (spec_init cap)"]
    by (simp add: c spec_commands_append commands_ok_append)
qed

text \<open>Stamping does not change what a message asks for.\<close>

lemma command_of_unstamped: "command_of (unstamped m) = command_of m" "m_type (unstamped m) = m_type m"
  by (simp_all add: unstamped_def command_of_def)

lemma unstamped_commands:
  assumes "map unstamped sent = map unstamped msgs"
  shows "map command_of sent = map command_of msgs" and "map m_type sent = map m_type msgs"
proof -
  have "map command_of (map unstamped sent) = map command_of (map unstamped msgs)"
    "map m_type (map unstamped sent) = map m_type (map unstamped msgs)" using assms by simp_all
  then show "map command_of sent = map command_of msgs" "map m_type sent = map m_type msgs"
    by (simp_all add: comp_def command_of_unstamped)
qed

lemma workload_types: "m \<in> set (build_workload args) \<Longrightarrow> m_type m = SUBMIT"
  by (auto simp: build_workload_def workload_message_def)

text \<open>Whatever part of the stamped workload and of the shutdown message the engine has got.\<close>

theorem server_engine_returns:
  assumes shaped: "array_shaped (e_book e)" and sent: "map unstamped sent = map unstamped (build_workload args)"
    and got: "prefix msgs (sent @ [shutdown_message])"
  shows "returns (engine_run clock kBookOrders msgs e) (\<lambda>(e', stopped).
    (\<exists>a. bitset_refines (e_book e') a \<and> workload_book kBookOrders (length (work msgs)) a) \<and>
    latencies e' = latencies e @ e2e_ns clock 0 (work msgs) \<and>
    queue_latencies e' = queue_latencies e @ queue_ns clock 0 (work msgs) \<and>
    (stopped \<longleftrightarrow> msgs = sent @ [shutdown_message]))"
proof -
  let ?n = "length (work msgs)"
  have types: "m_type m = SUBMIT" if "m \<in> set sent" for m
    using arg_cong [OF unstamped_commands(2) [OF sent], of set] that workload_types [of _ args]
    by (metis (no_types, lifting) image_iff image_set)
  have sd: "m_type shutdown_message = SHUTDOWN" by (simp add: shutdown_message_def)
  have cases: "msgs = sent @ [shutdown_message] \<or> prefix msgs sent" using got by simp
  have w: "work (sent @ [shutdown_message]) = sent"
    using types sd by (simp add: work_def)
  have wp: "work msgs = msgs" if "prefix msgs sent"
    unfolding work_def using types set_mono_prefix [OF that] by (subst takeWhile_eq_all_conv) auto
  from cases w wp have "prefix (work msgs) sent" by auto
  then obtain rest where "sent = work msgs @ rest" by (auto simp: prefix_def)
  moreover have "length sent = unat (workload args)"
    using arg_cong [OF sent, of length] by (simp add: build_workload_def)
  ultimately have n: "?n \<le> unat (workload args)" by simp
  have "map command_of (work msgs) = take ?n (map command_of sent)" using \<open>sent = work msgs @ rest\<close> by simp
  also have "\<dots> = take ?n (map command_of (build_workload args))" by (simp only: unstamped_commands(1) [OF sent])
  also have "\<dots> = map (\<lambda>i. command_of (workload_message i)) [0..<?n]"
    using n by (simp add: build_workload_def take_map comp_def)
  finally have cmds: "map command_of (work msgs) = map (\<lambda>i. command_of (workload_message i)) [0..<?n]" .
  have "?n \<le> 18446744073709551615" using n unat_u64_less [of "workload args"] by linarith
  note spec = workload_commands [OF this, of kBookOrders, folded cmds]
  have stop: "(\<exists>m \<in> set msgs. m_type m = SHUTDOWN) \<longleftrightarrow> msgs = sent @ [shutdown_message]"
  proof
    assume "\<exists>m \<in> set msgs. m_type m = SHUTDOWN"
    with cases types show "msgs = sent @ [shutdown_message]"
      using set_mono_prefix by fastforce
  qed (use sd in auto)
  have "returns (engine_run clock kBookOrders msgs e) (\<lambda>(e', stopped).
    bitset_refines (e_book e') (spec_commands (map command_of (work msgs)) (spec_init kBookOrders)) \<and>
    latencies e' = latencies e @ e2e_ns clock 0 (work msgs) \<and>
    queue_latencies e' = queue_latencies e @ queue_ns clock 0 (work msgs) \<and>
    (stopped \<longleftrightarrow> (\<exists>m \<in> set msgs. m_type m = SHUTDOWN)) \<and> ready e')"
    by (rule engine_run_refines [OF shaped]) (use spec in \<open>simp_all add: kBookOrders_def\<close>)
  then show ?thesis
    by (rule returns_mono) (use spec stop in auto)
qed

section \<open>A whole run\<close>

text \<open>
  After the producer is joined and the engine stopped: the dump, if a path was given and can be
  written, then the report.  The result is what \<open>run\<close> returns, the lines dumped and the
  numbers printed.  \<open>writable\<close> says which files can be written.
\<close>

definition finish_run :: "(string \<Rightarrow> bool) \<Rightarrow> Args \<Rightarrow> engine \<Rightarrow> (bool \<times> string list \<times> u64 list) exec" where
  "finish_run writable args e =
     (if dump_path args \<noteq> [] then
        if \<not> writable (dump_path args) then ret (False, [], [])
        else ebind (dump_latencies e) (\<lambda>rows. ebind (report e) (\<lambda>r. ret (True, rows, snd r)))
      else ebind (report e) (\<lambda>r. ret (True, [], snd r)))"

definition server_run :: "(string \<Rightarrow> bool) \<Rightarrow> (nat \<Rightarrow> timespec) \<Rightarrow> Args \<Rightarrow> OrderMessage list \<Rightarrow> bitset_book \<Rightarrow>
    (bool \<times> string list \<times> u64 list) exec" where
  "server_run writable clock args msgs b =
     ebind (engine_run clock kBookOrders msgs (new_engine b)) (\<lambda>r. finish_run writable args (fst r))"

datatype process_end = Exited nat | Uncaught std_exception | Undefined fault

definition server_main :: "(string \<Rightarrow> bool) \<Rightarrow> (nat \<Rightarrow> timespec) \<Rightarrow> string list \<Rightarrow> (queue_kind \<Rightarrow> OrderMessage list) \<Rightarrow>
    bitset_book \<Rightarrow> process_end option" where
  "server_main writable clock argv delivered b = (case parse_args argv of
     Inl Help \<Rightarrow> Some (Exited 0)
   | Inl Rejected \<Rightarrow> Some (Exited 1)
   | Inl (Threw ex) \<Rightarrow> Some (Uncaught ex)
   | Inr args \<Rightarrow> map_option (\<lambda>r. case r of Inl f \<Rightarrow> Undefined f | Inr v \<Rightarrow> Exited (if fst v then 0 else 1))
       (server_run writable clock args (delivered (select_queue args)) b))"

text \<open>A run whose messages have all come through.\<close>

lemma finish_run_returns:
  assumes "latencies e \<noteq> []" and "length (queue_latencies e) = length (latencies e)"
    and "dump_path args = [] \<or> writable (dump_path args)"
  shows "returns (finish_run writable args e) (\<lambda>(ok, rows, ps). ok \<and>
    rows = (if dump_path args = [] then [] else dump_text (latencies e) (queue_latencies e)) \<and>
    quantiles_of (latencies e) (take 3 ps) \<and> quantiles_of (queue_latencies e) (drop 3 ps))"
proof -
  have "queue_latencies e \<noteq> []" using assms(1,2) by auto
  from report_returns [OF assms(1) this] obtain e' ps where
    "report e = ret (e', ps)" "quantiles_of (latencies e) (take 3 ps)" "quantiles_of (queue_latencies e) (drop 3 ps)"
    by (auto simp: returns_def)
  then show ?thesis using assms by (auto simp: finish_run_def dump_latencies_returns)
qed

lemma server_run_engine:
  assumes "array_shaped b" and sent: "map unstamped sent = map unstamped (build_workload args)"
  obtains e where "server_run writable clock args (sent @ [shutdown_message]) b = finish_run writable args e"
    and "latencies e = e2e_ns clock 0 sent" and "queue_latencies e = queue_ns clock 0 sent"
    and "length sent = unat (workload args)"
proof -
  have len: "length sent = unat (workload args)"
    using arg_cong [OF sent, of length] by (simp add: build_workload_def)
  have "\<forall>m \<in> set sent. m_type m = SUBMIT"
    using unstamped_commands(2) [OF sent] workload_types [of _ args]
    by (metis (no_types, lifting) image_iff image_set)
  then have w: "work (sent @ [shutdown_message]) = sent" by (simp add: work_def shutdown_message_def)
  have "array_shaped (e_book (new_engine b))" using assms(1) by (simp add: new_engine_def)
  from server_engine_returns [OF this sent prefix_order.refl, of clock] obtain e st where
    "engine_run clock kBookOrders (sent @ [shutdown_message]) (new_engine b) = ret (e, st)"
    "latencies e = e2e_ns clock 0 sent" "queue_latencies e = queue_ns clock 0 sent"
    by (auto simp: returns_def w new_engine_def)
  with that len show thesis by (simp add: server_run_def)
qed

theorem server_run_returns:
  assumes "array_shaped b" and sent: "map unstamped sent = map unstamped (build_workload args)" and "workload args \<noteq> 0"
    and "dump_path args = [] \<or> writable (dump_path args)"
  shows "returns (server_run writable clock args (sent @ [shutdown_message]) b) (\<lambda>(ok, rows, ps). ok \<and>
    rows = (if dump_path args = [] then [] else dump_text (e2e_ns clock 0 sent) (queue_ns clock 0 sent)) \<and>
    quantiles_of (e2e_ns clock 0 sent) (take 3 ps) \<and> quantiles_of (queue_ns clock 0 sent) (drop 3 ps))"
proof (rule server_run_engine [where writable = writable and clock = clock, OF assms(1,2)])
  fix e assume run: "server_run writable clock args (sent @ [shutdown_message]) b = finish_run writable args e"
    and lat: "latencies e = e2e_ns clock 0 sent" "queue_latencies e = queue_ns clock 0 sent"
    and len: "length sent = unat (workload args)"
  have "0 < unat (workload args)" using assms(3) by (simp add: unat_gt_0)
  then have ne: "latencies e \<noteq> []" using len by (auto simp: lat simp flip: length_greater_0_conv)
  have "length (queue_latencies e) = length (latencies e)" by (simp add: lat)
  from finish_run_returns [where writable = writable, OF ne this assms(4)] show ?thesis
    unfolding lat run .
qed

text \<open>
  A dump that cannot be opened makes \<open>run\<close> return false without a report; with \<open>--workload=0\<close> there is
  nothing to report on.
\<close>

lemma server_run_no_dump:
  assumes "array_shaped b" and "map unstamped sent = map unstamped (build_workload args)"
    and "dump_path args \<noteq> []" and "\<not> writable (dump_path args)"
  shows "server_run writable clock args (sent @ [shutdown_message]) b = ret (False, [], [])"
  by (rule server_run_engine [where writable = writable and clock = clock, OF assms(1,2)]) (use assms(3,4) in \<open>simp add: finish_run_def\<close>)

lemma server_run_no_workload:
  assumes "array_shaped b" and "map unstamped sent = map unstamped (build_workload args)" and "workload args = 0"
    and "dump_path args = [] \<or> writable (dump_path args)"
  shows "server_run writable clock args (sent @ [shutdown_message]) b = stop OutOfBounds"
proof (rule server_run_engine [where writable = writable and clock = clock, OF assms(1,2)])
  fix e assume "server_run writable clock args (sent @ [shutdown_message]) b = finish_run writable args e"
    and "latencies e = e2e_ns clock 0 sent" "queue_latencies e = queue_ns clock 0 sent" "length sent = unat (workload args)"
  then show ?thesis
    using assms(3,4) by (auto simp: finish_run_def report_empty dump_latencies_returns e2e_ns_def queue_ns_def)
qed

end
