(* ===== verification/Bench_Clock.thy ===== *)
theory Bench_Clock
  imports Server
begin

text \<open>
  Time in the benchmarks: the percentiles of \<open>src/benchmark_clock.cpp\<close> and the calibration loop of
  \<open>src/bench_common.h\<close>.  The readings of the clock and of the time stamp counter are parameters,
  given by the number of the call.
\<close>

section \<open>The clock benchmark\<close>

definition kSamples :: nat where "kSamples = 1000000"

text \<open>\<open>to_ns\<close>, in \<open>uint64_t\<close>.\<close>

definition to_ns :: "timespec \<Rightarrow> u64" where
  "to_ns ts = word_of_int (tv_sec ts) * 1000000000 + word_of_int (tv_nsec ts)"

text \<open>A thousand calls to warm up, then two calls per sample.\<close>

definition clock_deltas :: "(nat \<Rightarrow> timespec) \<Rightarrow> u64 list" where
  "clock_deltas clock = map (\<lambda>i. to_ns (clock (1000 + 2 * i + 1)) - to_ns (clock (1000 + 2 * i))) [0..<kSamples]"

text \<open>The double nearest to 0.90; the others are the engine's.\<close>

definition P90 :: nat where "P90 = 8106479329266893"

definition pct :: "u64 list \<Rightarrow> nat \<Rightarrow> u64 exec" where
  "pct deltas p = arr_get deltas (mul_trunc (kSamples - 1) p)"

text \<open>The five numbers printed; \<open>back\<close> of the sorted samples is the largest.\<close>

definition clock_results :: "u64 list \<Rightarrow> u64 list exec" where
  "clock_results deltas =
     ebind (pct deltas P50) (\<lambda>p50. ebind (pct deltas P90) (\<lambda>p90.
     ebind (pct deltas P99) (\<lambda>p99. ebind (pct deltas P999) (\<lambda>p999.
     ret [p50, p90, p99, p999, last deltas]))))"

definition clock_main :: "(nat \<Rightarrow> timespec) \<Rightarrow> u64 list exec" where
  "clock_main clock = clock_results (sort (clock_deltas clock))"

lemma clock_indices:
  "mul_trunc (kSamples - 1) P50 = 499999" "mul_trunc (kSamples - 1) P50 \<le> mul_trunc (kSamples - 1) P90"
  "mul_trunc (kSamples - 1) P90 \<le> mul_trunc (kSamples - 1) P99" "mul_trunc (kSamples - 1) P99 \<le> mul_trunc (kSamples - 1) P999"
  "mul_trunc (kSamples - 1) P999 < kSamples - 1"
proof -
  have n: "kSamples - 1 = 999999" by (simp add: kSamples_def)
  show "mul_trunc (kSamples - 1) P50 = 499999" unfolding n by (simp add: mul_trunc_half)
  show "mul_trunc (kSamples - 1) P50 \<le> mul_trunc (kSamples - 1) P90" "mul_trunc (kSamples - 1) P90 \<le> mul_trunc (kSamples - 1) P99"
    "mul_trunc (kSamples - 1) P99 \<le> mul_trunc (kSamples - 1) P999"
    by (rule mul_trunc_mono, simp add: P50_def P90_def P99_def P999_def)+
  show "mul_trunc (kSamples - 1) P999 < kSamples - 1"
    unfolding n by (rule mul_trunc_less) (simp_all add: P999_def)
qed

lemma clock_results_return:
  assumes "length xs = kSamples"
  shows "returns (clock_results (sort xs)) (\<lambda>rs. length rs = 5 \<and> sorted rs \<and> set rs \<subseteq> set xs \<and>
    rs ! 0 = sort xs ! 499999 \<and> (\<forall>x \<in> set xs. x \<le> rs ! 4))"
proof -
  note ix = clock_indices
  let ?s = "sort xs" and ?i = "mul_trunc (kSamples - 1)"
  have len: "length ?s = kSamples" "?s \<noteq> []"
    using assms by (simp, metis kSamples_def length_sort list.size(3) zero_neq_numeral)
  then have l: "last ?s = ?s ! (kSamples - 1)" by (simp add: last_conv_nth)
  have less: "kSamples - 1 < kSamples" by (simp add: kSamples_def)
  then have less: "?i P50 < kSamples" "?i P90 < kSamples" "?i P99 < kSamples" "?i P999 < kSamples" "kSamples - 1 < kSamples"
    using ix by linarith+
  have mono: "?s ! i \<le> ?s ! j" if "i \<le> j" "j < kSamples" for i j
    using that len by (intro sorted_nth_mono) simp_all
  have mem: "?s ! i \<in> set xs" if "i < kSamples" for i using nth_mem [of i ?s] that len by simp
  have run: "clock_results ?s = ret [?s ! ?i P50, ?s ! ?i P90, ?s ! ?i P99, ?s ! ?i P999, ?s ! (kSamples - 1)]"
    using less len by (simp add: clock_results_def pct_def l)
  have ord: "?s ! ?i P50 \<le> ?s ! ?i P90" "?s ! ?i P90 \<le> ?s ! ?i P99" "?s ! ?i P99 \<le> ?s ! ?i P999"
    "?s ! ?i P999 \<le> ?s ! (kSamples - 1)"
    using ix less by (auto intro: mono)
  have "sorted [?s ! ?i P50, ?s ! ?i P90, ?s ! ?i P99, ?s ! ?i P999, ?s ! (kSamples - 1)]"
    using ord by auto
  moreover have "x \<le> ?s ! (kSamples - 1)" if "x \<in> set xs" for x
  proof -
    from that obtain i where "i < kSamples" "x = ?s ! i" using len by (metis in_set_conv_nth set_sort)
    then show ?thesis using mono [of i "kSamples - 1"] by simp
  qed
  ultimately show ?thesis
    unfolding run using less mem ix(1) by simp
qed

section \<open>Calibrating the time stamp counter\<close>

text \<open>
  \<open>calibrate_tsc_hz\<close>: the cycles and the nanoseconds whose quotient, scaled, it returns.  The first
  reading of the clock is number 0; the loop reads it until the target has been reached.
\<close>

definition calibrate_tsc :: "(nat \<Rightarrow> timespec) \<Rightarrow> (nat \<Rightarrow> u64) \<Rightarrow> u64 \<Rightarrow> (u64 \<times> u64) option" where
  "calibrate_tsc clock tsc calibration_ns =
     (let ts1 = clock 0; tsc1 = tsc 0; target = to_ns ts1 + calibration_ns in
      case spin_until clock 1 target of None \<Rightarrow> None
      | Some k \<Rightarrow>
          let ts2 = clock (k - 1); tsc2 = tsc 1;
              actual_ns = word_of_int (tv_sec ts2 - tv_sec ts1) * 1000000000 + word_of_int (tv_nsec ts2 - tv_nsec ts1) in
          Some (tsc2 - tsc1, actual_ns))"

lemma to_ns_now: "to_ns ts = now_ns ts"
  by (simp add: to_ns_def now_ns_def)

lemma u64_diff_ge: "s + d \<le> t \<Longrightarrow> s \<le> s + d \<Longrightarrow> d \<le> t - s" for s d t :: u64
  by (metis add_diff_cancel_left' le_minus word_le_minus_mono_left)

text \<open>
  The loop ends when the clock comes to show a time late enough, and the time measured is then
  at least the calibration time, so the division is never by zero.
\<close>

lemma calibrate_tsc_returns:
  assumes "\<exists>j > 0. to_ns (clock 0) + calibration_ns \<le> to_ns (clock j)"
    and "unat (to_ns (clock 0)) + unat calibration_ns < 18446744073709551616"
  shows "\<exists>cycles ns. calibrate_tsc clock tsc calibration_ns = Some (cycles, ns) \<and> calibration_ns \<le> ns"
proof -
  from assms(1) obtain j where "1 \<le> j" "to_ns (clock 0) + calibration_ns \<le> now_ns (clock j)"
    by (auto simp: to_ns_now Suc_le_eq)
  then obtain k where k: "spin_until clock 1 (to_ns (clock 0) + calibration_ns) = Some k" using spin_until_stops by blast
  then have "to_ns (clock 0) + calibration_ns \<le> to_ns (clock (k - 1))"
    using spin_until_reading by (auto simp: to_ns_now)
  moreover have "to_ns (clock 0) \<le> to_ns (clock 0) + calibration_ns"
    using assms(2) by (simp add: no_olen_add_nat)
  ultimately have "calibration_ns \<le> to_ns (clock (k - 1)) - to_ns (clock 0)" by (intro u64_diff_ge)
  also have "\<dots> = word_of_int (tv_sec (clock (k - 1)) - tv_sec (clock 0)) * 1000000000 +
      word_of_int (tv_nsec (clock (k - 1)) - tv_nsec (clock 0))" (is "_ = ?ns")
    by (simp add: to_ns_def algebra_simps)
  finally have "calibration_ns \<le> ?ns" .
  moreover have "calibrate_tsc clock tsc calibration_ns = Some (tsc 1 - tsc 0, ?ns)"
    unfolding calibrate_tsc_def Let_def k by simp
  ultimately show ?thesis by blast
qed

end
