(* ===== verification/Bench_Common.thy ===== *)
theory Bench_Common
  imports Prelude "HOL-Library.Sublist"
begin

unbundle bit_operations_syntax

text \<open>
  What \<open>src/bench_common.h\<close> reads from the system for its banner, and the calls it makes for the
  hardware counters.  The files are a map from paths to their lines, \<open>None\<close> for one that cannot
  be opened; the file descriptors and the values read are parameters.
\<close>

section \<open>Files\<close>

type_synonym files = "string \<rightharpoonup> string list"

definition read_first_line :: "files \<Rightarrow> string \<Rightarrow> string" where
  "read_first_line fs path = (case fs path of Some (line # _) \<Rightarrow> line | _ \<Rightarrow> [])"

definition is_blank :: "char \<Rightarrow> bool" where
  "is_blank c \<longleftrightarrow> c = CHR '' '' \<or> c = CHR 0x09"

text \<open>\<open>substr(find(':') + 1)\<close> from its first non-blank on, or as it is when it has none.\<close>

definition field_value :: "string \<Rightarrow> string option" where
  "field_value line = (case dropWhile (\<lambda>c. c \<noteq> CHR '':'') line of
     [] \<Rightarrow> None
   | _ # v \<Rightarrow> Some (let w = dropWhile is_blank v in if w \<noteq> [] then w else v))"

fun scan_fields :: "string \<Rightarrow> string list \<Rightarrow> string" where
  "scan_fields field [] = []"
| "scan_fields field (line # ls) =
     (if prefix field line then (case field_value line of Some v \<Rightarrow> v | None \<Rightarrow> scan_fields field ls)
      else scan_fields field ls)"

definition read_proc_cpuinfo_field :: "files \<Rightarrow> string \<Rightarrow> string" where
  "read_proc_cpuinfo_field fs field = (case fs ''/proc/cpuinfo'' of None \<Rightarrow> [] | Some ls \<Rightarrow> scan_fields field ls)"

definition read_isolated_cores :: "files \<Rightarrow> string" where
  "read_isolated_cores fs = (let s = read_first_line fs ''/sys/devices/system/cpu/isolated'' in
     if s = [] then ''(none)'' else s)"

lemma field_value_None: "field_value line = None \<longleftrightarrow> CHR '':'' \<notin> set line"
proof -
  have "field_value line = None \<longleftrightarrow> dropWhile (\<lambda>c. c \<noteq> CHR '':'') line = []"
    unfolding field_value_def by (cases "dropWhile (\<lambda>c. c \<noteq> CHR '':'') line") (simp_all del: dropWhile_eq_Nil_conv)
  also have "\<dots> \<longleftrightarrow> CHR '':'' \<notin> set line" by (auto simp: dropWhile_eq_Nil_conv)
  finally show ?thesis .
qed

lemma field_value_at:
  assumes "CHR '':'' \<notin> set name" and "\<forall>c \<in> set blanks. is_blank c" and "v \<noteq> []" and "\<not> is_blank (hd v)"
  shows "field_value (name @ CHR '':'' # blanks @ v) = Some v"
proof -
  have "dropWhile (\<lambda>c. c \<noteq> CHR '':'') (name @ CHR '':'' # blanks @ v) = CHR '':'' # blanks @ v"
    using assms(1) by (subst dropWhile_append2) auto
  moreover have "dropWhile is_blank (blanks @ v) = v"
    using assms(2-4) by (subst dropWhile_append2) (auto simp: dropWhile_eq_self_iff)
  ultimately show ?thesis using assms(3) by (simp only: field_value_def list.case Let_def if_True not_False_eq_True)
qed

definition has_field :: "string \<Rightarrow> string \<Rightarrow> bool" where
  "has_field field line \<longleftrightarrow> prefix field line \<and> CHR '':'' \<in> set line"

lemma scan_fields_skip: "\<forall>l \<in> set before. \<not> has_field field l \<Longrightarrow> scan_fields field (before @ ls) = scan_fields field ls"
  by (induction before) (auto simp: has_field_def field_value_None [symmetric] split: option.splits)

lemma read_field_found:
  assumes "fs ''/proc/cpuinfo'' = Some (before @ (field @ gap @ CHR '':'' # blanks @ v) # after)"
    and "\<forall>l \<in> set before. \<not> has_field field l" and "CHR '':'' \<notin> set (field @ gap)"
    and "\<forall>c \<in> set blanks. is_blank c" and "v \<noteq> []" and "\<not> is_blank (hd v)"
  shows "read_proc_cpuinfo_field fs field = v"
  using field_value_at [OF assms(3-6)] assms(1)
  by (simp add: read_proc_cpuinfo_field_def scan_fields_skip [OF assms(2)])

lemma read_field_missing:
  assumes "fs ''/proc/cpuinfo'' = Some ls" and "\<forall>l \<in> set ls. \<not> has_field field l"
  shows "read_proc_cpuinfo_field fs field = []"
  using scan_fields_skip [OF assms(2), of "[]"] assms(1) by (simp add: read_proc_cpuinfo_field_def)

section \<open>Hardware counters\<close>

text \<open>
  What the constructor of \<open>PerfCounter\<close> asks the kernel for: the fields it sets, the others being 0.
  The kernel's answer, a file descriptor or \<open>-1\<close>, is a parameter.
\<close>

record perf_attr =
  pe_type :: u32
  pe_config :: u64
  pe_disabled :: bool
  pe_exclude_kernel :: bool
  pe_exclude_hv :: bool

definition perf_counter :: "(perf_attr \<Rightarrow> int) \<Rightarrow> u32 \<Rightarrow> u64 \<Rightarrow> int" where
  "perf_counter perf_event_open type config = perf_event_open \<lparr>pe_type = type, pe_config = config,
     pe_disabled = True, pe_exclude_kernel = True, pe_exclude_hv = True\<rparr>"

text \<open>A counter is its file descriptor.\<close>

datatype perf_call = IocReset int | IocEnable int | IocDisable int | CloseFd int

definition pc_available :: "int \<Rightarrow> bool" where
  "pc_available fd \<longleftrightarrow> fd \<noteq> -1"

definition pc_start :: "int \<Rightarrow> perf_call list" where
  "pc_start fd = (if fd = -1 then [] else [IocReset fd, IocEnable fd])"

definition pc_stop :: "int \<Rightarrow> perf_call list" where
  "pc_stop fd = (if fd \<noteq> -1 then [IocDisable fd] else [])"

definition pc_close :: "int \<Rightarrow> perf_call list" where
  "pc_close fd = (if fd \<noteq> -1 then [CloseFd fd] else [])"

text \<open>The variable read into starts as 0 and keeps it when \<open>read\<close> fails.\<close>

definition pc_read_value :: "(int \<Rightarrow> u64 option) \<Rightarrow> int \<Rightarrow> u64" where
  "pc_read_value rd fd = (if fd = -1 then 0 else case rd fd of None \<Rightarrow> 0 | Some v \<Rightarrow> v)"

record perf_counters =
  instructions :: int
  cycles :: int
  branches :: int
  branch_misses :: int
  l1d_read_misses :: int
  llc_refs :: int
  llc_misses :: int

text \<open>The numbers are those of \<open>linux/perf_event.h\<close>.\<close>

definition perf_counters_new :: "(perf_attr \<Rightarrow> int) \<Rightarrow> perf_counters" where
  "perf_counters_new perf_event_open =
     (let hardware = perf_counter perf_event_open 0; hw_cache = perf_counter perf_event_open 3 in
      \<lparr>instructions = hardware 1, cycles = hardware 0, branches = hardware 4, branch_misses = hardware 5,
       l1d_read_misses = hw_cache (0 OR push_bit 8 0 OR push_bit 16 1),
       llc_refs = hardware 2, llc_misses = hardware 3\<rparr>)"

definition pcs_members :: "perf_counters \<Rightarrow> int list" where
  "pcs_members pcs = [instructions pcs, cycles pcs, branches pcs, branch_misses pcs, l1d_read_misses pcs,
     llc_refs pcs, llc_misses pcs]"

definition pcs_start :: "perf_counters \<Rightarrow> perf_call list" where
  "pcs_start pcs = concat (map pc_start (pcs_members pcs))"

definition pcs_stop :: "perf_counters \<Rightarrow> perf_call list" where
  "pcs_stop pcs = concat (map pc_stop (pcs_members pcs))"

text \<open>Members are destroyed in reverse.\<close>

definition pcs_destroy :: "perf_counters \<Rightarrow> perf_call list" where
  "pcs_destroy pcs = concat (map pc_close (rev (pcs_members pcs)))"

fun fd_of :: "perf_call \<Rightarrow> int" where
  "fd_of (IocReset fd) = fd" | "fd_of (IocEnable fd) = fd" | "fd_of (IocDisable fd) = fd" | "fd_of (CloseFd fd) = fd"

lemma perf_calls_on_open_fds:
  "c \<in> set (pcs_start pcs @ pcs_stop pcs @ pcs_destroy pcs) \<Longrightarrow> fd_of c \<in> set (pcs_members pcs) \<and> pc_available (fd_of c)"
  by (auto simp: pcs_start_def pcs_stop_def pcs_destroy_def pc_start_def pc_stop_def pc_close_def pc_available_def
      split: if_splits)

text \<open>What has been opened is closed.\<close>

lemma perf_fds_closed: "pcs_destroy pcs = map CloseFd (filter pc_available (rev (pcs_members pcs)))"
proof -
  have "concat (map pc_close xs) = map CloseFd (filter pc_available xs)" for xs
    by (induction xs) (auto simp: pc_close_def pc_available_def)
  then show ?thesis by (simp add: pcs_destroy_def)
qed

text \<open>Where the kernel has no counters, nothing is called.\<close>

lemma perf_unavailable:
  assumes "\<And>a. open_event a = -1"
  shows "pcs_start (perf_counters_new open_event) = []" and "pcs_stop (perf_counters_new open_event) = []"
    and "pcs_destroy (perf_counters_new open_event) = []"
  by (simp_all add: perf_counters_new_def perf_counter_def Let_def assms pcs_members_def pcs_start_def pcs_stop_def
      pcs_destroy_def pc_start_def pc_stop_def pc_close_def)

end
