(* ===== verification/Out_Stream.thy ===== *)
theory Out_Stream
  imports Doubles
begin

text \<open>
  What the program uses of \<open>std::ostream\<close>: the text written, and the formatting state that
  manipulators set.  \<open>setw\<close> holds for the next item only; \<open>left\<close> and \<open>setprecision\<close> stay set, across
  functions.  \<open>std::fixed\<close> precedes every \<open>double\<close> the program writes, so doubles are always written
  in fixed notation.
\<close>

record ostream =
  os_text :: string
  os_left :: bool
  os_precision :: nat
  os_width :: nat

definition new_stream :: ostream where
  "new_stream = \<lparr>os_text = [], os_left = False, os_precision = 6, os_width = 0\<rparr>"

text \<open>One operand of \<open><<\<close>.\<close>

datatype out = Str string | Num nat | Dbl double | Endl | SetW nat | SetPrecision nat | SetLeft

definition padded :: "ostream \<Rightarrow> string \<Rightarrow> string" where
  "padded os s = (let fill = replicate (os_width os - length s) CHR '' '' in
     if os_left os then s @ fill else fill @ s)"

definition put :: "string \<Rightarrow> ostream \<Rightarrow> ostream" where
  "put s os = os\<lparr>os_text := os_text os @ padded os s, os_width := 0\<rparr>"

fun out_step :: "out \<Rightarrow> ostream \<Rightarrow> ostream" where
  "out_step (Str s) os = put s os"
| "out_step (Num n) os = put (decimal n) os"
| "out_step (Dbl d) os = put (double_text (os_precision os) d) os"
| "out_step Endl os = put [CHR 0x0A] os"
| "out_step (SetW w) os = os\<lparr>os_width := w\<rparr>"
| "out_step (SetPrecision p) os = os\<lparr>os_precision := p\<rparr>"
| "out_step SetLeft os = os\<lparr>os_left := True\<rparr>"

fun write_out :: "out list \<Rightarrow> ostream \<Rightarrow> ostream" where
  "write_out [] os = os"
| "write_out (x # xs) os = write_out xs (out_step x os)"

text \<open>Between statements no width is pending.\<close>

definition settled :: "ostream \<Rightarrow> bool" where
  "settled os \<longleftrightarrow> os_width os = 0"

lemma padded_0 [simp]: "os_width os = 0 \<Longrightarrow> padded os s = s"
  by (simp add: padded_def)

lemma padded_left: "os_left os \<Longrightarrow> padded os s = s @ replicate (os_width os - length s) CHR '' ''"
  by (simp add: padded_def)

lemma put_simps [simp]:
  "os_text (put s os) = os_text os @ padded os s" "os_width (put s os) = 0" "os_left (put s os) = os_left os"
  "os_precision (put s os) = os_precision os"
  by (simp_all add: put_def)

lemma write_append: "write_out (xs @ ys) os = write_out ys (write_out xs os)"
  by (induction xs os rule: write_out.induct) simp_all

text \<open>Writing only adds to the text.\<close>

lemma prefix_write: "\<exists>s. os_text (write_out xs os) = os_text os @ s"
proof (induction xs os rule: write_out.induct)
  case (2 x xs os)
  have "\<exists>s. os_text (out_step x os) = os_text os @ s" by (cases x) simp_all
  with 2 show ?case by fastforce
qed simp

lemma write_left: "os_left (write_out xs os) \<longleftrightarrow> os_left os \<or> SetLeft \<in> set xs"
proof (induction xs os rule: write_out.induct)
  case (2 x xs os)
  then show ?case by (cases x) auto
qed simp

lemma write_settled: "last xs = Endl \<Longrightarrow> xs \<noteq> [] \<Longrightarrow> settled (write_out xs os)"
proof (induction xs os rule: write_out.induct)
  case (2 x xs os)
  then show ?case by (cases "xs = []") (simp_all add: settled_def)
qed simp

definition spaces :: "nat \<Rightarrow> string" where
  "spaces n = replicate n CHR '' ''"

end
