(* ===== verification/Bench_Report.thy ===== *)
theory Bench_Report
  imports Bench_Clock Bench_Common Out_Stream
begin

text \<open>
  What the binaries print (\<open>src/bench_common.h\<close>): the banner with the calibrated frequency, sections
  and settings, and the rates computed from a timer and from the hardware counters.  Timer
  readings are nanoseconds of \<open>steady_clock\<close>, which never goes back.
\<close>

section \<open>Timer and calibration\<close>

record Timer =
  started_at :: int

definition timer_reset :: "int \<Rightarrow> Timer" where
  "timer_reset now = \<lparr>started_at = now\<rparr>"

definition elapsed_ms :: "Timer \<Rightarrow> int \<Rightarrow> double" where
  "elapsed_ms t now = d_div (to_double (nat (now - started_at t))) (Fin 1000000)"

definition elapsed_ns :: "Timer \<Rightarrow> int \<Rightarrow> double" where
  "elapsed_ns t now = to_double (nat (now - started_at t))"

definition calibrate_tsc_hz :: "(nat \<Rightarrow> timespec) \<Rightarrow> (nat \<Rightarrow> u64) \<Rightarrow> u64 \<Rightarrow> double option" where
  "calibrate_tsc_hz clock tsc calibration_ns = map_option
     (\<lambda>(cycles, actual_ns). d_div (d_mul (to_double (unat cycles)) (Fin 1000000000)) (to_double (unat actual_ns)))
     (calibrate_tsc clock tsc calibration_ns)"

section \<open>The banner\<close>

datatype compiler = Clang string | Gcc nat nat nat | OtherCompiler

definition compiler_string :: "compiler \<Rightarrow> string" where
  "compiler_string c = (case c of
     Clang v \<Rightarrow> ''clang '' @ v
   | Gcc major minor patch \<Rightarrow> ''gcc '' @ decimal major @ ''.'' @ decimal minor @ ''.'' @ decimal patch
   | OtherCompiler \<Rightarrow> ''unknown'')"

text \<open>Where a binary runs and how it has been compiled.\<close>

record host =
  h_files :: files
  h_clock :: "nat \<Rightarrow> timespec"
  h_tsc :: "nat \<Rightarrow> u64"
  h_compiler :: compiler
  h_cplusplus :: nat

definition rule_line :: "char \<Rightarrow> out list" where
  "rule_line c = [Str (replicate 63 c), Endl]"

definition print_environment_banner :: "host \<Rightarrow> string \<Rightarrow> ostream \<Rightarrow> ostream option" where
  "print_environment_banner h benchmark_name os =
     (let model = read_proc_cpuinfo_field (h_files h) ''model name'' in
      map_option (\<lambda>tsc_hz. write_out
        (rule_line CHR ''='' @
         [Str ''  lobook benchmark: '', Str benchmark_name, Endl] @ rule_line CHR ''='' @
         [Str ''  host         '', Str (read_first_line (h_files h) ''/proc/sys/kernel/hostname''), Endl,
          Str ''  cpu          '', Str (if model = [] then ''(unknown)'' else model), Endl,
          Str ''  tsc freq     '', SetPrecision 4, Dbl (d_div tsc_hz (Fin 1000000000)), Str '' GHz (calibrated)'', Endl,
          Str ''  isolcpus     '', Str (read_isolated_cores (h_files h)), Endl,
          Str ''  kernel       '', Str (read_first_line (h_files h) ''/proc/sys/kernel/osrelease''), Endl,
          Str ''  build        '', Str (compiler_string (h_compiler h)), Str ''  C++'',
          Num (h_cplusplus h div 100 mod 100), Endl] @ rule_line CHR ''='') os)
      (calibrate_tsc_hz (h_clock h) (h_tsc h) 50000000))"

definition print_section :: "string \<Rightarrow> ostream \<Rightarrow> ostream" where
  "print_section title = write_out
     (Endl # rule_line CHR ''-'' @ [Str ''  '', Str title, Endl] @ rule_line CHR ''-'')"

definition print_kv :: "string \<Rightarrow> string \<Rightarrow> ostream \<Rightarrow> ostream" where
  "print_kv key value = write_out [Str ''  '', SetLeft, SetW 13, Str key, Str value, Endl]"

definition print_done :: "ostream \<Rightarrow> ostream" where
  "print_done = write_out (Endl # rule_line CHR ''='' @ [Str ''  done.'', Endl] @ rule_line CHR ''='')"

section \<open>Rates\<close>

definition print_runtime :: "double \<Rightarrow> nat \<Rightarrow> ostream \<Rightarrow> ostream" where
  "print_runtime elapsed num_ops =
     (let ns_per_op = d_div (d_mul elapsed (Fin 1000000)) (to_double num_ops);
          ops_per_sec = d_div (to_double num_ops) (d_div elapsed (Fin 1000)) in
      write_out [Str ''  runtime      '', SetPrecision 3, Dbl elapsed, Str '' ms  ('',
        SetPrecision 2, Dbl (d_div ops_per_sec (Fin 1000000)), Str '' M ops/s, '',
        SetPrecision 2, Dbl ns_per_op, Str '' ns/op)'', Endl])"

text \<open>\<open>rd\<close> is what reading a counter's file descriptor delivers.\<close>

definition print_summary :: "(int \<Rightarrow> u64 option) \<Rightarrow> perf_counters \<Rightarrow> nat \<Rightarrow> ostream \<Rightarrow> ostream" where
  "print_summary rd pcs num_ops =
     (if \<not> pc_available (instructions pcs) then
        write_out [Str ''      (perf counters unavailable; check kernel.perf_event_paranoid)'', Endl]
      else
        let val = (\<lambda>c. to_double (unat (pc_read_value rd (c pcs))));
            positive = (\<lambda>c. 0 < pc_read_value rd (c pcs));
            ipc = (if positive cycles then d_div (val instructions) (val cycles) else Fin 0);
            br_miss_pct = (if positive branches then d_div (d_mul (Fin 100) (val branch_misses)) (val branches) else Fin 0);
            llc_miss_pct = (if positive llc_refs then d_div (d_mul (Fin 100) (val llc_misses)) (val llc_refs) else Fin 0);
            n = (if 0 < num_ops then to_double num_ops else Fin 1) in
        write_out
          [Str ''      instructions  '', SetW 8, SetPrecision 2, Dbl (d_div (val instructions) n),
           Str '' /op   cycles  '', SetW 7, Dbl (d_div (val cycles) n), Str '' /op   IPC  '', SetPrecision 2, Dbl ipc, Endl,
           Str ''      branches      '', SetW 8, Dbl (d_div (val branches) n), Str '' /op   misses  '',
           SetPrecision 2, Dbl br_miss_pct, Str '' %'', Endl,
           Str ''      L1D misses    '', SetW 8, SetPrecision 2, Dbl (d_div (val l1d_read_misses) n), Str '' /op'', Endl,
           Str ''      LLC refs      '', SetW 8, Dbl (d_div (val llc_refs) n), Str '' /op   miss rate  '',
           SetPrecision 2, Dbl llc_miss_pct, Str '' %'', Endl])"

section \<open>What the lines say\<close>

text \<open>A settled stream writes each item as it is, and an item after \<open>setw\<close> in a field.\<close>

definition column :: "bool \<Rightarrow> nat \<Rightarrow> string \<Rightarrow> string" where
  "column left w s = (let fill = spaces (w - length s) in if left then s @ fill else fill @ s)"

lemma padded_column: "padded os s = column (os_left os) (os_width os) s"
  by (simp add: padded_def column_def spaces_def)

lemma column_0 [simp]: "column left 0 s = s"
  by (simp add: column_def spaces_def)

lemma rule_line_text: "os_width os = 0 \<Longrightarrow> os_text (write_out (rule_line c) os) = os_text os @ replicate 63 c @ [CHR 0x0A]"
  "os_width (write_out (rule_line c) os) = 0" "os_left (write_out (rule_line c) os) = os_left os"
  "os_precision (write_out (rule_line c) os) = os_precision os"
  by (simp_all add: rule_line_def)

text \<open>A setting's value follows its key, and is only set off from it when the key is short.\<close>

lemma print_kv_text:
  assumes "settled os"
  shows "os_text (print_kv key value os) = os_text os @ ''  '' @ key @ spaces (13 - length key) @ value @ [CHR 0x0A]"
    and "settled (print_kv key value os)" and "os_left (print_kv key value os)"
  using assms by (simp_all add: print_kv_def settled_def padded_left spaces_def)

lemma print_section_settled: "settled (print_section title os)" and print_done_settled: "settled (print_done os)"
  by (simp_all add: print_section_def print_done_def settled_def write_append rule_line_def)

lemma calibrate_tsc_hz_about:
  assumes "calibrate_tsc clock tsc ns = Some (c, d)" and "0 < d"
  shows "\<exists>hz. calibrate_tsc_hz clock tsc ns = Some hz \<and> about 5 (of_nat (unat c) * 10 ^ 9 / of_nat (unat d)) hz"
proof -
  have "about (Suc (1 + 0)) (of_nat (unat c) * 1000000000) (d_mul (to_double (unat c)) (Fin 1000000000))"
    by (intro about_mul about_of_nat about_Fin) simp
  moreover have "0 < (of_nat (unat d) :: rat)" unfolding of_nat_0_less_iff using assms(2) by (simp add: word_less_nat_alt)
  ultimately have "about (Suc (Suc (1 + 0) + 2 * 1)) (of_nat (unat c) * 1000000000 / of_nat (unat d))
      (d_div (d_mul (to_double (unat c)) (Fin 1000000000)) (to_double (unat d)))"
    by (rule about_div [OF _ about_of_nat])
  then have "about 5 (of_nat (unat c) * 1000000000 / of_nat (unat d))
      (d_div (d_mul (to_double (unat c)) (Fin 1000000000)) (to_double (unat d)))"
    by (rule about_more) simp
  then show ?thesis using assms(1) by (simp add: calibrate_tsc_hz_def)
qed

lemma elapsed_about: "about 2 (of_nat (nat (now - started_at t)) / 10 ^ 6) (elapsed_ms t now)"
proof -
  have "about (Suc (1 + 2 * 0)) (of_nat (nat (now - started_at t)) / 1000000) (elapsed_ms t now)"
    unfolding elapsed_ms_def by (intro about_div about_of_nat about_Fin) simp_all
  then show ?thesis by (rule about_more [THEN back_subst [of "\<lambda>x. about 2 x _"]]) simp_all
qed

text \<open>Milliseconds, million operations per second and nanoseconds per operation.\<close>

definition runtime_line :: "string \<Rightarrow> string \<Rightarrow> string \<Rightarrow> string" where
  "runtime_line ms mops ns = ''  runtime      '' @ ms @ '' ms  ('' @ mops @ '' M ops/s, '' @ ns @ '' ns/op)'' @ [CHR 0x0A]"

lemma print_runtime_text:
  fixes D n :: nat
  assumes "settled os" and "0 < n" and "0 < D" and el: "about 2 (of_nat D / 10 ^ 6) elapsed"
  shows "\<exists>ms mops ns. os_text (print_runtime elapsed n os) = os_text os @ runtime_line ms mops ns \<and>
    shown 3 (of_nat D / 10 ^ 6) ms \<and> shown 2 (of_nat n * 10 ^ 3 / of_nat D) mops \<and> shown 2 (of_nat D / of_nat n) ns"
proof -
  have "about (Suc (2 + 0)) (of_nat D / 10 ^ 6 * 1000000) (d_mul elapsed (Fin 1000000))"
    by (intro about_mul el about_Fin) simp
  then have "about (Suc (Suc (2 + 0) + 2 * 1)) (of_nat D / 10 ^ 6 * 1000000 / of_nat n)
      (d_div (d_mul elapsed (Fin 1000000)) (to_double n))"
    by (rule about_div [OF _ about_of_nat]) (use assms(2) in simp)
  then have ns: "shown 2 (of_nat D / of_nat n) (double_text 2 (d_div (d_mul elapsed (Fin 1000000)) (to_double n)))"
    using about_shown by fastforce
  have "about (Suc (2 + 2 * 0)) (of_nat D / 10 ^ 6 / 1000) (d_div elapsed (Fin 1000))"
    by (intro about_div el about_Fin) simp_all
  then have "about (Suc (1 + 2 * Suc (2 + 2 * 0))) (of_nat n / (of_nat D / 10 ^ 6 / 1000))
      (d_div (to_double n) (d_div elapsed (Fin 1000)))"
    by (rule about_div [OF about_of_nat]) (use assms(3) in simp)
  then have "about (Suc (Suc (1 + 2 * Suc (2 + 2 * 0)) + 2 * 0)) (of_nat n / (of_nat D / 10 ^ 6 / 1000) / 1000000)
      (d_div (d_div (to_double n) (d_div elapsed (Fin 1000))) (Fin 1000000))"
    by (rule about_div [OF _ about_Fin]) simp_all
  from about_shown [OF this, of 2]
  have "shown 2 (of_nat n / (of_nat D / 10 ^ 6 / 1000) / 1000000)
      (double_text 2 (d_div (d_div (to_double n) (d_div elapsed (Fin 1000))) (Fin 1000000)))" by simp
  moreover have "of_nat n / (of_nat D / 10 ^ 6 / 1000) / 1000000 = (of_nat n * 10 ^ 3 / of_nat D :: rat)" by simp
  ultimately have mops: "shown 2 (of_nat n * 10 ^ 3 / of_nat D)
      (double_text 2 (d_div (d_div (to_double n) (d_div elapsed (Fin 1000))) (Fin 1000000)))"
    by (simp only:)
  have "shown 3 (of_nat D / 10 ^ 6) (double_text 3 elapsed)" using about_shown [OF el] by simp
  with ns mops show ?thesis
    using assms(1) by (intro exI conjI) (simp_all add: print_runtime_def Let_def settled_def runtime_line_def)
qed

text \<open>A clock that has not moved gives infinitely many operations per second.\<close>

lemma print_runtime_no_time:
  assumes "settled os" and "0 < n"
  shows "os_text (print_runtime (Fin 0) n os) = os_text os @ runtime_line ''0.000'' ''inf'' ''0.00''"
proof -
  have "fl (of_nat n) \<noteq> 0" using close_pos [OF close_fl [OF close_refl [of "of_nat n"]]] assms(2) by auto
  moreover have "fl 0 = 0" by (simp add: fl_def)
  moreover have "fixed_text 3 0 = ''0.000''" "fixed_text 2 0 = ''0.00''"
    by code_simp+
  ultimately show ?thesis
    using assms(1) by (simp add: print_runtime_def to_double_def settled_def runtime_line_def)
qed

lemma runtime_printed:
  assumes "settled os" and "0 < n"
  shows "\<exists>ms mops ns. os_text (print_runtime (elapsed_ms t (started_at t + int D)) n os) = os_text os @ runtime_line ms mops ns \<and>
    (if D = 0 then ms = ''0.000'' \<and> mops = ''inf'' \<and> ns = ''0.00''
     else shown 3 (of_nat D / 10 ^ 6) ms \<and> shown 2 (of_nat n * 10 ^ 3 / of_nat D) mops \<and> shown 2 (of_nat D / of_nat n) ns)"
proof (cases "D = 0")
  case True
  then have "elapsed_ms t (started_at t + int D) = Fin 0" by (simp add: elapsed_ms_def to_double_def fl_def)
  then show ?thesis using print_runtime_no_time [OF assms] True by auto
next
  case False
  have "about 2 (of_nat D / 10 ^ 6) (elapsed_ms t (started_at t + int D))"
    using elapsed_about [of "started_at t + int D" t] by simp
  from print_runtime_text [OF assms _ this] False show ?thesis by simp
qed

text \<open>The eight numbers of the summary: counts per operation, and ratios that are 0 over 0 events.\<close>

definition summary_text :: "bool \<Rightarrow> string list \<Rightarrow> string" where
  "summary_text left ts =
     ''      instructions  '' @ column left 8 (ts ! 0) @ '' /op   cycles  '' @ column left 7 (ts ! 1) @
       '' /op   IPC  '' @ ts ! 2 @ [CHR 0x0A] @
     ''      branches      '' @ column left 8 (ts ! 3) @ '' /op   misses  '' @ ts ! 4 @ '' %'' @ [CHR 0x0A] @
     ''      L1D misses    '' @ column left 8 (ts ! 5) @ '' /op'' @ [CHR 0x0A] @
     ''      LLC refs      '' @ column left 8 (ts ! 6) @ '' /op   miss rate  '' @ ts ! 7 @ '' %'' @ [CHR 0x0A]"

definition summary_numbers :: "(int \<Rightarrow> u64 option) \<Rightarrow> perf_counters \<Rightarrow> nat \<Rightarrow> rat list" where
  "summary_numbers rd pcs n =
     (let val = (\<lambda>c. of_nat (unat (pc_read_value rd (c pcs))) :: rat); per_op = (\<lambda>c. val c / of_nat (max 1 n));
          ratio = (\<lambda>a b. if b = 0 then 0 else a / b) in
      [per_op instructions, per_op cycles, ratio (val instructions) (val cycles), per_op branches,
       ratio (100 * val branch_misses) (val branches), per_op l1d_read_misses, per_op llc_refs,
       ratio (100 * val llc_misses) (val llc_refs)])"

lemma about_ratio:
  assumes "about n x d"
  shows "about (n + 3) (if k = 0 then 0 else x / of_nat k) (if 0 < k then d_div d (to_double k) else Fin 0)"
proof (cases "k = 0")
  case True
  then show ?thesis using about_more [OF about_Fin [of 0]] by simp
next
  case False
  then have "about (Suc (n + 2 * 1)) (x / of_nat k) (d_div d (to_double k))"
    by (intro about_div [OF assms about_of_nat]) simp
  then show ?thesis using False by (simp add: numeral_3_eq_3)
qed

lemma print_summary_text:
  assumes "settled os" and "pc_available (instructions pcs)"
  shows "\<exists>ts. os_text (print_summary rd pcs n os) = os_text os @ summary_text (os_left os) ts \<and>
    list_all2 (shown 2) (summary_numbers rd pcs n) ts"
proof -
  let ?v = "\<lambda>c. unat (pc_read_value rd (c pcs))"
  have op: "shown 2 (of_nat k / of_nat (max 1 n)) (double_text 2 (d_div (to_double k) (if 0 < n then to_double n else Fin 1)))" for k
  proof -
    have m: "about 1 (of_nat (max 1 n)) (if 0 < n then to_double n else Fin 1)"
      using about_of_nat [of n] about_more [OF about_Fin [of 1], of 1] by (simp add: max_def)
    have "about (Suc (1 + 2 * 1)) (of_nat k / of_nat (max 1 n)) (d_div (to_double k) (if 0 < n then to_double n else Fin 1))"
      by (rule about_div [OF about_of_nat m]) simp
    then show ?thesis by (rule about_shown) simp
  qed
  have ratio: "shown 2 (if k = 0 then 0 else x / of_nat k) (double_text 2 (if 0 < k then d_div d (to_double k) else Fin 0))"
    if "about 2 x d" for x d k
    using about_shown [OF about_ratio [OF that]] by simp
  have pct: "about 2 (100 * of_nat k) (d_mul (Fin 100) (to_double k))" for k
    using about_mul [OF about_Fin [of 100] about_of_nat [of k]] by (simp add: numeral_2_eq_2)
  have cnt: "about 2 (of_nat k) (to_double k)" for k by (rule about_more [OF about_of_nat]) simp
  define ts where "ts = map (double_text 2)
    [d_div (to_double (?v instructions)) (if 0 < n then to_double n else Fin 1),
     d_div (to_double (?v cycles)) (if 0 < n then to_double n else Fin 1),
     if 0 < ?v cycles then d_div (to_double (?v instructions)) (to_double (?v cycles)) else Fin 0,
     d_div (to_double (?v branches)) (if 0 < n then to_double n else Fin 1),
     if 0 < ?v branches then d_div (d_mul (Fin 100) (to_double (?v branch_misses))) (to_double (?v branches)) else Fin 0,
     d_div (to_double (?v l1d_read_misses)) (if 0 < n then to_double n else Fin 1),
     d_div (to_double (?v llc_refs)) (if 0 < n then to_double n else Fin 1),
     if 0 < ?v llc_refs then d_div (d_mul (Fin 100) (to_double (?v llc_misses))) (to_double (?v llc_refs)) else Fin 0]"
  have "os_text (print_summary rd pcs n os) = os_text os @ summary_text (os_left os) ts"
    using assms unfolding print_summary_def Let_def ts_def
    by (simp add: settled_def padded_column summary_text_def word_less_nat_alt)
  moreover have "list_all2 (shown 2) (summary_numbers rd pcs n) ts"
    unfolding summary_numbers_def Let_def ts_def list.map list.rel_inject of_nat_eq_0_iff
    by (intro conjI op ratio pct cnt list.rel_intros)
  ultimately show ?thesis by blast
qed

end
