(* ===== verification/Programs.thy ===== *)
theory Programs
  imports Bench_Report Bench_Book Bench_Replace
begin

text \<open>
  The four binaries as a whole, with what they print: \<open>src/server.cpp\<close>, \<open>src/benchmark_clock.cpp\<close>,
  \<open>src/benchmark_book.cpp\<close> and \<open>src/benchmark_replace.cpp\<close>.  A binary starts with fresh streams; the
  readings of clocks, counters and the random numbers are parameters.
\<close>

text \<open>\<open>std::to_string(int)\<close>.\<close>

definition int_text :: "int \<Rightarrow> string" where
  "int_text x = (if x < 0 then CHR ''-'' # decimal (nat (- x)) else decimal (nat x))"

definition print_settings :: "(string \<times> string) list \<Rightarrow> ostream \<Rightarrow> ostream" where
  "print_settings kvs os = fold (\<lambda>(key, value). print_kv key value) kvs os"

section \<open>The server\<close>

definition usage :: "string \<Rightarrow> out list" where
  "usage prog = [Str ''Usage: '', Str prog, Str '' [--queue=cached|uncached|naive] [--pacing-ns=N] [--workload=N]'',
     Str '' [--dump-latencies=FILE]'', Endl]"

text \<open>What \<open>parse_args\<close> writes to \<open>std::cerr\<close>.\<close>

fun parse_messages :: "string \<Rightarrow> string list \<Rightarrow> Args \<Rightarrow> out list" where
  "parse_messages prog [] out =
     (if known_mode (queue_mode out) then []
      else [Str ''invalid --queue value: '', Str (queue_mode out), Endl] @ usage prog)"
| "parse_messages prog (a # rest) out =
     (if a = ''--help'' \<or> a = ''-h'' then usage prog
      else if prefix ''--queue='' a then parse_messages prog rest (out\<lparr>queue_mode := drop 8 a\<rparr>)
      else if prefix ''--pacing-ns='' a then
        (case stoull (drop 12 a) of Inl e \<Rightarrow> [] | Inr v \<Rightarrow> parse_messages prog rest (out\<lparr>pacing_ns := v\<rparr>))
      else if prefix ''--workload='' a then
        (case stoull (drop 11 a) of Inl e \<Rightarrow> [] | Inr v \<Rightarrow> parse_messages prog rest (out\<lparr>workload := v\<rparr>))
      else if prefix ''--dump-latencies='' a then parse_messages prog rest (out\<lparr>dump_path := drop 17 a\<rparr>)
      else [Str ''unknown argument: '', Str a, Endl] @ usage prog)"

definition server_settings :: "(string \<rightharpoonup> string) \<Rightarrow> Args \<Rightarrow> (string \<times> string) list" where
  "server_settings env args =
     [(''queue'', queue_mode args), (''pacing'', decimal (unat (pacing_ns args)) @ '' ns''),
      (''workload'', decimal (unat (workload args)) @ '' ops''), (''network core'', int_text (network_bench_core env)),
      (''matching core'', int_text (matching_bench_core env))] @
     (if dump_path args \<noteq> [] then [(''dump latencies'', dump_path args)] else [])"

definition server_intro :: "host \<Rightarrow> (string \<rightharpoonup> string) \<Rightarrow> Args \<Rightarrow> ostream \<Rightarrow> ostream option" where
  "server_intro h env args os = map_option
     (\<lambda>os. write_out [Endl] (print_settings (server_settings env args) os))
     (print_environment_banner h ''end-to-end latency harness'' os)"

text \<open>The lines of \<open>report\<close>, from the numbers it takes out of the sorted vectors.\<close>

definition report_lines :: "u64 list \<Rightarrow> out list" where
  "report_lines ps =
     [Str ''END TO END LATENCIES:'', Endl, Str ''p50: '', Num (unat (ps ! 0)), Endl,
      Str ''p99: '', Num (unat (ps ! 1)), Endl, Str ''p999: '', Num (unat (ps ! 2)), Endl,
      Str ''QUEUE LATENCIES'', Endl, Str ''p50: '', Num (unat (ps ! 3)), Endl,
      Str ''p99: '', Num (unat (ps ! 4)), Endl, Str ''p999: '', Num (unat (ps ! 5)), Endl]"

text \<open>\<open>main\<close>: how the process ends, \<open>std::cout\<close> and \<open>std::cerr\<close>.\<close>

definition server_program :: "host \<Rightarrow> (string \<rightharpoonup> string) \<Rightarrow> (string \<Rightarrow> bool) \<Rightarrow> (nat \<Rightarrow> timespec) \<Rightarrow> string \<Rightarrow>
    string list \<Rightarrow> (queue_kind \<Rightarrow> OrderMessage list) \<Rightarrow> bitset_book \<Rightarrow> (process_end \<times> ostream \<times> ostream) option" where
  "server_program h env writable clock prog argv delivered b =
     (let err = write_out (parse_messages prog argv default_args) new_stream in
      case parse_args argv of
        Inl Help \<Rightarrow> Some (Exited 0, new_stream, err)
      | Inl Rejected \<Rightarrow> Some (Exited 1, new_stream, err)
      | Inl (Threw ex) \<Rightarrow> Some (Uncaught ex, new_stream, err)
      | Inr args \<Rightarrow> (case server_intro h env args new_stream of
          None \<Rightarrow> None
        | Some os \<Rightarrow> map_option (\<lambda>r. case r of
              Inl f \<Rightarrow> (Undefined f, os, err)
            | Inr (ok, rows, ps) \<Rightarrow>
                if ok then (Exited 0, write_out (report_lines ps) os, err)
                else (Exited 1, os, write_out [Str ''failed to write --dump-latencies: '', Str (dump_path args), Endl] err))
            (server_run writable clock args (delivered (select_queue args)) b)))"

section \<open>The state of a map-based book\<close>

definition debug_print :: "naive_book \<Rightarrow> ostream \<Rightarrow> ostream" where
  "debug_print nb os = fold (\<lambda>(price, l). write_out
       [Str ''Bid Price '', Num (unat price), Str '' has '', Num (length l), Str '' orders.'', Endl])
     (bids nb) (write_out [Str ''--- BOOK STATE ---'', Endl] os)"

section \<open>The clock benchmark\<close>

definition result_line :: "string \<Rightarrow> u64 \<Rightarrow> out list" where
  "result_line label v = [Str label, Num (unat v), Str '' ns'', Endl]"

definition clock_program :: "host \<Rightarrow> (nat \<Rightarrow> timespec) \<Rightarrow> ostream exec" where
  "clock_program h clock =
     (case print_environment_banner h ''clock_gettime overhead'' new_stream of
        None \<Rightarrow> None
      | Some os \<Rightarrow>
          let os = print_settings [(''clock'', ''CLOCK_MONOTONIC_RAW''), (''samples'', decimal kSamples)] os in
          ebind (clock_main clock) (\<lambda>ps.
          let os = print_section ''results'' os;
              os = write_out (result_line ''  p50          '' (ps ! 0) @ result_line ''  p90          '' (ps ! 1) @
                result_line ''  p99          '' (ps ! 2) @ result_line ''  p999         '' (ps ! 3) @
                result_line ''  max          '' (ps ! 4)) os in
          ret (print_done os)))"

section \<open>The book benchmark\<close>

text \<open>
  The hardware counters of a scenario: what the kernel gives and what reading it delivers.  \<open>now\<close>
  numbers the readings of the timer within the scenario.
\<close>

record perf_readings =
  pr_open :: "perf_attr \<Rightarrow> int"
  pr_read :: "int \<Rightarrow> u64 option"

definition print_counters :: "perf_readings \<Rightarrow> nat \<Rightarrow> ostream \<Rightarrow> ostream" where
  "print_counters pr num_ops = print_summary (pr_read pr) (perf_counters_new (pr_open pr)) num_ops"

definition sparse_output :: "string \<Rightarrow> (nat \<Rightarrow> int) \<Rightarrow> perf_readings \<Rightarrow> ostream \<Rightarrow> ostream" where
  "sparse_output name now pr os =
     (let os = print_section (''scenario 1 / sparse insert + sweep / '' @ name) os;
          os = print_kv ''setup'' (decimal kSparseLevels @ '' price levels x '' @ decimal kSparseOrdersPerLevel @
            '' orders x '' @ decimal kSparseRounds @ '' rounds, then 1 sweeping order'') os;
          insert_ms = elapsed_ms (timer_reset (now 0)) (now 1);
          os = write_out [Str ''  -- insert phase'', Endl] os;
          os = print_runtime insert_ms total_inserted os;
          match_ms = elapsed_ms (timer_reset (now 2)) (now 3);
          os = write_out [Str ''  -- match sweep phase'', Endl] os;
          os = print_runtime match_ms total_inserted os in
      print_counters pr total_inserted os)"

definition wide_output :: "string \<Rightarrow> (nat \<Rightarrow> int) \<Rightarrow> perf_readings \<Rightarrow> ostream \<Rightarrow> ostream" where
  "wide_output name now pr os =
     (let os = print_section (''scenario 2 / wide spread / '' @ name) os;
          os = print_kv ''setup'' (decimal kWideOrders @ '' asks at top, then '' @ decimal kWideOrders @
            '' buys crossing 1-by-1'') os;
          insert_ms = elapsed_ms (timer_reset (now 0)) (now 1);
          os = write_out [Str ''  -- insert phase'', Endl] os;
          os = print_runtime insert_ms kWideOrders os;
          match_ms = elapsed_ms (timer_reset (now 2)) (now 3);
          os = write_out [Str ''  -- match phase'', Endl] os;
          os = print_runtime match_ms kWideOrders os in
      print_counters pr kWideOrders os)"

definition churn_output :: "string \<Rightarrow> (nat \<Rightarrow> int) \<Rightarrow> perf_readings \<Rightarrow> ostream \<Rightarrow> ostream" where
  "churn_output name now pr os =
     (let os = print_section (''scenario 3 / mixed churn / '' @ name) os;
          os = print_kv ''setup'' (decimal kChurnOps @ '' ops, 70% submit / 20% cancel / 10% aggressive marketable'') os;
          elapsed = elapsed_ms (timer_reset (now 0)) (now 1);
          os = print_runtime elapsed kChurnOps os in
      print_counters pr kChurnOps os)"

definition fast_name :: string where "fast_name = ''FastBook (linear scan)''"
definition bitset_name :: string where "bitset_name = ''BitsetBook (hierarchical bitset)''"

definition book_program :: "host \<Rightarrow> (nat \<Rightarrow> nat \<Rightarrow> int) \<Rightarrow> (nat \<Rightarrow> perf_readings) \<Rightarrow> ('g \<Rightarrow> u32 \<times> 'g) \<Rightarrow> ('g \<Rightarrow> u64 \<times> 'g) \<Rightarrow>
    'g \<Rightarrow> fast_book \<Rightarrow> bitset_book \<Rightarrow> ostream exec" where
  "book_program h now pr draw price_dist seeded f b =
     (case print_environment_banner h ''FastBook vs BitsetBook'' new_stream of
        None \<Rightarrow> None
      | Some os \<Rightarrow>
          let os = print_settings [(''max prices'', decimal MAX_PRICES), (''max orders'', decimal kMaxOrders)] os in
          ebind (scenario_sparse fast_ops f) (\<lambda>f. let os = sparse_output fast_name (now 0) (pr 0) os in
          ebind (scenario_sparse bitset_ops b) (\<lambda>b. let os = sparse_output bitset_name (now 1) (pr 1) os in
          ebind (scenario_wide fast_ops f) (\<lambda>f. let os = wide_output fast_name (now 2) (pr 2) os in
          ebind (scenario_wide bitset_ops b) (\<lambda>b. let os = wide_output bitset_name (now 3) (pr 3) os in
          ebind (scenario_churn fast_ops draw price_dist seeded f) (\<lambda>f.
          let os = churn_output fast_name (now 4) (pr 4) os in
          ebind (scenario_churn bitset_ops draw price_dist seeded b) (\<lambda>b.
          let os = churn_output bitset_name (now 5) (pr 5) os in
          ret (print_done os))))))))"

section \<open>The replace benchmark\<close>

definition kRngSeed :: nat where "kRngSeed = 123"

text \<open>The counter is read three times per operation; the differences add up in \<open>uint64_t\<close>.\<close>

definition cycles_total :: "(nat \<Rightarrow> u64) \<Rightarrow> nat \<Rightarrow> u64" where
  "cycles_total tsc j = sum_list (map (\<lambda>k. tsc (3 * k + Suc j) - tsc (3 * k + j)) [0..<kNumOps])"

definition split_ns :: "u64 \<Rightarrow> double \<Rightarrow> double" where
  "split_ns spent tsc_hz = d_mul (d_div (d_div (to_double (unat spent)) (to_double kNumOps)) tsc_hz) (Fin 1000000000)"

definition split_line :: "string \<Rightarrow> double \<Rightarrow> out list" where
  "split_line label ns = [Str label, SetW 8, Dbl ns, Str '' ns/op  (rdtsc split)'', Endl]"

text \<open>\<open>cal\<close> has the readings of the second calibration, \<open>tsc\<close> those of the timed loop.\<close>

definition replace_program :: "host \<Rightarrow> (nat \<Rightarrow> timespec) \<times> (nat \<Rightarrow> u64) \<Rightarrow> (nat \<Rightarrow> nat \<Rightarrow> int) \<Rightarrow> (nat \<Rightarrow> perf_readings) \<Rightarrow>
    (nat \<Rightarrow> u64) \<Rightarrow> 'g randomness \<Rightarrow> (nat \<Rightarrow> 'g) \<Rightarrow> bitset_book \<Rightarrow> ostream exec" where
  "replace_program h cal now pr tsc R mt19937 b =
     (case print_environment_banner h ''replace_order vs cancel + submit'' new_stream of
        None \<Rightarrow> None
      | Some os \<Rightarrow>
          let os = print_settings [(''max prices'', decimal MAX_PRICES), (''max orders'', decimal kReplaceMaxOrders),
            (''live orders'', decimal kLiveOrders), (''operations'', decimal kNumOps), (''rng seed'', decimal kRngSeed)] os in
          (case calibrate_tsc_hz (fst cal) (snd cal) 50000000 of
             None \<Rightarrow> None
           | Some tsc_hz \<Rightarrow>
               ebind (replace_main R (mt19937 kRngSeed) (mt19937 (kRngSeed + 1)) b) (\<lambda>_.
               let os = print_section ''scenario A / native replace'' os;
                   os = print_runtime (elapsed_ms (timer_reset (now 0 0)) (now 0 1)) kNumOps os;
                   os = print_counters (pr 0) kNumOps os;
                   os = print_section ''scenario B / cancel + submit'' os;
                   os = print_runtime (elapsed_ms (timer_reset (now 1 0)) (now 1 1)) kNumOps os;
                   os = print_counters (pr 1) kNumOps os;
                   os = write_out (SetPrecision 2 #
                     split_line ''      cancel        '' (split_ns (cycles_total tsc 0) tsc_hz) @
                     split_line ''      submit        '' (split_ns (cycles_total tsc 1) tsc_hz)) os in
               ret (print_done os))))"

section \<open>The texts\<close>

text \<open>Where the calibration loop ends: the clock shows a time 50 ms on, short of \<open>2 ^ 64\<close>.\<close>

definition calibrates :: "(nat \<Rightarrow> timespec) \<Rightarrow> bool" where
  "calibrates clock \<longleftrightarrow> (\<exists>j > 0. to_ns (clock 0) + 50000000 \<le> to_ns (clock j)) \<and>
     unat (to_ns (clock 0)) + 50000000 < 18446744073709551616"

lemma calibrates_returns:
  assumes "calibrates clock"
  shows "\<exists>c d. calibrate_tsc clock tsc 50000000 = Some (c, d) \<and> 50000000 \<le> d"
  using calibrate_tsc_returns [of clock 50000000 tsc] assms by (auto simp: calibrates_def)

definition line :: "string \<Rightarrow> string" where
  "line s = s @ [CHR 0x0A]"

definition banner_text :: "host \<Rightarrow> string \<Rightarrow> string \<Rightarrow> string" where
  "banner_text h name ghz = (let cpu = read_proc_cpuinfo_field (h_files h) ''model name'' in
     line (replicate 63 CHR ''='') @ line (''  lobook benchmark: '' @ name) @ line (replicate 63 CHR ''='') @
     line (''  host         '' @ read_first_line (h_files h) ''/proc/sys/kernel/hostname'') @
     line (''  cpu          '' @ (if cpu = [] then ''(unknown)'' else cpu)) @
     line (''  tsc freq     '' @ ghz @ '' GHz (calibrated)'') @
     line (''  isolcpus     '' @ read_isolated_cores (h_files h)) @
     line (''  kernel       '' @ read_first_line (h_files h) ''/proc/sys/kernel/osrelease'') @
     line (''  build        '' @ compiler_string (h_compiler h) @ ''  C++'' @ decimal (h_cplusplus h div 100 mod 100)) @
     line (replicate 63 CHR ''=''))"

lemma banner_prints:
  assumes "calibrate_tsc (h_clock h) (h_tsc h) 50000000 = Some (c, d)" and "50000000 \<le> d" and "settled os"
  shows "\<exists>os' ghz. print_environment_banner h name os = Some os' \<and> settled os' \<and>
    os_text os' = os_text os @ banner_text h name ghz \<and> shown 4 (of_nat (unat c) / of_nat (unat d)) ghz"
proof -
  have "0 < d" using assms(2) by (auto simp: word_le_nat_alt word_less_nat_alt)
  from calibrate_tsc_hz_about [OF assms(1) this] obtain hz where
    hz: "calibrate_tsc_hz (h_clock h) (h_tsc h) 50000000 = Some hz" "about 5 (of_nat (unat c) * 10 ^ 9 / of_nat (unat d)) hz"
    by blast
  have "about (Suc (5 + 2 * 0)) (of_nat (unat c) * 10 ^ 9 / of_nat (unat d) / 1000000000) (d_div hz (Fin 1000000000))"
    by (rule about_div [OF hz(2) about_Fin]) simp_all
  from about_shown [OF this, of 4]
  have "shown 4 (of_nat (unat c) * 10 ^ 9 / of_nat (unat d) / 1000000000) (double_text 4 (d_div hz (Fin 1000000000)))" by simp
  moreover have "of_nat (unat c) * 10 ^ 9 / of_nat (unat d) / 1000000000 = (of_nat (unat c) / of_nat (unat d) :: rat)" by simp
  ultimately have "shown 4 (of_nat (unat c) / of_nat (unat d)) (double_text 4 (d_div hz (Fin 1000000000)))" by (simp only:)
  then show ?thesis
    using assms(3) by (intro exI conjI) (assumption | simp add: print_environment_banner_def hz(1) Let_def write_append
      rule_line_def settled_def banner_text_def line_def)+
qed

definition setting_line :: "string \<times> string \<Rightarrow> string" where
  "setting_line kv = line (''  '' @ fst kv @ spaces (13 - length (fst kv)) @ snd kv)"

lemma print_settings_text:
  "settled os \<Longrightarrow> os_text (print_settings kvs os) = os_text os @ concat (map setting_line kvs) \<and> settled (print_settings kvs os)"
proof (induction kvs arbitrary: os)
  case (Cons kv kvs)
  from Cons.IH [OF print_kv_text(2) [OF Cons.prems]] print_kv_text(1) [OF Cons.prems]
  show ?case by (simp add: print_settings_def setting_line_def line_def split_beta)
qed (simp add: print_settings_def)

definition report_text :: "u64 list \<Rightarrow> string" where
  "report_text ps = line ''END TO END LATENCIES:'' @ line (''p50: '' @ decimal (unat (ps ! 0))) @
     line (''p99: '' @ decimal (unat (ps ! 1))) @ line (''p999: '' @ decimal (unat (ps ! 2))) @
     line ''QUEUE LATENCIES'' @ line (''p50: '' @ decimal (unat (ps ! 3))) @
     line (''p99: '' @ decimal (unat (ps ! 4))) @ line (''p999: '' @ decimal (unat (ps ! 5)))"

lemma report_lines_text: "settled os \<Longrightarrow> os_text (write_out (report_lines ps) os) = os_text os @ report_text ps"
  by (simp add: report_lines_def settled_def report_text_def line_def)

lemma server_intro_prints:
  assumes "calibrates (h_clock h)" and "settled os"
  shows "\<exists>os' ghz. server_intro h env args os = Some os' \<and> settled os' \<and>
    os_text os' = os_text os @ banner_text h ''end-to-end latency harness'' ghz @
      concat (map setting_line (server_settings env args)) @ line []"
proof -
  obtain c d where "calibrate_tsc (h_clock h) (h_tsc h) 50000000 = Some (c, d)" "50000000 \<le> d"
    using calibrates_returns [OF assms(1)] by blast
  from banner_prints [OF this assms(2)] obtain os1 ghz where
    1: "print_environment_banner h ''end-to-end latency harness'' os = Some os1" "settled os1"
       "os_text os1 = os_text os @ banner_text h ''end-to-end latency harness'' ghz" by blast
  from print_settings_text [OF 1(2)] show ?thesis
    by (intro exI conjI) (simp add: server_intro_def 1(1), simp_all add: settled_def 1(3) line_def)
qed

text \<open>
  The messages of \<open>parse_args\<close>: none when it accepts its arguments or an exception leaves it, else
  the usage, and before it what was wrong.
\<close>

definition messages_fit :: "string \<Rightarrow> string list \<Rightarrow> parse_stop + Args \<Rightarrow> out list \<Rightarrow> bool" where
  "messages_fit prog argv r ms = (case r of
     Inl Help \<Rightarrow> ms = usage prog
   | Inl Rejected \<Rightarrow> \<exists>a \<in> set argv. ms = [Str ''unknown argument: '', Str a, Endl] @ usage prog
   | Inl (Threw ex) \<Rightarrow> ms = []
   | Inr out \<Rightarrow> ms = (if known_mode (queue_mode out) then []
       else [Str ''invalid --queue value: '', Str (queue_mode out), Endl] @ usage prog))"

lemma messages_fit_more: "messages_fit prog argv r ms \<Longrightarrow> messages_fit prog (a # argv) r ms"
  by (auto simp: messages_fit_def split: sum.splits parse_stop.splits)

lemma messages_fit_if:
  "(c \<Longrightarrow> messages_fit prog argv r ms) \<Longrightarrow> (\<not> c \<Longrightarrow> messages_fit prog argv r' ms') \<Longrightarrow>
    messages_fit prog argv (if c then r else r') (if c then ms else ms')"
  by simp

lemma messages_fit_number:
  "(\<And>v. n = Inr v \<Longrightarrow> messages_fit prog argv (r v) (ms v)) \<Longrightarrow>
    messages_fit prog argv (case n of Inl e \<Rightarrow> Inl (Threw e) | Inr v \<Rightarrow> r v) (case n of Inl e \<Rightarrow> [] | Inr v \<Rightarrow> ms v)"
  by (cases n) (simp_all add: messages_fit_def)

lemma parse_messages_fit: "messages_fit prog argv (parse_loop argv out) (parse_messages prog argv out)"
proof (induction prog argv out rule: parse_messages.induct)
  case (2 prog a rest out)
  note IH = "2.IH" [THEN messages_fit_more]
  show ?case
    unfolding parse_loop.simps parse_messages.simps
    by (intro messages_fit_if messages_fit_number)
      (rule IH; assumption | simp add: messages_fit_def)+
qed (simp add: messages_fit_def)

definition usage_text :: "string \<Rightarrow> string" where
  "usage_text prog = line (''Usage: '' @ prog @ '' [--queue=cached|uncached|naive] [--pacing-ns=N] [--workload=N]'' @
     '' [--dump-latencies=FILE]'')"

lemma new_stream_simps [simp]: "settled new_stream" "os_text new_stream = []"
  by (simp_all add: new_stream_def settled_def)

lemma usage_prints: "settled os \<Longrightarrow> os_text (write_out (usage prog) os) = os_text os @ usage_text prog"
  by (simp add: usage_def usage_text_def settled_def line_def)

section \<open>Whole programs\<close>

text \<open>Arguments that are not taken: exit code 1, and the reason and the usage on \<open>std::cerr\<close>.\<close>

lemma server_program_rejects:
  assumes "parse_args argv = Inl Rejected"
  shows "\<exists>err why. server_program h env writable clock prog argv delivered b = Some (Exited 1, new_stream, err) \<and>
    os_text err = line why @ usage_text prog"
proof -
  let ?ms = "parse_messages prog argv default_args"
  have "messages_fit prog argv (parse_loop argv default_args) ?ms" by (rule parse_messages_fit)
  then obtain s t where ms: "?ms = [Str s, Str t, Endl] @ usage prog"
    using assms by (auto simp: parse_args_def messages_fit_def split: sum.splits if_splits)
  have "os_text (write_out ?ms new_stream) = line (s @ t) @ usage_text prog"
    unfolding ms write_append by (subst usage_prints) (simp_all add: settled_def line_def new_stream_def)
  then show ?thesis using assms by (auto simp: server_program_def Let_def)
qed

text \<open>Arguments that are taken: the banner and the settings, then what \<open>run\<close> does decides.\<close>

definition intro_text :: "host \<Rightarrow> (string \<rightharpoonup> string) \<Rightarrow> Args \<Rightarrow> string \<Rightarrow> string" where
  "intro_text h env args ghz =
     banner_text h ''end-to-end latency harness'' ghz @ concat (map setting_line (server_settings env args)) @ line []"

definition dump_failure :: "Args \<Rightarrow> out list" where
  "dump_failure args = [Str ''failed to write --dump-latencies: '', Str (dump_path args), Endl]"

lemma server_program_runs:
  assumes args: "parse_args argv = Inr args" and "calibrates (h_clock h)"
    and del: "delivered (select_queue args) = msgs"
  obtains os ghz where "settled os" and "os_text os = intro_text h env args ghz"
    and "server_program h env writable clock prog argv delivered b = map_option (\<lambda>r. case r of
        Inl f \<Rightarrow> (Undefined f, os, new_stream)
      | Inr (ok, rows, ps) \<Rightarrow> if ok then (Exited 0, write_out (report_lines ps) os, new_stream)
          else (Exited 1, os, write_out (dump_failure args) new_stream))
      (server_run writable clock args msgs b)"
proof -
  have "messages_fit prog argv (parse_loop argv default_args) (parse_messages prog argv default_args)"
    by (rule parse_messages_fit)
  then have no_messages: "parse_messages prog argv default_args = []"
    using args by (auto simp: parse_args_def messages_fit_def split: sum.splits if_splits)
  obtain os ghz where os: "server_intro h env args new_stream = Some os" "settled os" "os_text os = intro_text h env args ghz"
    using server_intro_prints [OF assms(2) new_stream_simps(1)] by (fastforce simp: intro_text_def)
  show thesis
    by (rule that [OF os(2,3)]) (unfold dump_failure_def, simp add: server_program_def Let_def no_messages args os(1) del)
qed

lemma server_program_prints:
  assumes "parse_args argv = Inr args" and "calibrates (h_clock h)" and "array_shaped b" and "workload args \<noteq> 0"
    and "dump_path args = [] \<or> writable (dump_path args)"
    and sent: "map unstamped sent = map unstamped (build_workload args)"
    and "delivered (select_queue args) = sent @ [shutdown_message]"
  shows "\<exists>os ghz ps. server_program h env writable clock prog argv delivered b = Some (Exited 0, os, new_stream) \<and>
    os_text os = intro_text h env args ghz @ report_text ps \<and>
    quantiles_of (e2e_ns clock 0 sent) (take 3 ps) \<and> quantiles_of (queue_ns clock 0 sent) (drop 3 ps)"
proof (rule server_program_runs [where delivered = delivered and env = env and writable = writable and clock = clock and prog = prog and b = b, OF assms(1,2,7)])
  fix os ghz assume os: "settled os" "os_text os = intro_text h env args ghz"
    and run: "server_program h env writable clock prog argv delivered b = map_option (\<lambda>r. case r of
        Inl f \<Rightarrow> (Undefined f, os, new_stream)
      | Inr (ok, rows, ps) \<Rightarrow> if ok then (Exited 0, write_out (report_lines ps) os, new_stream)
          else (Exited 1, os, write_out (dump_failure args) new_stream))
      (server_run writable clock args (sent @ [shutdown_message]) b)"
  obtain rows ps where "server_run writable clock args (sent @ [shutdown_message]) b = ret (True, rows, ps)"
    and ps: "quantiles_of (e2e_ns clock 0 sent) (take 3 ps)" "quantiles_of (queue_ns clock 0 sent) (drop 3 ps)"
    using server_run_returns [where writable = writable and clock = clock, OF assms(3) sent assms(4,5)] by (auto simp: returns_def)
  then have "server_program h env writable clock prog argv delivered b = Some (Exited 0, write_out (report_lines ps) os, new_stream)"
    by (simp add: run)
  then show ?thesis using report_lines_text [OF os(1)] os(2) ps by auto
qed

text \<open>A dump that cannot be opened, and a workload of nothing.\<close>

lemma server_program_fails:
  assumes "parse_args argv = Inr args" and "calibrates (h_clock h)" and "array_shaped b"
    and sent: "map unstamped sent = map unstamped (build_workload args)"
    and "delivered (select_queue args) = sent @ [shutdown_message]"
  shows "dump_path args \<noteq> [] \<Longrightarrow> \<not> writable (dump_path args) \<Longrightarrow>
      \<exists>os err ghz. server_program h env writable clock prog argv delivered b = Some (Exited 1, os, err) \<and>
        os_text os = intro_text h env args ghz \<and> os_text err = line (''failed to write --dump-latencies: '' @ dump_path args)"
    and "workload args = 0 \<Longrightarrow> dump_path args = [] \<or> writable (dump_path args) \<Longrightarrow>
      \<exists>os ghz. server_program h env writable clock prog argv delivered b = Some (Undefined OutOfBounds, os, new_stream) \<and>
        os_text os = intro_text h env args ghz"
proof -
  obtain os ghz where os: "settled os" "os_text os = intro_text h env args ghz"
    and run: "server_program h env writable clock prog argv delivered b = map_option (\<lambda>r. case r of
        Inl f \<Rightarrow> (Undefined f, os, new_stream)
      | Inr (ok, rows, ps) \<Rightarrow> if ok then (Exited 0, write_out (report_lines ps) os, new_stream)
          else (Exited 1, os, write_out (dump_failure args) new_stream))
      (server_run writable clock args (sent @ [shutdown_message]) b)"
    by (rule server_program_runs [where delivered = delivered and env = env and writable = writable and clock = clock and prog = prog and b = b, OF assms(1,2,5)])
  have "os_text (write_out (dump_failure args) new_stream) = line (''failed to write --dump-latencies: '' @ dump_path args)"
    by (simp add: dump_failure_def line_def new_stream_def)
  then show "dump_path args \<noteq> [] \<Longrightarrow> \<not> writable (dump_path args) \<Longrightarrow>
      \<exists>os err ghz. server_program h env writable clock prog argv delivered b = Some (Exited 1, os, err) \<and>
        os_text os = intro_text h env args ghz \<and> os_text err = line (''failed to write --dump-latencies: '' @ dump_path args)"
    using server_run_no_dump [OF assms(3) sent, of writable clock] os(2) by (simp add: run) blast
  show "workload args = 0 \<Longrightarrow> dump_path args = [] \<or> writable (dump_path args) \<Longrightarrow>
      \<exists>os ghz. server_program h env writable clock prog argv delivered b = Some (Undefined OutOfBounds, os, new_stream) \<and>
        os_text os = intro_text h env args ghz"
    using server_run_no_workload [OF assms(3) sent, of writable clock] os(2) by (simp add: run) blast
qed

lemma server_program_outcome:
  assumes "calibrates (h_clock h)" and "array_shaped b"
    and del: "parse_args argv = Inr args \<and> map unstamped sent = map unstamped (build_workload args) \<and>
      delivered (select_queue args) = sent @ [shutdown_message]"
  shows "\<exists>os err ghz. if dump_path args \<noteq> [] \<and> \<not> writable (dump_path args) then
      server_program h env writable clock prog argv delivered b = Some (Exited 1, os, err) \<and>
      os_text os = intro_text h env args ghz \<and> os_text err = line (''failed to write --dump-latencies: '' @ dump_path args)
    else if workload args = 0 then
      server_program h env writable clock prog argv delivered b = Some (Undefined OutOfBounds, os, new_stream) \<and>
      os_text os = intro_text h env args ghz
    else \<exists>ps. server_program h env writable clock prog argv delivered b = Some (Exited 0, os, new_stream) \<and>
      os_text os = intro_text h env args ghz @ report_text ps \<and>
      quantiles_of (e2e_ns clock 0 sent) (take 3 ps) \<and> quantiles_of (queue_ns clock 0 sent) (drop 3 ps)"
proof -
  from del have d: "parse_args argv = Inr args" "map unstamped sent = map unstamped (build_workload args)"
    "delivered (select_queue args) = sent @ [shutdown_message]" by blast+
  note fails = server_program_fails [where delivered = delivered and env = env and writable = writable and clock = clock and prog = prog,
      OF d(1) assms(1,2) d(2,3)]
  note prints = server_program_prints [where delivered = delivered and env = env and writable = writable and clock = clock and prog = prog,
      OF d(1) assms(1,2) _ _ d(2,3)]
  show ?thesis
  proof (cases "dump_path args \<noteq> [] \<and> \<not> writable (dump_path args)")
    case True
    then show ?thesis using fails(1) by auto
  next
    case False
    then have w: "dump_path args = [] \<or> writable (dump_path args)" by blast
    show ?thesis
      using False fails(2) [OF _ w] prints [OF _ w] by (cases "workload args = 0") (simp_all, blast+)
  qed
qed

text \<open>The process ends as the model without output has it.\<close>

lemma server_program_ends:
  assumes "calibrates (h_clock h)"
  shows "map_option fst (server_program h env writable clock prog argv delivered b) = server_main writable clock argv delivered b"
proof (cases "parse_args argv")
  case (Inl e)
  then show ?thesis by (cases e) (simp_all add: server_program_def server_main_def Let_def)
next
  case (Inr args)
  obtain os where "server_intro h env args new_stream = Some os"
    using server_intro_prints [OF assms new_stream_simps(1)] by blast
  with Inr show ?thesis
    by (cases "server_run writable clock args (delivered (select_queue args)) b")
      (auto simp: server_program_def server_main_def Let_def split: sum.splits prod.splits)
qed

definition section_text :: "string \<Rightarrow> string" where
  "section_text title = line [] @ line (replicate 63 CHR ''-'') @ line (''  '' @ title) @ line (replicate 63 CHR ''-'')"

definition done_text :: string where
  "done_text = line [] @ line (replicate 63 CHR ''='') @ line ''  done.'' @ line (replicate 63 CHR ''='')"

lemma section_prints: "settled os \<Longrightarrow> os_text (print_section title os) = os_text os @ section_text title"
  by (simp add: print_section_def write_append rule_line_def settled_def section_text_def line_def)

lemma done_prints: "settled os \<Longrightarrow> os_text (print_done os) = os_text os @ done_text"
  by (simp add: print_done_def write_append rule_line_def settled_def done_text_def line_def)

definition clock_lines :: "u64 list \<Rightarrow> string" where
  "clock_lines rs = concat (map (\<lambda>(label, v). line (label @ decimal (unat v) @ '' ns''))
     (zip [''  p50          '', ''  p90          '', ''  p99          '', ''  p999         '', ''  max          ''] rs))"

lemma clock_program_prints:
  assumes "calibrates (h_clock h)"
  shows "returns (clock_program h clock) (\<lambda>os. \<exists>ghz rs. length rs = 5 \<and> sorted rs \<and> set rs \<subseteq> set (clock_deltas clock) \<and>
    rs ! 0 = sort (clock_deltas clock) ! 499999 \<and> (\<forall>x \<in> set (clock_deltas clock). x \<le> rs ! 4) \<and>
    os_text os = banner_text h ''clock_gettime overhead'' ghz @
      concat (map setting_line [(''clock'', ''CLOCK_MONOTONIC_RAW''), (''samples'', decimal kSamples)]) @
      section_text ''results'' @ clock_lines rs @ done_text)"
proof -
  obtain c d where "calibrate_tsc (h_clock h) (h_tsc h) 50000000 = Some (c, d)" "50000000 \<le> d"
    using calibrates_returns [OF assms] by blast
  from banner_prints [OF this new_stream_simps(1)] obtain os ghz where
    os: "print_environment_banner h ''clock_gettime overhead'' new_stream = Some os" "settled os"
      "os_text os = banner_text h ''clock_gettime overhead'' ghz" by fastforce
  have "length (clock_deltas clock) = kSamples" by (simp add: clock_deltas_def)
  from clock_results_return [OF this] obtain rs where rs: "clock_main clock = ret rs" "length rs = 5" "sorted rs"
    "set rs \<subseteq> set (clock_deltas clock)" "rs ! 0 = sort (clock_deltas clock) ! 499999" "\<forall>x \<in> set (clock_deltas clock). x \<le> rs ! 4"
    by (auto simp: returns_def clock_main_def)
  obtain a1 a2 a3 a4 a5 where five: "rs = [a1, a2, a3, a4, a5]"
    using rs(2) by (auto simp: length_Suc_conv numeral_eq_Suc)
  let ?kvs = "[(''clock'', ''CLOCK_MONOTONIC_RAW''), (''samples'', decimal kSamples)]"
  let ?r = "\<lambda>os. write_out (result_line ''  p50          '' (rs ! 0) @ result_line ''  p90          '' (rs ! 1) @
                result_line ''  p99          '' (rs ! 2) @ result_line ''  p999         '' (rs ! 3) @
                result_line ''  max          '' (rs ! 4)) os"
  have r: "os_text (?r os) = os_text os @ clock_lines rs \<and> settled (?r os)" if "settled os" for os
    using that by (simp add: five result_line_def settled_def clock_lines_def line_def)
  define os2 where "os2 = print_section ''results'' (print_settings ?kvs os)"
  have 2: "settled os2" "os_text os2 = os_text os @ concat (map setting_line ?kvs) @ section_text ''results''"
    using print_settings_text [OF os(2), of ?kvs] by (simp_all add: os2_def print_section_settled section_prints del: list.map concat.simps)
  have "clock_program h clock = ret (print_done (?r os2))"
    unfolding clock_program_def os(1) rs(1) os2_def Let_def option.case ebind_ret ..
  then show ?thesis
    using r [OF 2(1)] done_prints 2(2) os(3) rs by (simp del: list.map concat.simps write_out.simps) blast
qed

text \<open>The cycles of one kind of call, per operation and in nanoseconds.\<close>

lemma split_ns_shown:
  assumes "calibrate_tsc clock tsc cns = Some (c, d)" and "0 < c" and "0 < d"
    and "calibrate_tsc_hz clock tsc cns = Some hz"
  shows "shown 2 (of_nat (unat spent) / of_nat kNumOps * of_nat (unat d) / of_nat (unat c)) (double_text 2 (split_ns spent hz))"
proof -
  have pos: "0 < (of_nat (unat c) :: rat)" "0 < (of_nat (unat d) :: rat)" "0 < (of_nat kNumOps :: rat)"
    using assms(2,3) by (simp_all only: of_nat_0_less_iff) (simp_all add: word_less_nat_alt kNumOps_def)
  let ?hz = "of_nat (unat c) * 10 ^ 9 / of_nat (unat d) :: rat"
  have hz: "about 5 ?hz hz" using calibrate_tsc_hz_about [OF assms(1,3)] assms(4) by auto
  have "0 < ?hz" using pos by simp
  have "about (Suc (1 + 2 * 1)) (of_nat (unat spent) / of_nat kNumOps) (d_div (to_double (unat spent)) (to_double kNumOps))"
    by (intro about_div about_of_nat pos)
  from about_mul [OF about_div [OF this hz \<open>0 < ?hz\<close>] about_Fin [of 1000000000]]
  have "about (Suc (Suc (Suc (1 + 2 * 1) + 2 * 5) + 0)) (of_nat (unat spent) / of_nat kNumOps / ?hz * 1000000000) (split_ns spent hz)"
    by (simp add: split_ns_def)
  from about_shown [OF this, of 2] have "shown 2 (of_nat (unat spent) / of_nat kNumOps / ?hz * 1000000000) (double_text 2 (split_ns spent hz))"
    by simp
  moreover have "of_nat (unat spent) / of_nat kNumOps / ?hz * 1000000000 =
      of_nat (unat spent) / of_nat kNumOps * of_nat (unat d) / of_nat (unat c)"
    using pos by (simp add: field_simps)
  ultimately show ?thesis by (simp only:)
qed

section \<open>The clock script\<close>

text \<open>\<open>scripts/bench_clock.cpp\<close>: the counter around a million calls; the \<open>int\<close> becomes \<open>uint64_t\<close>.\<close>

definition clock_script :: "u64 \<Rightarrow> u64 \<Rightarrow> out list" where
  "clock_script before after = (let n = 1000000 :: u64 in
     [Str ''clock_gettime: '', Num (unat ((after - before) div n)), Str '' cycles/call'', Endl])"

end
