(* ===== verification/Program_Output.thy ===== *)
theory Program_Output
  imports Programs
begin

text \<open>
  The output of the replace and the book benchmark as a whole.  What a function on the stream
  prints is a predicate on the text it adds, so that the output of a sequence of calls is put
  together from that of each.
\<close>

section \<open>What a call prints\<close>

text \<open>From the first setting on, the stream is aligned to the left.\<close>

definition ready_stream :: "ostream \<Rightarrow> bool" where
  "ready_stream os \<longleftrightarrow> settled os \<and> os_left os"

definition prints :: "(ostream \<Rightarrow> ostream) \<Rightarrow> (string \<Rightarrow> bool) \<Rightarrow> bool" where
  "prints f P \<longleftrightarrow> (\<forall>os. ready_stream os \<longrightarrow> ready_stream (f os) \<and> (\<exists>t. P t \<and> os_text (f os) = os_text os @ t))"

lemma printsD: "prints f P \<Longrightarrow> ready_stream os \<Longrightarrow> ready_stream (f os) \<and> (\<exists>t. P t \<and> os_text (f os) = os_text os @ t)"
  by (simp add: prints_def)

definition then_text :: "(string \<Rightarrow> bool) \<Rightarrow> (string \<Rightarrow> bool) \<Rightarrow> string \<Rightarrow> bool" where
  "then_text P Q t \<longleftrightarrow> (\<exists>a b. P a \<and> Q b \<and> t = a @ b)"

text \<open>One call after another.\<close>

lemma prints_then:
  assumes "prints f P" and "prints g Q"
  shows "prints (\<lambda>os. g (f os)) (then_text P Q)"
  unfolding prints_def then_text_def
proof (intro allI impI)
  fix os assume "ready_stream os"
  from printsD [OF assms(1) this] obtain a where a: "ready_stream (f os)" "P a" "os_text (f os) = os_text os @ a" by blast
  from printsD [OF assms(2) a(1)] obtain b where "ready_stream (g (f os))" "Q b" "os_text (g (f os)) = os_text (f os) @ b" by blast
  with a show "ready_stream (g (f os)) \<and> (\<exists>t. (\<exists>a b. P a \<and> Q b \<and> t = a @ b) \<and> os_text (g (f os)) = os_text os @ t)"
    by (metis append.assoc)
qed

lemma prints_write:
  assumes "\<And>os. ready_stream os \<Longrightarrow> \<exists>t. P t \<and> os_text (write_out xs os) = os_text os @ t" and "last xs = Endl" and "xs \<noteq> []"
  shows "prints (write_out xs) P"
  using assms write_settled [OF assms(2,3)] by (auto simp: prints_def ready_stream_def write_left)

lemma prints_section: "prints (print_section title) (\<lambda>t. t = section_text title)"
  using section_prints write_left by (auto simp: prints_def ready_stream_def print_section_settled)
    (auto simp: print_section_def)

lemma prints_kv: "prints (print_kv key value) (\<lambda>t. t = setting_line (key, value))"
  using print_kv_text by (auto simp: prints_def ready_stream_def setting_line_def line_def)

lemma prints_done: "prints print_done (\<lambda>t. t = done_text)"
  using done_prints write_left by (auto simp: prints_def ready_stream_def print_done_settled) (auto simp: print_done_def)

lemma prints_line: "prints (write_out [Str s, Endl]) (\<lambda>t. t = line s)"
  by (rule prints_write) (auto simp: ready_stream_def settled_def line_def)

text \<open>A line of rates for \<open>D\<close> nanoseconds and \<open>n\<close> operations.\<close>

definition runtime_text :: "nat \<Rightarrow> nat \<Rightarrow> string \<Rightarrow> bool" where
  "runtime_text D n t \<longleftrightarrow> (\<exists>ms mops ns. t = runtime_line ms mops ns \<and>
     (if D = 0 then ms = ''0.000'' \<and> mops = ''inf'' \<and> ns = ''0.00''
      else shown 3 (of_nat D / 10 ^ 6) ms \<and> shown 2 (of_nat n * 10 ^ 3 / of_nat D) mops \<and> shown 2 (of_nat D / of_nat n) ns))"

lemma prints_runtime:
  assumes "0 < n"
  shows "prints (print_runtime (elapsed_ms (timer_reset a) b) n) (runtime_text (nat (b - a)) n)"
proof -
  have e: "elapsed_ms (timer_reset a) b = elapsed_ms (timer_reset a) (started_at (timer_reset a) + int (nat (b - a)))"
    by (simp add: elapsed_ms_def timer_reset_def)
  have "prints (print_runtime (elapsed_ms (timer_reset a) (started_at (timer_reset a) + int (nat (b - a)))) n) (runtime_text (nat (b - a)) n)"
    (is "prints (print_runtime ?e n) _")
  proof -
    obtain xs where xs: "print_runtime ?e n = write_out xs" "last xs = Endl" "xs \<noteq> []"
      by (simp add: print_runtime_def Let_def)
    show ?thesis unfolding xs(1)
    proof (rule prints_write [OF _ xs(2,3)])
      fix os assume "ready_stream os"
      then have "settled os" by (simp add: ready_stream_def)
      from runtime_printed [OF this assms, of "timer_reset a" "nat (b - a)"]
      show "\<exists>t. runtime_text (nat (b - a)) n t \<and> os_text (write_out xs os) = os_text os @ t"
        unfolding xs(1) [symmetric] runtime_text_def by blast
    qed
  qed
  then show ?thesis unfolding e .
qed

text \<open>The block of the hardware counters.\<close>

definition counters_text :: "perf_readings \<Rightarrow> nat \<Rightarrow> string \<Rightarrow> bool" where
  "counters_text pr n t \<longleftrightarrow> (let pcs = perf_counters_new (pr_open pr) in
     if pc_available (instructions pcs) then
       \<exists>ts. t = summary_text True ts \<and> list_all2 (shown 2) (summary_numbers (pr_read pr) pcs n) ts
     else t = line ''      (perf counters unavailable; check kernel.perf_event_paranoid)'')"

lemma prints_counters: "prints (print_counters pr n) (counters_text pr n)"
proof -
  let ?pcs = "perf_counters_new (pr_open pr)"
  obtain xs where xs: "print_counters pr n = write_out xs" "last xs = Endl" "xs \<noteq> []"
    by (cases "pc_available (instructions ?pcs)") (simp_all add: print_counters_def print_summary_def Let_def)
  show ?thesis unfolding xs(1)
  proof (rule prints_write [OF _ xs(2,3)])
    fix os assume os: "ready_stream os"
    show "\<exists>t. counters_text pr n t \<and> os_text (write_out xs os) = os_text os @ t"
    proof (cases "pc_available (instructions ?pcs)")
      case True
      from print_summary_text [OF _ True, of os "pr_read pr" n] os
      show ?thesis unfolding xs(1) [symmetric] using True by (auto simp: counters_text_def Let_def print_counters_def ready_stream_def)
    next
      case False
      then show ?thesis unfolding xs(1) [symmetric] using os
        by (simp add: counters_text_def Let_def print_counters_def print_summary_def ready_stream_def settled_def line_def)
    qed
  qed
qed

text \<open>A sequence of calls.\<close>

fun in_order :: "(string \<Rightarrow> bool) list \<Rightarrow> string \<Rightarrow> bool" where
  "in_order [] t \<longleftrightarrow> t = []"
| "in_order (P # Ps) t \<longleftrightarrow> (\<exists>a b. P a \<and> in_order Ps b \<and> t = a @ b)"

definition printed :: "ostream \<Rightarrow> (string \<Rightarrow> bool) list \<Rightarrow> ostream \<Rightarrow> bool" where
  "printed os Ps os' \<longleftrightarrow> ready_stream os' \<and> (\<exists>t. in_order Ps t \<and> os_text os' = os_text os @ t)"

lemma in_order_append: "in_order (Ps @ Qs) t \<longleftrightarrow> (\<exists>a b. in_order Ps a \<and> in_order Qs b \<and> t = a @ b)"
proof (induction Ps arbitrary: t)
  case (Cons P Ps)
  show ?case
  proof
    assume "in_order ((P # Ps) @ Qs) t"
    then obtain a b c where "P a" "in_order Ps b" "in_order Qs c" "t = a @ b @ c" using Cons.IH by auto
    then have "in_order (P # Ps) (a @ b) \<and> in_order Qs c \<and> t = (a @ b) @ c" by auto
    then show "\<exists>a b. in_order (P # Ps) a \<and> in_order Qs b \<and> t = a @ b" by blast
  next
    assume "\<exists>a b. in_order (P # Ps) a \<and> in_order Qs b \<and> t = a @ b"
    then obtain a b c where "P a" "in_order Ps b" "in_order Qs c" "t = a @ b @ c" by auto
    then show "in_order ((P # Ps) @ Qs) t" using Cons.IH by auto
  qed
qed simp

lemma printed_start: "ready_stream os \<Longrightarrow> Ps = [] \<Longrightarrow> printed os Ps os"
  by (simp add: printed_def)

lemma printed_step:
  assumes "printed os Ps os1" and "prints f Q"
  shows "printed os (Ps @ [Q]) (f os1)"
proof -
  obtain a where a: "ready_stream os1" "in_order Ps a" "os_text os1 = os_text os @ a" using assms(1) by (auto simp: printed_def)
  from printsD [OF assms(2) a(1)] obtain b where "ready_stream (f os1)" "Q b" "os_text (f os1) = os_text os1 @ b" by blast
  moreover from this have "in_order (Ps @ [Q]) (a @ b)" using a(2) by (auto simp: in_order_append)
  ultimately show ?thesis using a(3) by (auto simp: printed_def)
qed

text \<open>The last call, for a list of texts that is given.\<close>

lemma printed_last:
  assumes "prints f Q" and "printed os (butlast Ps) os1" and "Ps \<noteq> []" and "last Ps = Q"
  shows "printed os Ps (f os1)"
  using printed_step [OF assms(2,1)] assms(3,4) by auto

lemma printed_steps:
  assumes "printed os Ps os1" and "\<And>os. ready_stream os \<Longrightarrow> printed os Qs (f os)"
  shows "printed os (Ps @ Qs) (f os1)"
proof -
  obtain a where a: "ready_stream os1" "in_order Ps a" "os_text os1 = os_text os @ a" using assms(1) by (auto simp: printed_def)
  from assms(2) [OF a(1)] obtain b where "ready_stream (f os1)" "in_order Qs b" "os_text (f os1) = os_text os1 @ b"
    by (auto simp: printed_def)
  with a show ?thesis by (auto simp: printed_def in_order_append)
qed

section \<open>The book benchmark\<close>

text \<open>The text of each scenario.\<close>

definition sparse_texts :: "string \<Rightarrow> (nat \<Rightarrow> int) \<Rightarrow> perf_readings \<Rightarrow> (string \<Rightarrow> bool) list" where
  "sparse_texts name now pr =
     [\<lambda>t. t = section_text (''scenario 1 / sparse insert + sweep / '' @ name),
      \<lambda>t. t = setting_line (''setup'', decimal kSparseLevels @ '' price levels x '' @ decimal kSparseOrdersPerLevel @
        '' orders x '' @ decimal kSparseRounds @ '' rounds, then 1 sweeping order''),
      \<lambda>t. t = line ''  -- insert phase'', runtime_text (nat (now 1 - now 0)) total_inserted,
      \<lambda>t. t = line ''  -- match sweep phase'', runtime_text (nat (now 3 - now 2)) total_inserted,
      counters_text pr total_inserted]"

definition wide_texts :: "string \<Rightarrow> (nat \<Rightarrow> int) \<Rightarrow> perf_readings \<Rightarrow> (string \<Rightarrow> bool) list" where
  "wide_texts name now pr =
     [\<lambda>t. t = section_text (''scenario 2 / wide spread / '' @ name),
      \<lambda>t. t = setting_line (''setup'', decimal kWideOrders @ '' asks at top, then '' @ decimal kWideOrders @
        '' buys crossing 1-by-1''),
      \<lambda>t. t = line ''  -- insert phase'', runtime_text (nat (now 1 - now 0)) kWideOrders,
      \<lambda>t. t = line ''  -- match phase'', runtime_text (nat (now 3 - now 2)) kWideOrders,
      counters_text pr kWideOrders]"

definition churn_texts :: "string \<Rightarrow> (nat \<Rightarrow> int) \<Rightarrow> perf_readings \<Rightarrow> (string \<Rightarrow> bool) list" where
  "churn_texts name now pr =
     [\<lambda>t. t = section_text (''scenario 3 / mixed churn / '' @ name),
      \<lambda>t. t = setting_line (''setup'', decimal kChurnOps @ '' ops, 70% submit / 20% cancel / 10% aggressive marketable''),
      runtime_text (nat (now 1 - now 0)) kChurnOps, counters_text pr kChurnOps]"

lemma counts_positive: "0 < total_inserted" "0 < kWideOrders" "0 < kChurnOps" "0 < kNumOps"
  by (simp_all add: total_inserted_def kSparseRounds_def kSparseLevels_def kSparseOrdersPerLevel_def kWideOrders_def
      kChurnOps_def kNumOps_def)

lemmas prints_calls = prints_section prints_kv prints_line prints_counters prints_done prints_runtime [OF counts_positive(1)]
  prints_runtime [OF counts_positive(2)] prints_runtime [OF counts_positive(3)] prints_runtime [OF counts_positive(4)]

lemmas printed_calls = prints_calls [THEN printed_last]

lemma sparse_printed: "ready_stream os \<Longrightarrow> printed os (sparse_texts name now pr) (sparse_output name now pr os)"
  unfolding sparse_output_def Let_def by (intro printed_calls printed_start; simp add: sparse_texts_def)

lemma wide_printed: "ready_stream os \<Longrightarrow> printed os (wide_texts name now pr) (wide_output name now pr os)"
  unfolding wide_output_def Let_def by (intro printed_calls printed_start; simp add: wide_texts_def)

lemma churn_printed: "ready_stream os \<Longrightarrow> printed os (churn_texts name now pr) (churn_output name now pr os)"
  unfolding churn_output_def Let_def by (intro printed_calls printed_start; simp add: churn_texts_def)

text \<open>
  The first four scenarios return, and with them the output is settled but for the outcome of the
  two churns.
\<close>

lemma settings_ready:
  assumes "settled os"
  shows "ready_stream (print_settings (kv # kvs) os)"
    and "os_text (print_settings (kv # kvs) os) = os_text os @ concat (map setting_line (kv # kvs))"
proof -
  have "ready_stream os \<Longrightarrow> ready_stream (print_settings kvs os)" for os
  proof (induction kvs arbitrary: os)
    case (Cons kv kvs)
    then show ?case using printsD [OF prints_kv, of os "fst kv" "snd kv"] by (simp add: print_settings_def split_beta)
  qed (simp add: print_settings_def)
  from this [of "print_kv (fst kv) (snd kv) os"] print_kv_text [OF assms]
  show "ready_stream (print_settings (kv # kvs) os)" by (simp add: print_settings_def split_beta ready_stream_def)
qed (use print_settings_text [OF assms] in blast)

definition book_settings :: "(string \<times> string) list" where
  "book_settings = [(''max prices'', decimal MAX_PRICES), (''max orders'', decimal kMaxOrders)]"

definition book_texts :: "(nat \<Rightarrow> nat \<Rightarrow> int) \<Rightarrow> (nat \<Rightarrow> perf_readings) \<Rightarrow> (string \<Rightarrow> bool) list" where
  "book_texts now pr =
     sparse_texts fast_name (now 0) (pr 0) @ sparse_texts bitset_name (now 1) (pr 1) @
     wide_texts fast_name (now 2) (pr 2) @ wide_texts bitset_name (now 3) (pr 3) @
     churn_texts fast_name (now 4) (pr 4) @ churn_texts bitset_name (now 5) (pr 5) @ [\<lambda>t. t = done_text]"

lemma book_program_prints:
  assumes "calibrates (h_clock h)" and f: "array_shaped f" and b: "array_shaped b"
  shows "\<exists>f' b' os ghz t. array_shaped f' \<and> array_shaped b' \<and>
    book_program h now pr draw price_dist seeded f b =
      ebind (scenario_churn fast_ops draw price_dist seeded f') (\<lambda>_.
      ebind (scenario_churn bitset_ops draw price_dist seeded b') (\<lambda>_. ret os)) \<and>
    os_text os = banner_text h ''FastBook vs BitsetBook'' ghz @ concat (map setting_line book_settings) @ t \<and>
    in_order (book_texts now pr) t"
proof -
  obtain c d where "calibrate_tsc (h_clock h) (h_tsc h) 50000000 = Some (c, d)" "50000000 \<le> d"
    using calibrates_returns [OF assms(1)] by blast
  from banner_prints [OF this new_stream_simps(1)] obtain os ghz where
    os: "print_environment_banner h ''FastBook vs BitsetBook'' new_stream = Some os" "settled os"
      "os_text os = banner_text h ''FastBook vs BitsetBook'' ghz" by fastforce
  obtain f1 where f1: "scenario_sparse fast_ops f = ret f1" "array_shaped f1"
    using fast_bench.sparse_empties [OF f] refines_shaped by (auto simp: returns_def)
  obtain b1 where b1: "scenario_sparse bitset_ops b = ret b1" "array_shaped b1"
    using bitset_bench.sparse_empties [OF b] bitset_refines_shaped by (auto simp: returns_def)
  obtain f2 where f2: "scenario_wide fast_ops f1 = ret f2" "array_shaped f2"
    using fast_bench.wide_empties [OF f1(2)] refines_shaped by (auto simp: returns_def)
  obtain b2 where b2: "scenario_wide bitset_ops b1 = ret b2" "array_shaped b2"
    using bitset_bench.wide_empties [OF b1(2)] bitset_refines_shaped by (auto simp: returns_def)
  let ?os0 = "print_settings book_settings os"
  have start: "ready_stream ?os0" "os_text ?os0 = os_text os @ concat (map setting_line book_settings)"
    using settings_ready [OF os(2)] unfolding book_settings_def by blast+
  let ?last = "print_done (churn_output bitset_name (now 5) (pr 5) (churn_output fast_name (now 4) (pr 4)
    (wide_output bitset_name (now 3) (pr 3) (wide_output fast_name (now 2) (pr 2)
    (sparse_output bitset_name (now 1) (pr 1) (sparse_output fast_name (now 0) (pr 0) ?os0))))))"
  have "printed ?os0 (((((((sparse_texts fast_name (now 0) (pr 0)) @ sparse_texts bitset_name (now 1) (pr 1)) @
      wide_texts fast_name (now 2) (pr 2)) @ wide_texts bitset_name (now 3) (pr 3)) @
      churn_texts fast_name (now 4) (pr 4)) @ churn_texts bitset_name (now 5) (pr 5)) @ [\<lambda>t. t = done_text]) ?last"
    by (rule printed_step [OF _ prints_done], rule printed_steps [OF _ churn_printed], rule printed_steps [OF _ churn_printed],
        rule printed_steps [OF _ wide_printed], rule printed_steps [OF _ wide_printed],
        rule printed_steps [OF _ sparse_printed]) (rule sparse_printed [OF start(1)])
  then obtain t where t: "in_order (book_texts now pr) t" "os_text ?last = os_text ?os0 @ t"
    by (auto simp: printed_def book_texts_def)
  have "book_program h now pr draw price_dist seeded f b =
      ebind (scenario_churn fast_ops draw price_dist seeded f2) (\<lambda>_.
      ebind (scenario_churn bitset_ops draw price_dist seeded b2) (\<lambda>_. ret ?last))"
    unfolding book_program_def os(1) option.case Let_def f1(1) b1(1) f2(1) b2(1) ebind_ret book_settings_def ..
  then show ?thesis using f2(2) b2(2) t os(3) start(2) by (intro exI conjI) auto
qed

section \<open>The replace benchmark\<close>

definition replace_settings :: "(string \<times> string) list" where
  "replace_settings = [(''max prices'', decimal MAX_PRICES), (''max orders'', decimal kReplaceMaxOrders),
     (''live orders'', decimal kLiveOrders), (''operations'', decimal kNumOps), (''rng seed'', decimal kRngSeed)]"

definition split_text :: "string \<Rightarrow> u64 \<Rightarrow> u64 \<times> u64 \<Rightarrow> string \<Rightarrow> bool" where
  "split_text label spent cal t \<longleftrightarrow> (\<exists>ns. t = line (label @ column True 8 ns @ '' ns/op  (rdtsc split)'') \<and>
     (fst cal = 0 \<or> shown 2 (of_nat (unat spent) / of_nat kNumOps * of_nat (unat (snd cal)) / of_nat (unat (fst cal))) ns))"

definition replace_texts :: "(nat \<Rightarrow> nat \<Rightarrow> int) \<Rightarrow> (nat \<Rightarrow> perf_readings) \<Rightarrow> (nat \<Rightarrow> u64) \<Rightarrow> u64 \<times> u64 \<Rightarrow> (string \<Rightarrow> bool) list" where
  "replace_texts now pr tsc cal =
     [\<lambda>t. t = section_text ''scenario A / native replace'', runtime_text (nat (now 0 1 - now 0 0)) kNumOps,
      counters_text (pr 0) kNumOps, \<lambda>t. t = section_text ''scenario B / cancel + submit'',
      runtime_text (nat (now 1 1 - now 1 0)) kNumOps, counters_text (pr 1) kNumOps,
      then_text (split_text ''      cancel        '' (cycles_total tsc 0) cal)
        (split_text ''      submit        '' (cycles_total tsc 1) cal),
      \<lambda>t. t = done_text]"

lemma prints_split:
  assumes "calibrate_tsc clock ctsc cns = Some (c, d)" and "0 < d" and "calibrate_tsc_hz clock ctsc cns = Some hz"
  shows "prints (write_out (SetPrecision 2 # split_line m1 (split_ns s1 hz) @ split_line m2 (split_ns s2 hz)))
    (then_text (split_text m1 s1 (c, d)) (split_text m2 s2 (c, d)))"
proof (rule prints_write)
  fix os assume os: "ready_stream os"
  have s: "split_text l s (c, d) (line (l @ column True 8 (double_text 2 (split_ns s hz)) @ '' ns/op  (rdtsc split)''))" for l s
    using split_ns_shown [OF assms(1) _ assms(2,3), of s] word_gt_0 unfolding split_text_def by fastforce
  show "\<exists>t. then_text (split_text m1 s1 (c, d)) (split_text m2 s2 (c, d)) t \<and>
      os_text (write_out (SetPrecision 2 # split_line m1 (split_ns s1 hz) @ split_line m2 (split_ns s2 hz)) os) = os_text os @ t"
    unfolding then_text_def using s [of m1 s1] s [of m2 s2] os
    by (intro exI conjI) (assumption | rule refl |
      simp add: split_line_def ready_stream_def settled_def padded_column line_def)+
qed (simp_all add: split_line_def)

lemma replace_program_prints:
  assumes "uniform_in_bounds R" and "array_shaped b" and "calibrates (h_clock h)" and "calibrates (fst cal)"
  shows "returns (replace_program h cal now pr tsc R mt19937 b) (\<lambda>os. \<exists>ghz c d t.
    calibrate_tsc (fst cal) (snd cal) 50000000 = Some (c, d) \<and>
    os_text os = banner_text h ''replace_order vs cancel + submit'' ghz @ concat (map setting_line replace_settings) @ t \<and>
    in_order (replace_texts now pr tsc (c, d)) t)"
proof -
  obtain c d where "calibrate_tsc (h_clock h) (h_tsc h) 50000000 = Some (c, d)" "50000000 \<le> d"
    using calibrates_returns [OF assms(3)] by blast
  from banner_prints [OF this new_stream_simps(1)] obtain os ghz where
    os: "print_environment_banner h ''replace_order vs cancel + submit'' new_stream = Some os" "settled os"
      "os_text os = banner_text h ''replace_order vs cancel + submit'' ghz" by fastforce
  obtain c d where c: "calibrate_tsc (fst cal) (snd cal) 50000000 = Some (c, d)" "50000000 \<le> d"
    using calibrates_returns [OF assms(4)] by blast
  then have d: "0 < d" by (auto simp: word_le_nat_alt word_less_nat_alt)
  from c obtain hz where hz: "calibrate_tsc_hz (fst cal) (snd cal) 50000000 = Some hz"
    by (auto simp: calibrate_tsc_hz_def)
  obtain bs where bs: "replace_main R (mt19937 kRngSeed) (mt19937 (kRngSeed + 1)) b = ret bs"
    using replace_main_returns [OF assms(1,2), of "mt19937 kRngSeed" "mt19937 (kRngSeed + 1)"] unfolding returns_def by blast
  have start: "ready_stream (print_settings replace_settings os)"
    "os_text (print_settings replace_settings os) = os_text os @ concat (map setting_line replace_settings)"
    using settings_ready [OF os(2)] unfolding replace_settings_def by blast+
  have "\<exists>os'. replace_program h cal now pr tsc R mt19937 b = ret os' \<and>
      printed (print_settings replace_settings os) (replace_texts now pr tsc (c, d)) os'"
    unfolding replace_program_def os(1) option.case Let_def hz bs ebind_ret replace_settings_def [symmetric]
    by (rule exI, rule conjI, rule refl, rule prints_done [THEN printed_last], rule prints_split [OF c(1) d hz, THEN printed_last])
      (intro printed_calls printed_start start(1), simp_all add: replace_texts_def)
  then obtain os' t where "replace_program h cal now pr tsc R mt19937 b = ret os'"
    "in_order (replace_texts now pr tsc (c, d)) t" "os_text os' = os_text os @ concat (map setting_line replace_settings) @ t"
    using start(2) by (auto simp: printed_def)
  then show ?thesis using c(1) os(3) by auto
qed

end
