(* ===== verification/Server_Threads.thy ===== *)
theory Server_Threads
  imports Server
begin

text \<open>
  The three threads of \<open>src/server.cpp\<close>: the main thread in \<open>run\<close>, the engine's thread
  (\<open>MatchingEngine::start\<close>, \<open>run\<close>, \<open>stop\<close>) and the network thread (\<open>wait_until_ready\<close>, the
  pushes and the pacing), over any of the three queues.  A step moves one thread to its next
  access of the queue, of the clock or of \<open>ready_\<close>; what a thread does alone in between (an
  operation of the book, the report) is one step.

  The clock is a parameter: \<open>reads t u\<close> says that after a reading \<open>t\<close> the next one, in whatever
  thread, may be \<open>u\<close>.
\<close>

section \<open>State\<close>

datatype main_pc =
    MainStart          \<comment> \<open>before \<open>engine.start\<close>\<close>
  | MainSpawn          \<comment> \<open>building the workload, before the network thread\<close>
  | MainJoinNet
  | MainStop           \<comment> \<open>in \<open>queue_.push\<close> of \<open>stop\<close>\<close>
  | MainJoinEngine
  | MainFinish         \<comment> \<open>dump and report\<close>
  | MainDone "(bool \<times> string list \<times> u64 list) exec"

datatype net_pc =
    NetOff
  | NetWait "OrderMessage list"                \<comment> \<open>\<open>wait_until_ready\<close>; the messages to send\<close>
  | NetNext "OrderMessage list"                \<comment> \<open>the head of the loop\<close>
  | NetPush OrderMessage "OrderMessage list"   \<comment> \<open>in \<open>queue.push\<close>\<close>
  | NetPace (wait_until: u64) "OrderMessage list"
  | NetDone

datatype eng_pc =
    EngOff
  | EngInit
  | EngReady                                   \<comment> \<open>before the store to \<open>ready_\<close>\<close>
  | EngPop                                     \<comment> \<open>in \<open>queue_.pop\<close>\<close>
  | EngGot OrderMessage
  | EngMatch OrderMessage (ts_pop: timespec)
  | EngRecord OrderMessage (ts_pop: timespec)
  | EngDone
  | EngFault fault

record 'q server =
  s_queue :: 'q
  s_engine :: engine
  s_main :: main_pc
  s_net :: net_pc
  s_eng :: eng_pc
  s_now :: timespec    \<comment> \<open>the last reading of the clock\<close>

definition server_start :: "'q \<Rightarrow> bitset_book \<Rightarrow> timespec \<Rightarrow> 'q server" where
  "server_start q b t = \<lparr>s_queue = q, s_engine = new_engine b, s_main = MainStart, s_net = NetOff,
     s_eng = EngOff, s_now = t\<rparr>"

section \<open>Steps\<close>

text \<open>
  \<open>v\<close> chooses what a load in the queue returns, \<open>ts\<close> is the reading of the clock, \<open>r\<close> the value
  that the load of \<open>ready_\<close> returns: before the store it is false, after it either.
\<close>

text \<open>\<open>wait_until_ready\<close> with messages to send after it.\<close>

definition wait_until_ready :: "bool \<Rightarrow> OrderMessage list \<Rightarrow> net_pc" where
  "wait_until_ready r ms = (if r then NetNext ms else NetWait ms)"

definition net_step :: "(OrderMessage, 'q) queue_ops \<Rightarrow> Args \<Rightarrow> nat \<Rightarrow> timespec \<Rightarrow> bool \<Rightarrow> 'q server \<Rightarrow> 'q server" where
  "net_step ops args v ts r s = (case s_net s of
     NetOff \<Rightarrow> s
   | NetWait ms \<Rightarrow> s\<lparr>s_net := wait_until_ready r ms\<rparr>
   | NetNext [] \<Rightarrow> s\<lparr>s_net := NetDone\<rparr>
   | NetNext (m # ms) \<Rightarrow> s\<lparr>s_now := ts, s_net := NetPush (m\<lparr>m_timestamp := now_ns ts\<rparr>) ms\<rparr>
   | NetPush m ms \<Rightarrow>
       let q = qo_push ops m v (s_queue s) in
       s\<lparr>s_queue := q,
         s_net := if qo_pushing ops q then NetPush m ms else NetPace (m_timestamp m + pacing_ns args) ms\<rparr>
   | NetPace w ms \<Rightarrow> s\<lparr>s_now := ts, s_net := if w \<le> now_ns ts then NetNext ms else NetPace w ms\<rparr>
   | NetDone \<Rightarrow> s)"

definition engine_step :: "(OrderMessage, 'q) queue_ops \<Rightarrow> nat \<Rightarrow> timespec \<Rightarrow> 'q server \<Rightarrow> 'q server" where
  "engine_step ops v ts s = (let e = s_engine s in case s_eng s of
     EngOff \<Rightarrow> s
   | EngInit \<Rightarrow> (case init (e_book e) kBookOrders of
         None \<Rightarrow> s
       | Some (Inl f) \<Rightarrow> s\<lparr>s_eng := EngFault f\<rparr>
       | Some (Inr b) \<Rightarrow> s\<lparr>s_engine := e\<lparr>e_book := b\<rparr>, s_eng := EngReady\<rparr>)
   | EngReady \<Rightarrow> s\<lparr>s_engine := e\<lparr>ready := True\<rparr>, s_eng := EngPop\<rparr>
   | EngPop \<Rightarrow>
       let q = qo_pop ops v (s_queue s) in
       s\<lparr>s_queue := q, s_eng := if qo_popping ops q then EngPop else EngGot (last (qo_received ops q))\<rparr>
   | EngGot m \<Rightarrow>
       if m_type m = SHUTDOWN then s\<lparr>s_eng := EngDone\<rparr> else s\<lparr>s_now := ts, s_eng := EngMatch m ts\<rparr>
   | EngMatch m tp \<Rightarrow> (case handle_message m (e_book e) of
         None \<Rightarrow> s
       | Some (Inl f) \<Rightarrow> s\<lparr>s_eng := EngFault f\<rparr>
       | Some (Inr b) \<Rightarrow> s\<lparr>s_engine := e\<lparr>e_book := b\<rparr>, s_eng := EngRecord m tp\<rparr>)
   | EngRecord m tp \<Rightarrow> s\<lparr>s_now := ts, s_engine := record_latencies tp ts m e, s_eng := EngPop\<rparr>
   | EngDone \<Rightarrow> s
   | EngFault f \<Rightarrow> s)"

text \<open>\<open>start\<close> spawns the engine's thread; \<open>stop\<close> pushes the shutdown message and joins it.\<close>

definition engine_start :: "'q server \<Rightarrow> 'q server" where
  "engine_start s = s\<lparr>s_eng := EngInit, s_main := MainSpawn\<rparr>"

definition engine_stop :: "(OrderMessage, 'q) queue_ops \<Rightarrow> nat \<Rightarrow> 'q server \<Rightarrow> 'q server" where
  "engine_stop ops v s = (case s_main s of
     MainStop \<Rightarrow>
       let q = qo_push ops shutdown_message v (s_queue s) in
       s\<lparr>s_queue := q, s_main := if qo_pushing ops q then MainStop else MainJoinEngine\<rparr>
   | MainJoinEngine \<Rightarrow> (case s_eng s of EngDone \<Rightarrow> s\<lparr>s_main := MainFinish\<rparr> | _ \<Rightarrow> s)
   | _ \<Rightarrow> s)"

definition main_step :: "(OrderMessage, 'q) queue_ops \<Rightarrow> (string \<Rightarrow> bool) \<Rightarrow> Args \<Rightarrow> nat \<Rightarrow> 'q server \<Rightarrow> 'q server" where
  "main_step ops writable args v s = (case s_main s of
     MainStart \<Rightarrow> engine_start s
   | MainSpawn \<Rightarrow> s\<lparr>s_net := NetWait (build_workload args), s_main := MainJoinNet\<rparr>
   | MainJoinNet \<Rightarrow> (case s_net s of NetDone \<Rightarrow> s\<lparr>s_main := MainStop\<rparr> | _ \<Rightarrow> s)
   | MainStop \<Rightarrow> engine_stop ops v s
   | MainJoinEngine \<Rightarrow> engine_stop ops v s
   | MainFinish \<Rightarrow> s\<lparr>s_main := MainDone (finish_run writable args (s_engine s))\<rparr>
   | MainDone r \<Rightarrow> s)"

inductive server_step ::
  "(OrderMessage, 'q) queue_ops \<Rightarrow> (timespec \<Rightarrow> timespec \<Rightarrow> bool) \<Rightarrow> (string \<Rightarrow> bool) \<Rightarrow> Args \<Rightarrow>
    'q server \<Rightarrow> 'q server \<Rightarrow> bool" for ops reads writable args where
  net_moves: "qo_push_can ops v (s_queue s) \<Longrightarrow> reads (s_now s) ts \<Longrightarrow> r \<longrightarrow> ready (s_engine s) \<Longrightarrow>
    server_step ops reads writable args s (net_step ops args v ts r s)"
| engine_moves: "qo_pop_can ops v (s_queue s) \<Longrightarrow> reads (s_now s) ts \<Longrightarrow>
    server_step ops reads writable args s (engine_step ops v ts s)"
| main_moves: "qo_push_can ops v (s_queue s) \<Longrightarrow>
    server_step ops reads writable args s (main_step ops writable args v s)"
| consumer_wakes: "server_step ops reads writable args s (s\<lparr>s_queue := qo_wake ops (s_queue s)\<rparr>)"

lemmas net_step_defs = net_step_def wait_until_ready_def

lemmas main_step_defs = main_step_def engine_start_def engine_stop_def

text \<open>What the documentation of \<open>CLOCK_MONOTONIC_RAW\<close> says, and that time passes.\<close>

definition monotone_clock :: "(timespec \<Rightarrow> timespec \<Rightarrow> bool) \<Rightarrow> bool" where
  "monotone_clock reads \<longleftrightarrow> (\<forall>t u. reads t u \<longrightarrow> now_ns t \<le> now_ns u)"

definition running_clock :: "(timespec \<Rightarrow> timespec \<Rightarrow> bool) \<Rightarrow> bool" where
  "running_clock reads \<longleftrightarrow> (\<forall>t w. \<exists>u. reads t u \<and> w \<le> now_ns u)"

section \<open>The invariant\<close>

text \<open>What is still to be pushed, by the network thread and by \<open>stop\<close>.\<close>

definition net_left :: "(OrderMessage, 'q) queue_ops \<Rightarrow> Args \<Rightarrow> 'q server \<Rightarrow> OrderMessage list" where
  "net_left ops args s = (case s_net s of
     NetOff \<Rightarrow> build_workload args
   | NetWait ms \<Rightarrow> ms
   | NetNext ms \<Rightarrow> ms
   | NetPush m ms \<Rightarrow> if qo_pushing ops (s_queue s) then ms else m # ms
   | NetPace w ms \<Rightarrow> ms
   | NetDone \<Rightarrow> [])"

definition main_left :: "(OrderMessage, 'q) queue_ops \<Rightarrow> 'q server \<Rightarrow> OrderMessage list" where
  "main_left ops s = (case s_main s of
     MainStop \<Rightarrow> if qo_pushing ops (s_queue s) then [] else [shutdown_message]
   | MainJoinEngine \<Rightarrow> []
   | MainFinish \<Rightarrow> []
   | MainDone r \<Rightarrow> []
   | _ \<Rightarrow> [shutdown_message])"

lemma net_left_cong:
  assumes "qo_pushing ops (s_queue t) = qo_pushing ops (s_queue s)" and "s_net t = s_net s"
  shows "net_left ops args t = net_left ops args s"
  using assms by (cases "s_net s") (simp_all add: net_left_def)

lemma main_left_cong:
  assumes "qo_pushing ops (s_queue t) = qo_pushing ops (s_queue s)" and "s_main t = s_main s"
  shows "main_left ops t = main_left ops s"
  using assms by (cases "s_main s") (simp_all add: main_left_def)

lemma left_upd [simp]:
  "net_left ops args (s\<lparr>s_main := x\<rparr>) = net_left ops args s" "main_left ops (s\<lparr>s_net := y\<rparr>) = main_left ops s"
  "net_left ops args (s\<lparr>s_now := u\<rparr>) = net_left ops args s" "main_left ops (s\<lparr>s_now := u\<rparr>) = main_left ops s"
  "net_left ops args (s\<lparr>s_eng := z\<rparr>) = net_left ops args s" "main_left ops (s\<lparr>s_eng := z\<rparr>) = main_left ops s"
  by (rule net_left_cong main_left_cong; simp)+

lemma net_left_simps:
  "s_net s = NetOff \<Longrightarrow> net_left ops args s = build_workload args" "s_net s = NetWait ms \<Longrightarrow> net_left ops args s = ms"
  "s_net s = NetNext ms \<Longrightarrow> net_left ops args s = ms" "s_net s = NetPace w ms \<Longrightarrow> net_left ops args s = ms"
  "s_net s = NetPush m ms \<Longrightarrow> net_left ops args s = (if qo_pushing ops (s_queue s) then ms else m # ms)"
  "s_net s = NetDone \<Longrightarrow> net_left ops args s = []"
  by (simp_all add: net_left_def)

lemma main_left_simps:
  "s_main s = MainStart \<Longrightarrow> main_left ops s = [shutdown_message]" "s_main s = MainSpawn \<Longrightarrow> main_left ops s = [shutdown_message]"
  "s_main s = MainJoinNet \<Longrightarrow> main_left ops s = [shutdown_message]"
  "s_main s = MainStop \<Longrightarrow> main_left ops s = (if qo_pushing ops (s_queue s) then [] else [shutdown_message])"
  "s_main s = MainJoinEngine \<Longrightarrow> main_left ops s = []" "s_main s = MainFinish \<Longrightarrow> main_left ops s = []"
  "s_main s = MainDone x \<Longrightarrow> main_left ops s = []"
  by (simp_all add: main_left_def)

lemmas left_simps = net_left_simps main_left_simps

definition net_joined :: "main_pc \<Rightarrow> bool" where
  "net_joined m = (case m of MainStart \<Rightarrow> False | MainSpawn \<Rightarrow> False | MainJoinNet \<Rightarrow> False | _ \<Rightarrow> True)"

definition engine_joined :: "main_pc \<Rightarrow> bool" where
  "engine_joined m = (case m of MainFinish \<Rightarrow> True | MainDone r \<Rightarrow> True | _ \<Rightarrow> False)"

lemma joined_simps [simp]:
  "\<not> net_joined MainStart" "\<not> net_joined MainSpawn" "\<not> net_joined MainJoinNet" "net_joined MainStop"
  "net_joined MainJoinEngine" "net_joined MainFinish" "net_joined (MainDone r)"
  "\<not> engine_joined MainStart" "\<not> engine_joined MainSpawn" "\<not> engine_joined MainJoinNet" "\<not> engine_joined MainStop"
  "\<not> engine_joined MainJoinEngine" "engine_joined MainFinish" "engine_joined (MainDone r)"
  by (simp_all add: net_joined_def engine_joined_def)

text \<open>Who runs when, and who is inside the queue.\<close>

definition control_ok :: "(OrderMessage, 'q) queue_ops \<Rightarrow> (string \<Rightarrow> bool) \<Rightarrow> Args \<Rightarrow> 'q server \<Rightarrow> bool" where
  "control_ok ops writable args s \<longleftrightarrow>
     (s_eng s = EngOff \<longleftrightarrow> s_main s = MainStart) \<and>
     (s_net s = NetOff \<longleftrightarrow> s_main s = MainStart \<or> s_main s = MainSpawn) \<and>
     (net_joined (s_main s) \<longrightarrow> s_net s = NetDone) \<and>
     (engine_joined (s_main s) \<longrightarrow> s_eng s = EngDone) \<and>
     (qo_pushing ops (s_queue s) \<longrightarrow> s_main s = MainStop \<or> (\<exists>m ms. s_net s = NetPush m ms)) \<and>
     (qo_popping ops (s_queue s) \<longrightarrow> s_eng s = EngPop) \<and>
     (\<forall>r. s_main s = MainDone r \<longrightarrow> r = finish_run writable args (s_engine s))"

text \<open>What has been pushed and what is left make up the stamped workload and the shutdown message.\<close>

definition messages_ok ::
  "(OrderMessage, 'q) queue_ops \<Rightarrow> Args \<Rightarrow> ('q \<Rightarrow> OrderMessage list) \<Rightarrow> 'q server \<Rightarrow> bool" where
  "messages_ok ops args begun s \<longleftrightarrow> (\<exists>sent. map unstamped sent = map unstamped (build_workload args) \<and>
     begun (s_queue s) @ net_left ops args s @ main_left ops s = sent @ [shutdown_message])"

text \<open>
  The engine is where the loop of \<open>Matching_Engine\<close> is after the messages received, for some
  clock: the last of them may still be in its hands.
\<close>

definition engine_ok :: "bitset_book \<Rightarrow> OrderMessage list \<Rightarrow> 'q server \<Rightarrow> bool" where
  "engine_ok b rs s = (let e = s_engine s in case s_eng s of
     EngOff \<Rightarrow> rs = [] \<and> e = new_engine b
   | EngInit \<Rightarrow> rs = [] \<and> e = new_engine b
   | EngReady \<Rightarrow> rs = [] \<and> (\<exists>b'. init b kBookOrders = ret b' \<and> e = (new_engine b)\<lparr>e_book := b'\<rparr>)
   | EngPop \<Rightarrow> \<exists>clock. engine_run clock kBookOrders rs (new_engine b) = ret (e, False)
   | EngGot m \<Rightarrow> \<exists>clock ms. rs = ms @ [m] \<and> engine_run clock kBookOrders ms (new_engine b) = ret (e, False)
   | EngMatch m tp \<Rightarrow> \<exists>clock ms. rs = ms @ [m] \<and> m_type m \<noteq> SHUTDOWN \<and>
       engine_run clock kBookOrders ms (new_engine b) = ret (e, False)
   | EngRecord m tp \<Rightarrow> \<exists>clock ms e0 b'. rs = ms @ [m] \<and> m_type m \<noteq> SHUTDOWN \<and>
       engine_run clock kBookOrders ms (new_engine b) = ret (e0, False) \<and>
       handle_message m (e_book e0) = ret b' \<and> e = e0\<lparr>e_book := b'\<rparr>
   | EngDone \<Rightarrow> \<exists>clock. engine_run clock kBookOrders rs (new_engine b) = ret (e, True)
   | EngFault f \<Rightarrow> False)"

lemma engine_ok_simps:
  "s_eng s = EngOff \<Longrightarrow> engine_ok b rs s \<longleftrightarrow> rs = [] \<and> s_engine s = new_engine b"
  "s_eng s = EngInit \<Longrightarrow> engine_ok b rs s \<longleftrightarrow> rs = [] \<and> s_engine s = new_engine b"
  "s_eng s = EngReady \<Longrightarrow> engine_ok b rs s \<longleftrightarrow>
     rs = [] \<and> (\<exists>b'. init b kBookOrders = ret b' \<and> s_engine s = (new_engine b)\<lparr>e_book := b'\<rparr>)"
  "s_eng s = EngPop \<Longrightarrow> engine_ok b rs s \<longleftrightarrow>
     (\<exists>clock. engine_run clock kBookOrders rs (new_engine b) = ret (s_engine s, False))"
  "s_eng s = EngGot m \<Longrightarrow> engine_ok b rs s \<longleftrightarrow>
     (\<exists>clock ms. rs = ms @ [m] \<and> engine_run clock kBookOrders ms (new_engine b) = ret (s_engine s, False))"
  "s_eng s = EngMatch m tp \<Longrightarrow> engine_ok b rs s \<longleftrightarrow> (\<exists>clock ms. rs = ms @ [m] \<and> m_type m \<noteq> SHUTDOWN \<and>
     engine_run clock kBookOrders ms (new_engine b) = ret (s_engine s, False))"
  "s_eng s = EngRecord m tp \<Longrightarrow> engine_ok b rs s \<longleftrightarrow> (\<exists>clock ms e0 b'. rs = ms @ [m] \<and> m_type m \<noteq> SHUTDOWN \<and>
     engine_run clock kBookOrders ms (new_engine b) = ret (e0, False) \<and>
     handle_message m (e_book e0) = ret b' \<and> s_engine s = e0\<lparr>e_book := b'\<rparr>)"
  "s_eng s = EngDone \<Longrightarrow> engine_ok b rs s \<longleftrightarrow>
     (\<exists>clock. engine_run clock kBookOrders rs (new_engine b) = ret (s_engine s, True))"
  "s_eng s = EngFault f \<Longrightarrow> \<not> engine_ok b rs s"
  by (simp_all add: engine_ok_def)

text \<open>
  Readings and stamps.  The latencies are the true differences: a stamp and a latency add up to
  a reading that has been made, without wrapping.
\<close>

fun net_hand :: "net_pc \<Rightarrow> OrderMessage list" where
  "net_hand (NetPush m ms) = [m]"
| "net_hand _ = []"

fun engine_hand :: "eng_pc \<Rightarrow> (OrderMessage \<times> timespec) list" where
  "engine_hand (EngMatch m tp) = [(m, tp)]"
| "engine_hand (EngRecord m tp) = [(m, tp)]"
| "engine_hand _ = []"

definition times_ok :: "OrderMessage list \<Rightarrow> OrderMessage list \<Rightarrow> 'q server \<Rightarrow> bool" where
  "times_ok bs rs s \<longleftrightarrow> (let now = now_ns (s_now s); e = s_engine s in
     (\<forall>m \<in> set (bs @ net_hand (s_net s)). m_timestamp m \<le> now) \<and>
     (\<forall>(m, tp) \<in> set (engine_hand (s_eng s)). m_timestamp m \<le> now_ns tp \<and> now_ns tp \<le> now) \<and>
     length (queue_latencies e) = length (latencies e) \<and> length (latencies e) \<le> length rs \<and>
     (\<forall>i < length (latencies e). queue_latencies e ! i \<le> latencies e ! i \<and>
        unat (m_timestamp (rs ! i)) + unat (latencies e ! i) \<le> unat now))"

text \<open>Two stamps are at least the pacing apart (\<open>+\<close> wraps, as it does in the code).\<close>

definition stamps :: "OrderMessage list \<Rightarrow> u64 list" where
  "stamps bs = map m_timestamp (filter (\<lambda>m. m_type m \<noteq> SHUTDOWN) bs)"

definition paced :: "u64 \<Rightarrow> u64 list \<Rightarrow> bool" where
  "paced p ts = successively (\<lambda>x y. x + p \<le> y) ts"

definition pacing_ok :: "(OrderMessage, 'q) queue_ops \<Rightarrow> u64 \<Rightarrow> OrderMessage list \<Rightarrow> 'q server \<Rightarrow> bool" where
  "pacing_ok ops p bs s \<longleftrightarrow> paced p (stamps bs) \<and> (case s_net s of
     NetOff \<Rightarrow> bs = []
   | NetWait ms \<Rightarrow> bs = []
   | NetNext ms \<Rightarrow> (stamps bs \<noteq> [] \<longrightarrow> last (stamps bs) + p \<le> now_ns (s_now s))
   | NetPush m ms \<Rightarrow> if qo_pushing ops (s_queue s) then stamps bs \<noteq> [] \<and> last (stamps bs) = m_timestamp m
       else stamps bs \<noteq> [] \<longrightarrow> last (stamps bs) + p \<le> m_timestamp m
   | NetPace w ms \<Rightarrow> stamps bs \<noteq> [] \<and> w = last (stamps bs) + p
   | NetDone \<Rightarrow> True)"

lemma times_later:
  assumes "times_ok bs rs s" and "now_ns (s_now s) \<le> now_ns u"
  shows "times_ok bs rs (s\<lparr>s_now := u\<rparr>)"
proof -
  have w: "x \<le> now_ns u" if "x \<le> now_ns (s_now s)" for x using that assms(2) by (rule order_trans)
  moreover have "n \<le> unat (now_ns u)" if "n \<le> unat (now_ns (s_now s))" for n
    using that assms(2) by (simp add: word_le_nat_alt)
  ultimately show ?thesis using assms(1) by (fastforce simp: times_ok_def Let_def)
qed

lemma paced_Nil [simp]: "paced p []" "stamps [] = []"
  by (simp_all add: paced_def stamps_def)

lemma paced_snoc: "paced p (ts @ [t]) \<longleftrightarrow> paced p ts \<and> (ts \<noteq> [] \<longrightarrow> last ts + p \<le> t)"
  by (auto simp: paced_def successively_append_iff)

lemma stamps_snoc: "stamps (bs @ [m]) = stamps bs @ (if m_type m = SHUTDOWN then [] else [m_timestamp m])"
  by (simp add: stamps_def)

lemma latency_facts:
  assumes "stamp \<le> pop" and "pop \<le> (now :: u64)"
  shows "pop - stamp \<le> now - stamp" and "unat stamp + unat (now - stamp) = unat now"
  using assms by (simp_all add: word_le_nat_alt unat_sub)

section \<open>Every step keeps the invariant\<close>

lemma sent_types:
  assumes "map unstamped sent = map unstamped (build_workload args)" and "m \<in> set sent"
  shows "m_type m = SUBMIT"
  using arg_cong [OF unstamped_commands(2) [OF assms(1)], of set] assms(2) workload_types [of _ args]
  by (metis (no_types, lifting) image_iff image_set)

locale server_queue = threaded_queue start step sent received started blocked_push blocked_pop budget inv ops begun effort
  for start :: 's and step and sent :: "'s \<Rightarrow> OrderMessage list" and received and started and blocked_push
    and blocked_pop and budget and inv and ops and begun and effort
begin

lemma net_step_control:
  assumes "control_ok ops writable args s"
  shows "control_ok ops writable args (net_step ops args v ts r s)"
proof (cases "s_net s")
  case (NetNext ms)
  then show ?thesis using assms by (cases ms) (auto simp: control_ok_def net_step_defs)
next
  case (NetPush m ms)
  then show ?thesis using assms by (auto simp: control_ok_def net_step_defs Let_def)
qed (use assms in \<open>auto simp: control_ok_def net_step_defs\<close>)

lemma engine_step_control:
  assumes "control_ok ops writable args s"
  shows "control_ok ops writable args (engine_step ops v ts s)"
proof (cases "s_eng s")
  case EngInit
  then show ?thesis using assms
    by (auto simp: control_ok_def engine_step_def Let_def engine_joined_def split: option.splits sum.splits main_pc.splits)
next
  case (EngMatch m tp)
  then show ?thesis using assms
    by (auto simp: control_ok_def engine_step_def Let_def engine_joined_def split: option.splits sum.splits main_pc.splits)
qed (use assms in \<open>auto simp: control_ok_def engine_step_def Let_def engine_joined_def split: main_pc.splits\<close>)

lemma main_step_control:
  assumes "control_ok ops writable args s"
  shows "control_ok ops writable args (main_step ops writable args v s)"
proof (cases "s_main s")
  case MainJoinNet
  then show ?thesis using assms
    by (cases "s_net s") (auto simp: control_ok_def main_step_defs)
next
  case MainJoinEngine
  then show ?thesis using assms
    by (cases "s_eng s") (auto simp: control_ok_def main_step_defs)
qed (use assms in \<open>auto simp: control_ok_def main_step_defs Let_def\<close>)

lemma messages_okI:
  assumes "messages_ok ops args begun s"
    and "begun (s_queue t) @ net_left ops args t @ main_left ops t = begun (s_queue s) @ net_left ops args s @ main_left ops s"
  shows "messages_ok ops args begun t"
  using assms by (simp add: messages_ok_def)

lemma net_running: "control_ok ops writable args s \<Longrightarrow> s_net s \<noteq> NetDone \<Longrightarrow> main_left ops s = [shutdown_message]"
  by (cases "s_main s") (auto simp: control_ok_def left_simps)

lemma net_step_messages:
  assumes "control_ok ops writable args s" and "messages_ok ops args begun s"
  shows "messages_ok ops args begun (net_step ops args v ts r s)"
proof (cases "s_net s")
  case (NetNext ms)
  show ?thesis
  proof (cases ms)
    case Nil
    with NetNext show ?thesis by (intro messages_okI [OF assms(2)]) (simp add: net_step_defs left_simps)
  next
    case (Cons m ms')
    have idle: "\<not> qo_pushing ops (s_queue s)" "main_left ops s = [shutdown_message]"
      using assms(1) NetNext net_running [OF assms(1)] by (auto simp: control_ok_def)
    have out: "map unstamped (begun (s_queue s) @ ms) = map unstamped (build_workload args)"
      using assms(2) NetNext idle(2) by (auto simp: messages_ok_def left_simps simp flip: append_assoc)
    let ?m = "m\<lparr>m_timestamp := now_ns ts\<rparr>"
    have "map unstamped (begun (s_queue s) @ ?m # ms') = map unstamped (begun (s_queue s) @ ms)"
      using Cons by (simp add: unstamped_def)
    with out NetNext Cons idle show ?thesis
      unfolding messages_ok_def
      by (intro exI [of _ "begun (s_queue s) @ ?m # ms'"]) (simp add: net_step_defs left_simps)
  qed
next
  case (NetPush m ms)
  let ?q = "qo_push ops m v (s_queue s)" let ?t = "net_step ops args v ts r s"
  have "main_left ops ?t = main_left ops s"
    using net_running [OF assms(1)] net_running [OF net_step_control [OF assms(1)]] NetPush
    by (simp add: net_step_defs Let_def)
  moreover have "begun ?q @ net_left ops args ?t = begun (s_queue s) @ net_left ops args s"
    using NetPush push_begin push_begins push_goes_on
    by (cases "qo_pushing ops (s_queue s)") (simp_all add: left_simps net_step_defs Let_def)
  moreover have "s_queue ?t = ?q" using NetPush by (simp add: net_step_defs Let_def)
  ultimately show ?thesis
    using assms(2) by (intro messages_okI [OF assms(2)]) (metis append.assoc)
qed (use assms in \<open>auto intro!: messages_okI [OF assms(2)] simp: net_step_defs left_simps\<close>)

lemma engine_step_messages:
  assumes "messages_ok ops args begun s"
  shows "messages_ok ops args begun (engine_step ops v ts s)"
proof -
  have "begun (s_queue (engine_step ops v ts s)) = begun (s_queue s)"
    "qo_pushing ops (s_queue (engine_step ops v ts s)) = qo_pushing ops (s_queue s)"
    "s_net (engine_step ops v ts s) = s_net s" "s_main (engine_step ops v ts s) = s_main s"
    by (auto simp: engine_step_def Let_def split: eng_pc.splits option.splits sum.splits)
  then show ?thesis using assms by (simp add: messages_ok_def cong: net_left_cong main_left_cong)
qed

lemma main_step_messages:
  assumes "control_ok ops writable args s" and "messages_ok ops args begun s"
  shows "messages_ok ops args begun (main_step ops writable args v s)"
proof (cases "s_main s")
  case MainStop
  then have net: "s_net s = NetDone" using assms(1) by (simp add: control_ok_def)
  show ?thesis
    using MainStop net push_begin push_begins push_goes_on
    by (cases "qo_pushing ops (s_queue s)"; intro messages_okI [OF assms(2)])
      (auto simp: main_step_defs left_simps Let_def)
next
  case MainJoinNet
  then show ?thesis
    by (cases "s_net s"; intro messages_okI [OF assms(2)]) (use assms(1) in \<open>auto simp: control_ok_def main_step_defs left_simps\<close>)
next
  case MainJoinEngine
  then show ?thesis
    by (cases "s_eng s"; intro messages_okI [OF assms(2)]) (auto simp: main_step_defs left_simps)
qed (use assms(1) in \<open>auto intro!: messages_okI [OF assms(2)] simp: control_ok_def main_step_defs left_simps\<close>)

text \<open>What the invariant says of the messages received.\<close>

lemma received_parts:
  assumes "inv (s_queue s)" and "messages_ok ops args begun s"
  shows "\<exists>out. map unstamped out = map unstamped (build_workload args) \<and>
    prefix (received (s_queue s)) (out @ [shutdown_message])"
proof -
  obtain out where out: "map unstamped out = map unstamped (build_workload args)"
    "begun (s_queue s) @ net_left ops args s @ main_left ops s = out @ [shutdown_message]"
    using assms(2) by (auto simp: messages_ok_def)
  from received_begun [OF assms(1)] have "prefix (received (s_queue s)) (out @ [shutdown_message])"
    unfolding out(2) [symmetric] by (rule prefix_order.trans) simp
  with out(1) show ?thesis by blast
qed

lemma last_in: "xs @ rest = ys @ [y] \<Longrightarrow> m \<in> set xs \<Longrightarrow> m \<notin> set ys \<Longrightarrow> rest = []"
  by (cases rest rule: rev_cases) auto

lemma shutdown_last:
  assumes "messages_ok ops args begun s" and "inv (s_queue s)" and "m \<in> set (received (s_queue s))" and "m_type m = SHUTDOWN"
  shows "main_left ops s = []" and "received (s_queue s) = begun (s_queue s)"
proof -
  obtain out where out: "map unstamped out = map unstamped (build_workload args)"
    "begun (s_queue s) @ net_left ops args s @ main_left ops s = out @ [shutdown_message]"
    using assms(1) by (auto simp: messages_ok_def)
  obtain zs where zs: "begun (s_queue s) = received (s_queue s) @ zs"
    using received_begun [OF assms(2)] by (auto simp: prefix_def)
  let ?rest = "zs @ net_left ops args s @ main_left ops s"
  have all: "received (s_queue s) @ ?rest = out @ [shutdown_message]" using out(2) zs by simp
  have "m \<notin> set out" using sent_types [OF out(1), of m] assms(4) by auto
  then have "?rest = []" by (rule last_in [OF all assms(3)])
  then show "main_left ops s = []" "received (s_queue s) = begun (s_queue s)" using zs by simp_all
qed

lemma work_received:
  assumes "map unstamped out = map unstamped (build_workload args)" and "prefix (ms @ [m]) (out @ [shutdown_message])"
  shows "work ms = ms" and "m_type m \<noteq> SHUTDOWN \<Longrightarrow> m \<in> set out" and "m_type m = SHUTDOWN \<Longrightarrow> ms = out"
proof -
  have cases: "ms @ [m] = out @ [shutdown_message] \<or> prefix (ms @ [m]) out" using assms(2) by simp
  have sub: "set ms \<subseteq> set out" using cases set_mono_prefix by fastforce
  then show "work ms = ms"
    unfolding work_def using sent_types [OF assms(1)] by (subst takeWhile_eq_all_conv) auto
  show "m \<in> set out" if "m_type m \<noteq> SHUTDOWN"
    using cases that set_mono_prefix by (fastforce simp: shutdown_message_def)
  show "ms = out" if "m_type m = SHUTDOWN"
    using cases that sent_types [OF assms(1), of m] set_mono_prefix by fastforce
qed

text \<open>The engine's own steps: no operation of the book fails on the workload.\<close>

lemma workload_handled:
  assumes shaped: "array_shaped b" and out: "map unstamped out = map unstamped (build_workload args)"
    and got: "prefix (ms @ [m]) (out @ [shutdown_message])" and "m_type m \<noteq> SHUTDOWN"
    and run: "engine_run clock kBookOrders ms (new_engine b) = ret (e, False)"
  shows "\<exists>b'. handle_message m (e_book e) = ret b'"
proof -
  have "array_shaped (e_book (new_engine b))" using shaped by (simp add: new_engine_def)
  from server_engine_returns [OF this out got, of clock] obtain r where
    "engine_run clock kBookOrders (ms @ [m]) (new_engine b) = ret r" by (auto simp: returns_def)
  then show ?thesis
    using run assms(4) by (auto simp: engine_run_def ebind_eq_ret run_loop_snoc process_message_def)
qed

lemma engine_step_engine:
  assumes shaped: "array_shaped b" and msgs: "messages_ok ops args begun s" and "inv (s_queue s)"
    and eng: "engine_ok b (received (s_queue s)) s"
  shows "engine_ok b (received (s_queue (engine_step ops v ts s))) (engine_step ops v ts s)"
proof (cases "s_eng s")
  case EngInit
  then have "s_engine s = new_engine b" using eng by (simp add: engine_ok_simps)
  moreover obtain b' where "init b kBookOrders = ret b'"
    using bitset_if.init_law [of b kBookOrders] shaped by (auto simp: returns_def bitset_ops_def kBookOrders_def)
  ultimately show ?thesis using EngInit eng by (simp add: engine_step_def engine_ok_simps new_engine_def)
next
  case EngReady
  then show ?thesis using eng by (auto simp: engine_step_def engine_ok_simps engine_run_def new_engine_def Let_def)
next
  case EngPop
  with eng obtain clock where run: "engine_run clock kBookOrders (received (s_queue s)) (new_engine b) = ret (s_engine s, False)"
    by (auto simp: engine_ok_simps)
  let ?q = "qo_pop ops v (s_queue s)"
  show ?thesis
  proof (cases "qo_popping ops ?q")
    case True
    then show ?thesis using EngPop run pop_waits by (simp add: engine_step_def engine_ok_simps Let_def) blast
  next
    case False
    then obtain m where "received ?q = received (s_queue s) @ [m]" using pop_returns by blast
    then show ?thesis using EngPop run False by (simp add: engine_step_def engine_ok_simps Let_def) blast
  qed
next
  case (EngGot m)
  with eng obtain clock ms where e: "received (s_queue s) = ms @ [m]"
    "engine_run clock kBookOrders ms (new_engine b) = ret (s_engine s, False)" by (auto simp: engine_ok_simps)
  show ?thesis
  proof (cases "m_type m = SHUTDOWN")
    case True
    with engine_run_shutdown [OF e(2) True] EngGot e(1) show ?thesis
      by (simp add: engine_step_def engine_ok_simps Let_def) blast
  next
    case False
    with EngGot e show ?thesis by (simp add: engine_step_def engine_ok_simps Let_def) blast
  qed
next
  case (EngMatch m tp)
  with eng obtain clock ms where e: "received (s_queue s) = ms @ [m]" "m_type m \<noteq> SHUTDOWN"
    "engine_run clock kBookOrders ms (new_engine b) = ret (s_engine s, False)" by (auto simp: engine_ok_simps)
  obtain b' where "handle_message m (e_book (s_engine s)) = ret b'"
    using workload_handled [OF shaped _ _ e(2,3)] received_parts [OF assms(3,2)] e(1) by metis
  with e EngMatch show ?thesis by (simp add: engine_step_def engine_ok_simps Let_def) blast
next
  case (EngRecord m tp)
  with eng obtain clock ms e0 b' where e: "received (s_queue s) = ms @ [m]" "m_type m \<noteq> SHUTDOWN"
    "engine_run clock kBookOrders ms (new_engine b) = ret (e0, False)" "handle_message m (e_book e0) = ret b'"
    "s_engine s = e0\<lparr>e_book := b'\<rparr>" by (auto simp: engine_ok_simps)
  from engine_run_next [OF e(3,2,4), of tp ts] EngRecord e(1,5) show ?thesis
    by (simp add: engine_step_def engine_ok_simps Let_def)
qed (use eng in \<open>auto simp: engine_step_def Let_def engine_ok_simps\<close>)

lemma engine_ok_cong:
  assumes "engine_ok b rs s" and "s_eng t = s_eng s" and "s_engine t = s_engine s"
  shows "engine_ok b rs t"
  using assms by (cases "s_eng s") (simp_all add: engine_ok_simps)

lemma net_step_unchanged:
  "s_eng (net_step ops args v ts r s) = s_eng s" "s_engine (net_step ops args v ts r s) = s_engine s"
  "s_main (net_step ops args v ts r s) = s_main s"
  "received (s_queue (net_step ops args v ts r s)) = received (s_queue s)"
  "qo_popping ops (s_queue (net_step ops args v ts r s)) = qo_popping ops (s_queue s)"
  by (auto simp: net_step_defs Let_def split: net_pc.splits list.splits)

lemma main_step_unchanged:
  shows "s_engine (main_step ops writable args v s) = s_engine s" and "s_now (main_step ops writable args v s) = s_now s"
    and "received (s_queue (main_step ops writable args v s)) = received (s_queue s)"
    and "s_main s \<noteq> MainStart \<Longrightarrow> s_eng (main_step ops writable args v s) = s_eng s"
    and "s_main s \<noteq> MainSpawn \<Longrightarrow> s_net (main_step ops writable args v s) = s_net s"
proof -
  let ?t = "main_step ops writable args v s"
  have "s_engine ?t = s_engine s \<and> s_now ?t = s_now s \<and> received (s_queue ?t) = received (s_queue s) \<and>
    (s_main s \<noteq> MainStart \<longrightarrow> s_eng ?t = s_eng s) \<and> (s_main s \<noteq> MainSpawn \<longrightarrow> s_net ?t = s_net s)"
  proof (cases "s_main s")
    case MainJoinNet
    then show ?thesis by (cases "s_net s") (simp_all add: main_step_defs)
  next
    case MainJoinEngine
    then show ?thesis by (cases "s_eng s") (simp_all add: main_step_defs)
  qed (simp_all add: main_step_defs Let_def)
  then show "s_engine ?t = s_engine s" "s_now ?t = s_now s" "received (s_queue ?t) = received (s_queue s)"
    "s_main s \<noteq> MainStart \<Longrightarrow> s_eng ?t = s_eng s" "s_main s \<noteq> MainSpawn \<Longrightarrow> s_net ?t = s_net s" by blast+
qed

lemma main_step_engine:
  assumes "control_ok ops writable args s" and "engine_ok b (received (s_queue s)) s"
  shows "engine_ok b (received (s_queue (main_step ops writable args v s))) (main_step ops writable args v s)"
proof (cases "s_main s = MainStart")
  case True
  then have "s_eng s = EngOff" using assms(1) by (simp add: control_ok_def)
  then have "received (s_queue s) = []" "s_engine s = new_engine b" using assms(2) by (simp_all add: engine_ok_simps(1))
  then show ?thesis by (simp add: main_step_defs True engine_ok_simps(2))
next
  case False
  show ?thesis
    by (rule engine_ok_cong [where s = s]) (simp_all add: main_step_unchanged assms(2) False)
qed

text \<open>Readings.\<close>

lemma times_hand:
  assumes "times_ok bs rs s"
  shows "m \<in> set bs \<Longrightarrow> m_timestamp m \<le> now_ns (s_now s)"
    and "s_net s = NetPush m ms \<Longrightarrow> m_timestamp m \<le> now_ns (s_now s)"
    and "s_eng s = EngMatch m tp \<Longrightarrow> m_timestamp m \<le> now_ns tp \<and> now_ns tp \<le> now_ns (s_now s)"
    and "s_eng s = EngRecord m tp \<Longrightarrow> m_timestamp m \<le> now_ns tp \<and> now_ns tp \<le> now_ns (s_now s)"
    and "length (queue_latencies (s_engine s)) = length (latencies (s_engine s))"
    and "length (latencies (s_engine s)) \<le> length rs"
    and "i < length (latencies (s_engine s)) \<Longrightarrow> queue_latencies (s_engine s) ! i \<le> latencies (s_engine s) ! i \<and>
      unat (m_timestamp (rs ! i)) + unat (latencies (s_engine s) ! i) \<le> unat (now_ns (s_now s))"
  using assms by (simp_all add: times_ok_def Let_def)

lemma net_step_times:
  assumes times: "times_ok (begun (s_queue s)) (received (s_queue s)) s" and later: "now_ns (s_now s) \<le> now_ns ts"
  shows "times_ok (begun (s_queue (net_step ops args v ts r s))) (received (s_queue (net_step ops args v ts r s)))
    (net_step ops args v ts r s)"
proof (cases "s_net s")
  case (NetNext ms)
  from times_later [OF times later] show ?thesis
    using times NetNext by (cases ms) (simp_all add: net_step_defs times_ok_def Let_def)
next
  case (NetPush m ms)
  let ?q = "qo_push ops m v (s_queue s)"
  have "begun ?q = begun (s_queue s) \<or> begun ?q = begun (s_queue s) @ [m]"
    using push_begin push_goes_on by blast
  moreover have "m_timestamp m \<le> now_ns (s_now s)" by (rule times_hand(2) [OF times NetPush])
  ultimately show ?thesis
    using times NetPush by (auto simp: net_step_defs times_ok_def Let_def)
next
  case (NetPace w ms)
  from times_later [OF times later] show ?thesis
    using NetPace by (simp add: net_step_defs times_ok_def Let_def)
qed (use times in \<open>simp_all add: net_step_defs times_ok_def Let_def\<close>)

lemma main_step_times:
  assumes ctl: "control_ok ops writable args s" and times: "times_ok (begun (s_queue s)) (received (s_queue s)) s"
  shows "times_ok (begun (s_queue (main_step ops writable args v s))) (received (s_queue (main_step ops writable args v s)))
    (main_step ops writable args v s)"
proof (cases "s_main s")
  case MainStop
  let ?q = "qo_push ops shutdown_message v (s_queue s)"
  have "begun ?q = begun (s_queue s) \<or> begun ?q = begun (s_queue s) @ [shutdown_message]"
    using push_begin push_goes_on by blast
  then show ?thesis
    using times MainStop by (auto simp: main_step_defs times_ok_def Let_def shutdown_message_def zero_message_def)
next
  case MainJoinNet
  then show ?thesis using times by (cases "s_net s") (simp_all add: main_step_defs times_ok_def Let_def)
next
  case MainJoinEngine
  then show ?thesis using times by (cases "s_eng s") (simp_all add: main_step_defs times_ok_def Let_def)
next
  case MainStart
  then have "s_eng s = EngOff" using ctl by (simp add: control_ok_def)
  then show ?thesis using times MainStart by (simp add: main_step_defs times_ok_def Let_def)
next
  case MainSpawn
  then have "s_net s = NetOff" using ctl by (simp add: control_ok_def)
  then show ?thesis using times MainSpawn by (simp add: main_step_defs times_ok_def Let_def)
qed (use times in \<open>simp_all add: main_step_defs times_ok_def Let_def\<close>)

lemma engine_count:
  assumes "engine_ok b rs s" and "s_eng s = EngRecord m tp"
  shows "length (latencies (s_engine s)) < length rs \<and> rs ! length (latencies (s_engine s)) = m"
proof -
  obtain clock ms e0 b' where e: "rs = ms @ [m]" "engine_run clock kBookOrders ms (new_engine b) = ret (e0, False)"
    "s_engine s = e0\<lparr>e_book := b'\<rparr>" using assms by (auto simp: engine_ok_simps)
  from engine_run_facts(2) [OF e(2)] have "work ms = ms"
    unfolding work_def by (subst takeWhile_eq_all_conv) auto
  with engine_run_facts(3) [OF e(2)] e show ?thesis by (simp add: new_engine_def)
qed

lemma engine_step_times:
  assumes times: "times_ok (begun (s_queue s)) (received (s_queue s)) s" and later: "now_ns (s_now s) \<le> now_ns ts"
    and eng: "engine_ok b (received (s_queue s)) s" and inv: "inv (s_queue s)"
  shows "times_ok (begun (s_queue (engine_step ops v ts s))) (received (s_queue (engine_step ops v ts s)))
    (engine_step ops v ts s)"
proof (cases "s_eng s")
  case EngInit
  then show ?thesis using times
    by (auto simp: engine_step_def times_ok_def Let_def split: option.split sum.split)
next
  case EngReady
  then show ?thesis using times by (simp add: engine_step_def times_ok_def Let_def)
next
  case EngPop
  let ?q = "qo_pop ops v (s_queue s)"
  have "received ?q = received (s_queue s) \<or> (\<exists>m. received ?q = received (s_queue s) @ [m])"
    using pop_waits pop_returns by blast
  then show ?thesis using times EngPop by (auto simp: engine_step_def times_ok_def Let_def nth_append)
next
  case (EngGot m)
  then have "m \<in> set (received (s_queue s))" using eng by (auto simp: engine_ok_simps)
  then have "m \<in> set (begun (s_queue s))" using received_begun [OF inv] set_mono_prefix by blast
  then have "m_timestamp m \<le> now_ns ts" using times_hand(1) [OF times] later by fastforce
  with times_later [OF times later] times show ?thesis
    using EngGot by (simp add: engine_step_def times_ok_def Let_def)
next
  case (EngMatch m tp)
  then show ?thesis using times
    by (auto simp: engine_step_def times_ok_def Let_def split: option.split sum.split)
next
  case (EngRecord m tp)
  let ?rs = "received (s_queue s)" let ?e = "s_engine s" let ?n = "length (latencies ?e)"
  have last: "?rs ! ?n = m" "?n < length ?rs" using engine_count [OF eng EngRecord] by simp_all
  have hand: "m_timestamp m \<le> now_ns tp" "now_ns tp \<le> now_ns ts"
    using times_hand(4) [OF times EngRecord] later by auto
  note L = latency_facts [OF this]
  have "times_ok (begun (s_queue s)) ?rs (s\<lparr>s_now := ts\<rparr>)" by (rule times_later [OF times later])
  then show ?thesis
    using EngRecord last L by (auto simp: engine_step_def times_ok_def Let_def record_latencies_def nth_append less_Suc_eq)
qed (use times in \<open>simp_all add: engine_step_def times_ok_def Let_def\<close>)

text \<open>Pacing.\<close>

lemma net_step_pacing:
  assumes pace: "pacing_ok ops (pacing_ns args) (begun (s_queue s)) s" and msgs: "messages_ok ops args begun s"
    and ctl: "control_ok ops writable args s" and later: "now_ns (s_now s) \<le> now_ns ts"
  shows "pacing_ok ops (pacing_ns args) (begun (s_queue (net_step ops args v ts r s))) (net_step ops args v ts r s)"
proof (cases "s_net s")
  case (NetNext ms)
  have "\<not> qo_pushing ops (s_queue s)" using ctl NetNext by (auto simp: control_ok_def)
  then show ?thesis
    using pace NetNext later by (cases ms) (auto simp: net_step_defs pacing_ok_def)
next
  case (NetPush m ms)
  let ?q = "qo_push ops m v (s_queue s)"
  show ?thesis
  proof (cases "qo_pushing ops (s_queue s)")
    case True
    then show ?thesis using pace NetPush push_goes_on [OF True, of m v] by (auto simp: net_step_defs pacing_ok_def Let_def)
  next
    case False
    obtain out where out: "map unstamped out = map unstamped (build_workload args)"
      "begun (s_queue s) @ net_left ops args s @ main_left ops s = out @ [shutdown_message]"
      using msgs by (auto simp: messages_ok_def)
    have "m \<in> set out"
      using out(2) net_running [OF ctl] NetPush False by (auto simp: left_simps simp flip: append_assoc)
    then have "m_type m \<noteq> SHUTDOWN" using sent_types [OF out(1)] by fastforce
    then show ?thesis
      using pace NetPush False push_begin [OF False, of m v] push_begins [OF False, of m v]
      by (simp add: net_step_defs pacing_ok_def Let_def stamps_snoc paced_snoc)
  qed
next
  case (NetPace w ms)
  then show ?thesis using pace by (auto simp: net_step_defs pacing_ok_def)
qed (use pace in \<open>simp_all add: net_step_defs pacing_ok_def\<close>)

lemma pacing_cong:
  assumes "pacing_ok ops p (begun (s_queue s)) s" and "s_net t = s_net s" and "begun (s_queue t) = begun (s_queue s)"
    and "qo_pushing ops (s_queue t) = qo_pushing ops (s_queue s)" and "now_ns (s_now s) \<le> now_ns (s_now t)"
  shows "pacing_ok ops p (begun (s_queue t)) t"
  using assms by (cases "s_net s") (auto simp: pacing_ok_def)

lemma main_step_pacing:
  assumes pace: "pacing_ok ops p (begun (s_queue s)) s" and ctl: "control_ok ops writable args s"
  shows "pacing_ok ops p (begun (s_queue (main_step ops writable args v s))) (main_step ops writable args v s)"
proof (cases "s_main s")
  case MainStop
  let ?q = "qo_push ops shutdown_message v (s_queue s)"
  have "s_net s = NetDone" using ctl MainStop by (simp add: control_ok_def)
  moreover have "begun ?q = begun (s_queue s) \<or> begun ?q = begun (s_queue s) @ [shutdown_message]"
    using push_begin push_goes_on by blast
  ultimately show ?thesis
    using pace MainStop by (auto simp: main_step_defs pacing_ok_def Let_def stamps_snoc shutdown_message_def)
next
  case MainSpawn
  then have "s_net s = NetOff" using ctl by (simp add: control_ok_def)
  then show ?thesis using pace MainSpawn by (simp add: main_step_defs pacing_ok_def)
next
  case MainJoinNet
  then show ?thesis using pace by (cases "s_net s") (simp_all add: main_step_defs pacing_ok_def)
next
  case MainJoinEngine
  then show ?thesis by (cases "s_eng s"; intro pacing_cong [OF pace]) (simp_all add: main_step_defs)
qed (rule pacing_cong [OF pace]; simp add: main_step_defs)+

text \<open>All of it, along every run.\<close>

definition server_inv :: "(string \<Rightarrow> bool) \<Rightarrow> Args \<Rightarrow> bitset_book \<Rightarrow> 's server \<Rightarrow> bool" where
  "server_inv writable args b s \<longleftrightarrow> inv (s_queue s) \<and> control_ok ops writable args s \<and>
     messages_ok ops args begun s \<and> engine_ok b (received (s_queue s)) s \<and>
     times_ok (begun (s_queue s)) (received (s_queue s)) s \<and> pacing_ok ops (pacing_ns args) (begun (s_queue s)) s"

lemma server_invD:
  assumes "server_inv writable args b s"
  shows "inv (s_queue s)" and "control_ok ops writable args s" and "messages_ok ops args begun s"
    and "engine_ok b (received (s_queue s)) s" and "times_ok (begun (s_queue s)) (received (s_queue s)) s"
    and "pacing_ok ops (pacing_ns args) (begun (s_queue s)) s"
  using assms by (simp_all add: server_inv_def)

definition fits :: "Args \<Rightarrow> bool" where
  "fits args \<longleftrightarrow> in_budget budget (Suc (unat (workload args)))"

lemma begun_start: "begun start = []"
  using idle_start begun_idle start_empty by simp

lemma server_inv_start: "server_inv writable args b (server_start start b t)"
  using idle_start begun_start start_empty
  by (auto simp: server_inv_def server_start_def inv_start control_ok_def messages_ok_def left_simps engine_ok_simps
      times_ok_def pacing_ok_def new_engine_def Let_def)

text \<open>No step begins more than the workload and one message.\<close>

lemma messages_fit:
  assumes "fits args" and "messages_ok ops args begun s"
  shows "in_budget budget (started (s_queue s))"
proof -
  obtain out where "length out = unat (workload args)"
    "begun (s_queue s) @ net_left ops args s @ main_left ops s = out @ [shutdown_message]"
    using assms(2) by (auto simp: messages_ok_def build_workload_def dest!: map_eq_imp_length_eq)
  then have "length (begun (s_queue s)) \<le> Suc (unat (workload args))"
    by (metis le_add1 length_append length_append_singleton)
  then show ?thesis using assms(1) in_budget_mono by (auto simp: fits_def started_begun)
qed

lemma queue_moves:
  shows "qo_push_can ops v (s_queue s) \<Longrightarrow> s_queue (net_step ops args v ts r s) = s_queue s \<or>
      step (s_queue s) (s_queue (net_step ops args v ts r s))"
    and "qo_push_can ops v (s_queue s) \<Longrightarrow> s_queue (main_step ops writable args v s) = s_queue s \<or>
      step (s_queue s) (s_queue (main_step ops writable args v s))"
    and "qo_pop_can ops v (s_queue s) \<Longrightarrow> s_queue (engine_step ops v ts s) = s_queue s \<or>
      step (s_queue s) (s_queue (engine_step ops v ts s))"
proof -
  note st = push_steps pop_steps
  show "s_queue (net_step ops args v ts r s) = s_queue s \<or> step (s_queue s) (s_queue (net_step ops args v ts r s))"
    if "qo_push_can ops v (s_queue s)"
    using st that by (auto simp: net_step_defs Let_def split: net_pc.splits list.splits)
  show "s_queue (main_step ops writable args v s) = s_queue s \<or> step (s_queue s) (s_queue (main_step ops writable args v s))"
    if "qo_push_can ops v (s_queue s)"
    using st that by (auto simp: main_step_defs Let_def split: main_pc.splits net_pc.splits eng_pc.splits)
  show "s_queue (engine_step ops v ts s) = s_queue s \<or> step (s_queue s) (s_queue (engine_step ops v ts s))"
    if "qo_pop_can ops v (s_queue s)"
    using st that by (auto simp: engine_step_def Let_def split: eng_pc.splits option.splits sum.splits)
qed

lemma engine_step_unchanged:
  "s_net (engine_step ops v ts s) = s_net s" "s_main (engine_step ops v ts s) = s_main s"
  "begun (s_queue (engine_step ops v ts s)) = begun (s_queue s)"
  "qo_pushing ops (s_queue (engine_step ops v ts s)) = qo_pushing ops (s_queue s)"
  "now_ns (s_now s) \<le> now_ns ts \<Longrightarrow> now_ns (s_now s) \<le> now_ns (s_now (engine_step ops v ts s))"
  by (auto simp: engine_step_def Let_def split: eng_pc.splits option.splits sum.splits)

lemma server_inv_step:
  assumes shaped: "array_shaped b" and mono: "monotone_clock reads" and fits: "fits args"
    and inv: "server_inv writable args b s" and step: "server_step ops reads writable args s t"
  shows "server_inv writable args b t"
proof -
  note I = server_invD [OF inv]
  have queue: "inv (s_queue t)" if "s_queue t = s_queue s \<or> step (s_queue s) (s_queue t)" "messages_ok ops args begun t"
    using that I(1) inv_step messages_fit [OF fits that(2)] by metis
  from step show ?thesis
  proof cases
    case (net_moves v ts r)
    then have later: "now_ns (s_now s) \<le> now_ns ts" using mono by (auto simp: monotone_clock_def)
    have msgs: "messages_ok ops args begun t" unfolding net_moves(1) by (rule net_step_messages [OF I(2,3)])
    moreover have "inv (s_queue t)" by (rule queue [OF _ msgs]) (use net_moves queue_moves(1) in blast)
    moreover have "engine_ok b (received (s_queue t)) t"
      unfolding net_moves(1) net_step_unchanged by (rule engine_ok_cong [OF I(4)]) (simp_all add: net_step_unchanged)
    ultimately show ?thesis
      using net_step_control [OF I(2)] net_step_times [OF I(5) later] net_step_pacing [OF I(6,3,2) later]
      by (simp add: server_inv_def net_moves(1))
  next
    case (engine_moves v ts)
    then have later: "now_ns (s_now s) \<le> now_ns ts" using mono by (auto simp: monotone_clock_def)
    have msgs: "messages_ok ops args begun t" unfolding engine_moves(1) by (rule engine_step_messages [OF I(3)])
    moreover have "inv (s_queue t)" by (rule queue [OF _ msgs]) (use engine_moves queue_moves(3) in blast)
    moreover have "pacing_ok ops (pacing_ns args) (begun (s_queue t)) t"
      unfolding engine_moves(1) by (rule pacing_cong [OF I(6)]) (simp_all add: engine_step_unchanged later)
    ultimately show ?thesis
      using engine_step_control [OF I(2)] engine_step_times [OF I(5) later I(4,1)] engine_step_engine [OF shaped I(3,1,4)]
      by (simp add: server_inv_def engine_moves(1))
  next
    case (main_moves v)
    have msgs: "messages_ok ops args begun t" unfolding main_moves(1) by (rule main_step_messages [OF I(2,3)])
    moreover have "inv (s_queue t)" by (rule queue [OF _ msgs]) (use main_moves queue_moves(2) in blast)
    ultimately show ?thesis
      using main_step_control [OF I(2)] main_step_engine [OF I(2,4)] main_step_times [OF I(2,5)] main_step_pacing [OF I(6,2)]
      by (simp add: server_inv_def main_moves(1))
  next
    case consumer_wakes
    have left: "net_left ops args t = net_left ops args s" "main_left ops t = main_left ops s"
      unfolding consumer_wakes by (rule net_left_cong main_left_cong; simp)+
    have msgs: "messages_ok ops args begun t"
      by (rule messages_okI [OF I(3)]) (simp add: left, simp add: consumer_wakes)
    moreover have "inv (s_queue t)" by (rule queue [OF _ msgs]) (use consumer_wakes wake_steps [of "s_queue s"] in auto)
    moreover have "engine_ok b (received (s_queue t)) t"
      using engine_ok_cong [OF I(4), of t] by (simp add: consumer_wakes)
    moreover have "pacing_ok ops (pacing_ns args) (begun (s_queue t)) t"
      unfolding consumer_wakes by (rule pacing_cong [OF I(6)]) simp_all
    ultimately show ?thesis
      using I(2,5) by (simp add: consumer_wakes server_inv_def control_ok_def times_ok_def)
  qed
qed

lemma server_reachable:
  assumes "array_shaped b" and "monotone_clock reads" and "fits args"
    and "reaches (server_step ops reads writable args) (server_start start b t) s"
  shows "server_inv writable args b s"
  by (rule reaches_invariant [OF assms(4)]) (auto intro: server_inv_start server_inv_step [OF assms(1-3)])

end

end
