(* ===== verification/Server_Progress.thy ===== *)
theory Server_Progress
  imports Server_Threads
begin

text \<open>
  Runs of the server's three threads: what holds at every point of a run, that every run can be
  completed from wherever it has got to, and what a completed run has computed.
\<close>

section \<open>What a run guarantees\<close>

text \<open>
  No fault; the messages received are the workload and the shutdown message, in order, stamped
  at least the pacing apart; the latencies are true differences, that of the queue within that of
  the whole; and between two messages the book holds one bid of 10 at 100 for each, up to its
  capacity.
\<close>

definition run_safe :: "Args \<Rightarrow> OrderMessage list \<Rightarrow> 'q server \<Rightarrow> bool" where
  "run_safe args rs s \<longleftrightarrow> (let e = s_engine s in
     (\<forall>f. s_eng s \<noteq> EngFault f) \<and>
     prefix (map unstamped rs) (map unstamped (build_workload args @ [shutdown_message])) \<and>
     paced (pacing_ns args) (stamps rs) \<and>
     length (queue_latencies e) = length (latencies e) \<and> length (latencies e) \<le> length rs \<and>
     (\<forall>i < length (latencies e). queue_latencies e ! i \<le> latencies e ! i \<and>
        unat (m_timestamp (rs ! i)) + unat (latencies e ! i) \<le> unat (now_ns (s_now s))) \<and>
     (s_eng s = EngPop \<or> s_eng s = EngDone \<longrightarrow>
        (\<exists>a. bitset_refines (e_book e) a \<and> workload_book kBookOrders (length (work rs)) a)))"

section \<open>No run gets stuck\<close>

text \<open>What a thread has still to do; the constants make room for the calls that it begins.\<close>

definition main_cost :: "bool \<Rightarrow> main_pc \<Rightarrow> nat" where
  "main_cost pushing m = (case m of MainStart \<Rightarrow> 23 | MainSpawn \<Rightarrow> 22 | MainJoinNet \<Rightarrow> 21
     | MainStop \<Rightarrow> if pushing then 5 else 20 | MainJoinEngine \<Rightarrow> 4 | MainFinish \<Rightarrow> 3 | MainDone r \<Rightarrow> 0)"

definition net_cost :: "nat \<Rightarrow> bool \<Rightarrow> net_pc \<Rightarrow> nat" where
  "net_cost n pushing p = (case p of NetOff \<Rightarrow> 40 * n + 5 | NetWait ms \<Rightarrow> 40 * length ms + 4
     | NetNext ms \<Rightarrow> 40 * length ms + 2 | NetPush m ms \<Rightarrow> 40 * length ms + (if pushing then 20 else 35)
     | NetPace w ms \<Rightarrow> 40 * length ms + 10 | NetDone \<Rightarrow> 0)"

definition engine_cost :: "bool \<Rightarrow> eng_pc \<Rightarrow> nat" where
  "engine_cost popping p = (case p of EngOff \<Rightarrow> 30 | EngInit \<Rightarrow> 29 | EngReady \<Rightarrow> 28
     | EngPop \<Rightarrow> if popping then 20 else 27 | EngGot m \<Rightarrow> 50 | EngMatch m tp \<Rightarrow> 49 | EngRecord m tp \<Rightarrow> 48
     | EngDone \<Rightarrow> 0 | EngFault f \<Rightarrow> 0)"

lemma cost_simps [simp]:
  "main_cost p MainStart = 23" "main_cost p MainSpawn = 22" "main_cost p MainJoinNet = 21"
  "main_cost True MainStop = 5" "main_cost False MainStop = 20" "main_cost p MainJoinEngine = 4"
  "main_cost p MainFinish = 3" "main_cost p (MainDone r) = 0"
  "net_cost n p NetOff = 40 * n + 5" "net_cost n p (NetWait ms) = 40 * length ms + 4"
  "net_cost n p (NetNext ms) = 40 * length ms + 2" "net_cost n True (NetPush m ms) = 40 * length ms + 20"
  "net_cost n False (NetPush m ms) = 40 * length ms + 35" "net_cost n p (NetPace w ms) = 40 * length ms + 10"
  "net_cost n p NetDone = 0"
  "engine_cost p EngOff = 30" "engine_cost p EngInit = 29" "engine_cost p EngReady = 28"
  "engine_cost True EngPop = 20" "engine_cost False EngPop = 27" "engine_cost p (EngGot m) = 50"
  "engine_cost p (EngMatch m tp) = 49" "engine_cost p (EngRecord m tp) = 48" "engine_cost p EngDone = 0"
  by (simp_all add: main_cost_def net_cost_def engine_cost_def)

context server_queue
begin

text \<open>Some thread can always take a step that leaves less to do.\<close>

definition cost :: "Args \<Rightarrow> 's server \<Rightarrow> nat" where
  "cost args s = main_cost (qo_pushing ops (s_queue s)) (s_main s) +
     net_cost (unat (workload args)) (qo_pushing ops (s_queue s)) (s_net s) +
     engine_cost (qo_popping ops (s_queue s)) (s_eng s) +
     40 * (Suc (unat (workload args)) - length (received (s_queue s))) + effort (s_queue s)"

lemma received_few:
  assumes "inv (s_queue s)" and "messages_ok ops args begun s"
  shows "length (received (s_queue s)) \<le> Suc (unat (workload args))"
proof -
  obtain out where "length out = unat (workload args)" "prefix (received (s_queue s)) (out @ [shutdown_message])"
    using received_parts [OF assms] by (auto simp: build_workload_def dest!: map_eq_imp_length_eq)
  then show ?thesis by (metis length_append_singleton prefix_length_le)
qed

definition goes_on :: "(timespec \<Rightarrow> timespec \<Rightarrow> bool) \<Rightarrow> (string \<Rightarrow> bool) \<Rightarrow> Args \<Rightarrow> 's server \<Rightarrow> bool" where
  "goes_on reads writable args s \<longleftrightarrow> (\<exists>t. server_step ops reads writable args s t \<and> cost args t < cost args s)"

lemma goes_onI: "server_step ops reads writable args s t \<Longrightarrow> cost args t < cost args s \<Longrightarrow> goes_on reads writable args s"
  by (auto simp: goes_on_def)

lemma net_push_goes:
  assumes "s_net s = NetPush m ms" and "\<not> net_joined (s_main s)" and "running_clock reads" and "qo_push_can ops v (s_queue s)"
    and "if qo_pushing ops (s_queue s) then effort (qo_push ops m v (s_queue s)) < effort (s_queue s)
      else effort (qo_push ops m v (s_queue s)) \<le> effort (s_queue s) + 12"
  shows "goes_on reads writable args s"
proof -
  obtain ts where "reads (s_now s) ts" using assms(3) by (auto simp: running_clock_def)
  then have step: "server_step ops reads writable args s (net_step ops args v ts False s)"
    by (intro net_moves assms(4)) simp_all
  have main: "main_cost p (s_main s) = main_cost q (s_main s)" for p q
    using assms(2) by (cases "s_main s") simp_all
  show ?thesis
    by (rule goes_onI [OF step])
      (use assms(1,5) push_begins [of "s_queue s" m v] main [of True False] in
        \<open>cases "qo_pushing ops (s_queue s)"; cases "qo_pushing ops (qo_push ops m v (s_queue s))";
          simp add: cost_def net_step_defs Let_def\<close>)
qed

lemma main_push_goes:
  assumes "s_main s = MainStop" and "s_net s = NetDone" and "qo_push_can ops v (s_queue s)"
    and "if qo_pushing ops (s_queue s) then effort (qo_push ops shutdown_message v (s_queue s)) < effort (s_queue s)
      else effort (qo_push ops shutdown_message v (s_queue s)) \<le> effort (s_queue s) + 12"
  shows "goes_on reads writable args s"
  by (rule goes_onI [OF main_moves [OF assms(3)]])
    (use assms(1,2,4) push_begins [of "s_queue s" shutdown_message v] in
      \<open>cases "qo_pushing ops (s_queue s)"; cases "qo_pushing ops (qo_push ops shutdown_message v (s_queue s))";
        simp add: cost_def main_step_defs Let_def\<close>)

lemma engine_pop_goes:
  assumes inv: "server_inv writable args b s" and "s_eng s = EngPop" and "running_clock reads" and "fits args"
    and "array_shaped b" and "monotone_clock reads" and "qo_pop_can ops v (s_queue s)"
    and less: "if qo_popping ops (s_queue s) then effort (qo_pop ops v (s_queue s)) < effort (s_queue s)
      else effort (qo_pop ops v (s_queue s)) \<le> effort (s_queue s) + 4"
  shows "goes_on reads writable args s"
proof -
  obtain ts where ts: "reads (s_now s) ts" using assms(3) by (auto simp: running_clock_def)
  let ?q = "qo_pop ops v (s_queue s)" let ?t = "engine_step ops v ts s"
  have step: "server_step ops reads writable args s ?t" by (intro engine_moves assms(7) ts)
  from server_inv_step [OF assms(5,6,4) inv step] have "server_inv writable args b ?t" .
  from received_few [OF server_invD(1,3) [OF this]] assms(2)
  have few: "length (received ?q) \<le> Suc (unat (workload args))" by (simp add: engine_step_def Let_def)
  show ?thesis
  proof (cases "qo_popping ops ?q")
    case True
    then have "received ?q = received (s_queue s)" by (rule pop_waits)
    with True show ?thesis
      by (intro goes_onI [OF step]) (use assms(2) less in \<open>auto simp: cost_def engine_step_def Let_def split: if_splits\<close>)
  next
    case False
    then have on: "qo_popping ops (s_queue s)" using pop_begins by blast
    obtain m where "received ?q = received (s_queue s) @ [m]" using pop_returns [OF False] by blast
    with False on few show ?thesis
      by (intro goes_onI [OF step]) (use assms(2) less in \<open>simp add: cost_def engine_step_def Let_def\<close>)
  qed
qed

lemma engine_goes:
  assumes inv: "server_inv writable args b s" and "running_clock reads" and "fits args"
    and shaped: "array_shaped b" and "monotone_clock reads"
    and "s_eng s \<noteq> EngOff" "s_eng s \<noteq> EngDone" "\<not> qo_popping ops (s_queue s)"
  shows "goes_on reads writable args s"
proof -
  note I = server_invD [OF inv]
  obtain ts where ts: "reads (s_now s) ts" using assms(2) by (auto simp: running_clock_def)
  obtain v where v: "qo_pop_can ops v (s_queue s)" using can_choose(2) [OF I(1)] by blast
  have step: "server_step ops reads writable args s (engine_step ops v ts s)" by (intro engine_moves v ts)
  show ?thesis
  proof (cases "s_eng s")
    case EngInit
    then have "s_engine s = new_engine b" using I(4) by (simp add: engine_ok_simps)
    moreover obtain b' where "init b kBookOrders = ret b'"
      using bitset_if.init_law [of b kBookOrders] shaped by (auto simp: returns_def bitset_ops_def kBookOrders_def)
    ultimately show ?thesis
      by (intro goes_onI [OF step]) (simp add: EngInit cost_def engine_step_def new_engine_def)
  next
    case EngReady
    then show ?thesis by (intro goes_onI [OF step]) (use assms(8) in \<open>simp add: cost_def engine_step_def Let_def\<close>)
  next
    case EngPop
    obtain v where "qo_pop_can ops v (s_queue s)" "effort (qo_pop ops v (s_queue s)) \<le> effort (s_queue s) + 4"
      using pop_start_effort [OF I(1) assms(8)] by blast
    then show ?thesis using engine_pop_goes [OF inv EngPop assms(2-5)] assms(8) by simp
  next
    case (EngGot m)
    then show ?thesis by (intro goes_onI [OF step]) (simp add: cost_def engine_step_def Let_def)
  next
    case (EngMatch m tp)
    with I(4) obtain clock ms where e: "received (s_queue s) = ms @ [m]" "m_type m \<noteq> SHUTDOWN"
      "engine_run clock kBookOrders ms (new_engine b) = ret (s_engine s, False)" by (auto simp: engine_ok_simps)
    obtain b' where "handle_message m (e_book (s_engine s)) = ret b'"
      using workload_handled [OF shaped _ _ e(2,3)] received_parts [OF I(1,3)] e(1) by metis
    then show ?thesis by (intro goes_onI [OF step]) (simp add: EngMatch cost_def engine_step_def Let_def)
  next
    case (EngRecord m tp)
    then show ?thesis by (intro goes_onI [OF step]) (use assms(8) in \<open>simp add: cost_def engine_step_def Let_def\<close>)
  next
    case (EngFault f)
    then show ?thesis using I(4) by (simp add: engine_ok_simps)
  qed (use assms in simp_all)
qed

lemma engine_ready:
  assumes "engine_ok b rs s" and "s_eng s \<noteq> EngOff" "s_eng s \<noteq> EngInit" "s_eng s \<noteq> EngReady"
  shows "ready (s_engine s)"
  using assms by (cases "s_eng s") (auto simp: engine_ok_simps dest: engine_run_facts(1))

lemma engine_done_shutdown:
  assumes "engine_ok b rs s" and "s_eng s = EngDone"
  shows "\<exists>m \<in> set rs. m_type m = SHUTDOWN"
  using assms by (auto simp: engine_ok_simps dest: engine_run_facts(2))

lemma push_goes_on_either:
  assumes inv: "server_inv writable args b s" and clock: "running_clock reads" "monotone_clock reads" and fits: "fits args"
    and shaped: "array_shaped b" and "s_eng s \<noteq> EngOff"
    and ended: "s_eng s = EngDone \<Longrightarrow> \<not> blocked_push (s_queue s) \<or> \<not> qo_pushing ops (s_queue s)"
    and push: "\<And>v. qo_push_can ops v (s_queue s) \<Longrightarrow>
      (if qo_pushing ops (s_queue s) then effort (qo_push ops m v (s_queue s)) < effort (s_queue s)
       else effort (qo_push ops m v (s_queue s)) \<le> effort (s_queue s) + 12) \<Longrightarrow> goes_on reads writable args s"
  shows "goes_on reads writable args s"
proof -
  note I = server_invD [OF inv]
  show ?thesis
  proof (cases "qo_pushing ops (s_queue s)")
    case False
    then show ?thesis using push_start_effort [OF I(1) False, of m] push by auto
  next
    case pushing: True
    show ?thesis
    proof (cases "qo_popping ops (s_queue s)")
      case True
      then have "s_eng s = EngPop" using I(2) by (simp add: control_ok_def)
      then show ?thesis
        using both_go_on [OF I(1) pushing True, of m] push pushing True engine_pop_goes [OF inv _ clock(1) fits shaped clock(2)] by auto
    next
      case False
      show ?thesis
      proof (cases "blocked_push (s_queue s)")
        case True
        then show ?thesis using engine_goes [OF inv clock(1) fits shaped clock(2) assms(6)] ended pushing False by blast
      next
        case False
        then show ?thesis using push_alone [OF I(1) pushing \<open>\<not> qo_popping ops (s_queue s)\<close>, of m] push pushing by auto
      qed
    qed
  qed
qed

lemma net_goes:
  assumes inv: "server_inv writable args b s" and clock: "running_clock reads" "monotone_clock reads" and fits: "fits args"
    and shaped: "array_shaped b" and main: "s_main s = MainJoinNet"
  shows "goes_on reads writable args s"
proof -
  note I = server_invD [OF inv]
  have off: "s_eng s \<noteq> EngOff" "s_net s \<noteq> NetOff" using I(2) main by (simp_all add: control_ok_def)
  obtain v where v: "qo_push_can ops v (s_queue s)" using can_choose(1) [OF I(1)] by blast
  obtain ts where ts: "reads (s_now s) ts" using clock(1) by (auto simp: running_clock_def)
  show ?thesis
  proof (cases "s_net s")
    case NetDone
    have "goes_on reads writable args s" if "s_main s = MainJoinNet"
      by (rule goes_onI [OF main_moves [OF v]])
        (use that NetDone in \<open>cases "qo_pushing ops (s_queue s)"; simp add: cost_def main_step_defs\<close>)
    then show ?thesis using main .
  next
    case (NetWait ms)
    show ?thesis
    proof (cases "ready (s_engine s)")
      case True
      have "server_step ops reads writable args s (net_step ops args v ts True s)"
        by (intro net_moves v ts) (simp add: True)
      then show ?thesis by (rule goes_onI) (simp add: cost_def net_step_defs NetWait)
    next
      case False
      then have "s_eng s = EngInit \<or> s_eng s = EngReady" using engine_ready [OF I(4)] off by blast
      moreover from this have "\<not> qo_popping ops (s_queue s)" using I(2) by (auto simp: control_ok_def)
      ultimately show ?thesis using engine_goes [OF inv clock(1) fits shaped clock(2) off(1)] by auto
    qed
  next
    case (NetNext ms)
    then have idle: "\<not> qo_pushing ops (s_queue s)" using I(2) main by (auto simp: control_ok_def)
    have "server_step ops reads writable args s (net_step ops args v ts False s)" by (intro net_moves v ts) simp
    then show ?thesis by (rule goes_onI) (cases ms; simp add: cost_def net_step_defs NetNext idle)
  next
    case (NetPace w ms)
    obtain u where u: "reads (s_now s) u" "w \<le> now_ns u" using clock(1) by (auto simp: running_clock_def)
    have "server_step ops reads writable args s (net_step ops args v u False s)" by (intro net_moves v u) simp
    then show ?thesis by (rule goes_onI) (simp add: cost_def net_step_defs NetPace u)
  next
    case (NetPush m ms)
    have "s_eng s \<noteq> EngDone"
    proof
      assume "s_eng s = EngDone"
      from engine_done_shutdown [OF I(4) this] have "main_left ops s = []" using shutdown_last(1) [OF I(3,1)] by blast
      then show False using main by (simp add: left_simps)
    qed
    moreover have "\<not> net_joined (s_main s)" using main by simp
    ultimately show ?thesis
      using push_goes_on_either [OF inv clock fits shaped off(1), of m] net_push_goes [OF NetPush _ clock(1)] by blast
  qed (use off in simp)
qed

lemma progress:
  assumes inv: "server_inv writable args b s" and clock: "running_clock reads" "monotone_clock reads" and fits: "fits args"
    and shaped: "array_shaped b" and unfinished: "\<And>r. s_main s \<noteq> MainDone r"
  shows "goes_on reads writable args s"
proof -
  note I = server_invD [OF inv]
  obtain v where v: "qo_push_can ops v (s_queue s)" using can_choose(1) [OF I(1)] by blast
  have step: "server_step ops reads writable args s (main_step ops writable args v s)" by (rule main_moves [OF v])
  show ?thesis
  proof (cases "s_main s")
    case MainStart
    then have "s_eng s = EngOff" using I(2) by (simp add: control_ok_def)
    then show ?thesis using MainStart by (intro goes_onI [OF step]) (simp add: cost_def main_step_defs)
  next
    case MainSpawn
    then have "s_net s = NetOff" using I(2) by (simp add: control_ok_def)
    then show ?thesis using MainSpawn by (intro goes_onI [OF step]) (simp add: cost_def main_step_defs build_workload_def)
  next
    case MainJoinNet
    then show ?thesis by (rule net_goes [OF inv clock fits shaped])
  next
    case MainStop
    then have net: "s_net s = NetDone" and off: "s_eng s \<noteq> EngOff" using I(2) by (simp_all add: control_ok_def)
    have "\<not> blocked_push (s_queue s)" if "s_eng s = EngDone"
      using engine_done_shutdown [OF I(4) that] shutdown_last(2) [OF I(3,1)] blocked_unreceived [OF I(1)] by blast
    then show ?thesis
      using push_goes_on_either [OF inv clock fits shaped off, of shutdown_message] main_push_goes [OF MainStop net] by blast
  next
    case MainJoinEngine
    then have net: "s_net s = NetDone" and off: "s_eng s \<noteq> EngOff" and idle: "\<not> qo_pushing ops (s_queue s)"
      using I(2) by (auto simp: control_ok_def)
    show ?thesis
    proof (cases "s_eng s = EngDone")
      case True
      then show ?thesis using MainJoinEngine by (intro goes_onI [OF step]) (simp add: cost_def main_step_defs)
    next
      case False
      show ?thesis
      proof (cases "qo_popping ops (s_queue s)")
        case True
        then have pop: "s_eng s = EngPop" using I(2) by (simp add: control_ok_def)
        then have "\<forall>m \<in> set (received (s_queue s)). m_type m \<noteq> SHUTDOWN"
          using I(4) by (auto simp: engine_ok_simps dest: engine_run_facts(2))
        moreover have "shutdown_message \<in> set (begun (s_queue s))"
          using I(3) MainJoinEngine net by (auto simp: messages_ok_def left_simps)
        moreover have "m_type shutdown_message = SHUTDOWN" by (simp add: shutdown_message_def)
        ultimately have "received (s_queue s) \<noteq> sent (s_queue s)"
          using begun_idle [OF idle] by metis
        then show ?thesis
          using pop_alone [OF I(1) idle True] engine_pop_goes [OF inv pop clock(1) fits shaped clock(2)] True by auto
      next
        case False
        then show ?thesis using engine_goes [OF inv clock(1) fits shaped clock(2) off] \<open>s_eng s \<noteq> EngDone\<close> by blast
      qed
    qed
  next
    case MainFinish
    then show ?thesis by (intro goes_onI [OF step]) (simp add: cost_def main_step_defs)
  qed (use unfinished in simp)
qed

theorem completes:
  assumes clock: "running_clock reads" "monotone_clock reads" and fits: "fits args" and shaped: "array_shaped b"
    and "server_inv writable args b s"
  shows "\<exists>t r. reaches (server_step ops reads writable args) s t \<and> s_main t = MainDone r"
  using assms(5)
proof (induction "cost args s" arbitrary: s rule: less_induct)
  case less
  show ?case
  proof (cases "\<exists>r. s_main s = MainDone r")
    case False
    then obtain u where u: "server_step ops reads writable args s u" "cost args u < cost args s"
      using progress [OF less.prems clock fits shaped] by (auto simp: goes_on_def)
    from less.hyps [OF u(2) server_inv_step [OF shaped clock(2) fits less.prems u(1)]] u(1) show ?thesis
      by (meson reaches_refl reaches_step reaches_trans)
  qed (auto intro: reaches_refl)
qed

text \<open>What the invariant says of a run.\<close>

lemma server_safe:
  assumes shaped: "array_shaped b" and inv: "server_inv writable args b s"
  shows "run_safe args (received (s_queue s)) s"
proof -
  note I = server_invD [OF inv]
  let ?rs = "received (s_queue s)"
  obtain out where out: "map unstamped out = map unstamped (build_workload args)" "prefix ?rs (out @ [shutdown_message])"
    using received_parts [OF I(1,3)] by blast
  have "\<forall>f. s_eng s \<noteq> EngFault f" using I(4) by (auto simp: engine_ok_simps)
  moreover have "prefix (map unstamped ?rs) (map unstamped (build_workload args @ [shutdown_message]))"
    using map_mono_prefix [OF out(2), of unstamped] out(1) by simp
  moreover have "paced (pacing_ns args) (stamps ?rs)"
  proof -
    obtain zs where "begun (s_queue s) = ?rs @ zs" using received_begun [OF I(1)] by (auto simp: prefix_def)
    moreover have "paced (pacing_ns args) (stamps (begun (s_queue s)))" using I(6) by (simp add: pacing_ok_def)
    ultimately show ?thesis by (simp add: stamps_def paced_def successively_append_iff)
  qed
  moreover have "\<exists>a. bitset_refines (e_book (s_engine s)) a \<and> workload_book kBookOrders (length (work ?rs)) a"
    if "s_eng s = EngPop \<or> s_eng s = EngDone"
  proof -
    obtain clock st where run: "engine_run clock kBookOrders ?rs (new_engine b) = ret (s_engine s, st)"
      using I(4) \<open>s_eng s = EngPop \<or> s_eng s = EngDone\<close> by (auto simp: engine_ok_simps)
    have "array_shaped (e_book (new_engine b))" using shaped by (simp add: new_engine_def)
    from server_engine_returns [OF this out, of clock] run show ?thesis by (auto simp: returns_def)
  qed
  ultimately show ?thesis
    using times_hand(5-7) [OF I(5)] by (simp add: run_safe_def Let_def)
qed

lemma server_result:
  assumes inv: "server_inv writable args b s" and "s_main s = MainDone r"
  shows "\<exists>out clock. map unstamped out = map unstamped (build_workload args) \<and>
    paced (pacing_ns args) (map m_timestamp out) \<and> received (s_queue s) = out @ [shutdown_message] \<and>
    r = server_run writable clock args (out @ [shutdown_message]) b"
proof -
  note I = server_invD [OF inv]
  have ends: "s_eng s = EngDone" "s_net s = NetDone" "r = finish_run writable args (s_engine s)"
    using I(2) assms(2) by (simp_all add: control_ok_def)
  obtain out where out: "map unstamped out = map unstamped (build_workload args)"
    "begun (s_queue s) = out @ [shutdown_message]"
    using I(3) ends(2) assms(2) by (auto simp: messages_ok_def left_simps)
  have got: "received (s_queue s) = out @ [shutdown_message]"
    using engine_done_shutdown [OF I(4) ends(1)] shutdown_last(2) [OF I(3,1)] out(2) by metis
  obtain clock where run: "engine_run clock kBookOrders (out @ [shutdown_message]) (new_engine b) = ret (s_engine s, True)"
    using I(4) ends(1) got by (auto simp: engine_ok_simps)
  have "filter (\<lambda>m. m_type m \<noteq> SHUTDOWN) out = out"
    using sent_types [OF out(1)] by (auto simp: filter_id_conv)
  moreover have "paced (pacing_ns args) (stamps (out @ [shutdown_message]))"
    using I(6) out(2) by (simp add: pacing_ok_def)
  ultimately have "paced (pacing_ns args) (map m_timestamp out)" by (simp add: stamps_def shutdown_message_def)
  moreover have "r = server_run writable clock args (out @ [shutdown_message]) b"
    using run ends(3) by (simp add: server_run_def)
  ultimately show ?thesis using out(1) got by blast
qed

text \<open>From any point of a run on, the run can be completed.\<close>

theorem server_completes:
  assumes clock: "running_clock reads" "monotone_clock reads" and fits: "fits args" and shaped: "array_shaped b"
    and "reaches (server_step ops reads writable args) (server_start start b t) s"
  shows "\<exists>u out clock. reaches (server_step ops reads writable args) s u \<and>
    s_main u = MainDone (server_run writable clock args (out @ [shutdown_message]) b) \<and>
    map unstamped out = map unstamped (build_workload args)"
proof -
  have inv: "server_inv writable args b s" by (rule server_reachable [OF shaped clock(2) fits assms(5)])
  obtain u r where u: "reaches (server_step ops reads writable args) s u" "s_main u = MainDone r"
    using completes [OF clock fits shaped inv] by blast
  have "reaches (server_step ops reads writable args) (server_start start b t) u"
    by (rule reaches_trans [OF u(1) assms(5)])
  from server_result [OF server_reachable [OF shaped clock(2) fits this] u(2)] u show ?thesis by blast
qed

end

section \<open>The three queues of the server\<close>

interpretation cached_server: server_queue "spsc_start zero_message kQueueCapacity" "spsc_step True kQueueCapacity"
  pushed popped spsc_started push_spins pop_spins "Some (2 * kQueueCapacity)" "spsc_inv True kQueueCapacity"
  "spsc_ops True kQueueCapacity" spsc_begun spsc_effort
  by unfold_locales

interpretation uncached_server: server_queue "spsc_start zero_message kQueueCapacity" "spsc_step False kQueueCapacity"
  pushed popped spsc_started push_spins pop_spins "Some (2 * kQueueCapacity)" "spsc_inv False kQueueCapacity"
  "spsc_ops False kQueueCapacity" spsc_begun spsc_effort
  by unfold_locales

interpretation naive_server: server_queue naive_start naive_step put_in taken_out naive_started
  naive_blocked_push naive_blocked_pop None naive_inv naive_ops naive_begun naive_effort
  by unfold_locales

end
