(* ===== verification/Sample_Runs.thy ===== *)
theory Sample_Runs
  imports Sample_Books Server_Progress Programs
begin

text \<open>
  Concrete runs of the queues and of the engine: one message through each queue, and an engine
  that gets the three asks of the sample book and the shutdown message.
\<close>

section \<open>The queues\<close>

datatype 'm move = Push 'm nat | Pop nat

text \<open>A sequence of steps, each allowed by the step relation.\<close>

fun spsc_moves :: "bool \<Rightarrow> nat \<Rightarrow> 'm move list \<Rightarrow> 'm spsc \<Rightarrow> 'm spsc option" where
  "spsc_moves cached N [] s = Some s"
| "spsc_moves cached N (Push m v # ms) s =
     (if head_view s \<le> v \<and> v \<le> length (popped s) \<and> \<not> push_races N s
      then spsc_moves cached N ms (push_step cached N m v s) else None)"
| "spsc_moves cached N (Pop v # ms) s =
     (if tail_view s \<le> v \<and> v \<le> length (pushed s) \<and> \<not> pop_races N s
      then spsc_moves cached N ms (pop_step cached N v s) else None)"

lemma spsc_moves_reach:
  "spsc_moves cached N ms s = Some t \<Longrightarrow> reaches (spsc_step cached N) s t"
proof (induction ms arbitrary: s)
  case (Cons mv ms)
  then obtain s' where "spsc_step cached N s s'" "spsc_moves cached N ms s' = Some t"
    by (cases mv) (auto split: if_splits intro: spsc_step.intros)
  with Cons.IH show ?case by (metis reaches_refl reaches_step reaches_trans)
qed (auto intro: reaches_refl)

text \<open>One message through a ring of two: the consumer first reads the stale index and spins.\<close>

definition through :: "nat move list" where
  "through = [Push 7 0, Pop 0, Push 7 0, Pop 0, Push 7 0, Push 7 0, Pop 0, Pop 1, Pop 1, Pop 1, Push 8 0, Push 8 0]"

definition one_through :: "nat spsc" where
  "one_through = the (spsc_moves True 2 through (spsc_start 0 2))"

lemmas spsc_eval = push_step_def pop_step_def spsc_start_def q_mask_def slot_def spsc_started_def push_races_def
  pop_races_def slot_reads_def slot_writes_def

lemma through: "\<exists>s. spsc_moves True 2 through (spsc_start 0 2) = Some s \<and> pushed s = [7] \<and> popped s = [7] \<and> spsc_started s = 2"
  by (simp add: through_def spsc_eval)

lemma one_through: "reaches (spsc_step True 2) (spsc_start 0 2) one_through" "pushed one_through = [7]"
  "popped one_through = [7]" "spsc_started one_through = 2"
  using through by (auto simp: one_through_def intro: spsc_moves_reach)

lemma reaches_naive_pushes: "reaches naive_step s ((naive_push_step m ^^ i) s)"
  by (induction i) (auto intro: reaches.intros naive_producer)

lemma reaches_naive_pops: "reaches naive_step s ((naive_pop_step ^^ i) s)"
  by (induction i) (auto intro: reaches.intros naive_consumer)

text \<open>The consumer goes to sleep, is woken by the push, and takes the message.\<close>

definition woken :: "nat naive_queue" where
  "woken = (naive_pop_step ^^ 4) ((naive_push_step 7 ^^ 5) ((naive_pop_step ^^ 3) naive_start))"

lemma woken: "reaches naive_step naive_start woken" "put_in woken = [7]" "taken_out woken = [7]"
proof -
  show "reaches naive_step naive_start woken"
    unfolding woken_def
    by (rule reaches_trans [OF reaches_naive_pops reaches_trans [OF reaches_naive_pushes reaches_naive_pops]])
  show "put_in woken = [7]" "taken_out woken = [7]"
    by (simp_all add: woken_def eval_nat_numeral naive_push_step_def naive_pop_step_def naive_start_def)
qed

section \<open>The engine\<close>

definition ask_message :: "u64 \<Rightarrow> u64 \<Rightarrow> u32 \<Rightarrow> OrderMessage" where
  "ask_message oid price qty = zero_message\<lparr>m_id := oid, m_price := price, m_qty := qty\<rparr>"

definition sample_messages :: "OrderMessage list" where
  "sample_messages = [ask_message 0 2 5, ask_message 1 2 7, ask_message 2 3 4, shutdown_message]"

text \<open>A clock that shows 10, 20, 30 nanoseconds and so on, up to one second.\<close>

definition tick :: "nat \<Rightarrow> timespec" where
  "tick k = \<lparr>tv_sec = 0, tv_nsec = 10 * int (min k 99999999) + 10\<rparr>"

lemma sample_work: "map command_of (work sample_messages) = sample_commands"
  by (simp add: work_def sample_messages_def ask_message_def zero_message_def command_of_def shutdown_message_def
      sample_commands_def)

lemma sample_shutdown: "\<exists>m \<in> set sample_messages. m_type m = SHUTDOWN"
  by (simp add: sample_messages_def shutdown_message_def)

lemma now_tick: "now_ns (tick k) = of_nat (10 * min k 99999999 + 10)"
  by (simp add: now_ns_def tick_def)

lemma tick_mono: "now_ns (tick k) \<le> now_ns (tick (Suc k))"
proof -
  have u: "unat (of_nat (10 * min k 99999999 + 10) :: u64) = 10 * min k 99999999 + 10" for k
    by (rule unat_of_nat_u64) simp
  show ?thesis unfolding now_tick word_le_nat_alt u by simp
qed

text \<open>A clock that may show any time not before the last.\<close>

text \<open>A clock that shows real time: a reading every 10 ns, from 10 ns on, as seconds and nanoseconds.\<close>

definition wall :: "nat \<Rightarrow> timespec" where
  "wall k = \<lparr>tv_sec = int ((10 * k + 10) div 1000000000), tv_nsec = int ((10 * k + 10) mod 1000000000)\<rparr>"

lemma wall_time: "shows_time wall (\<lambda>k. 10 * k + 10) 10"
proof -
  have "now_ns (wall k) = of_nat (10 * k + 10)" for k
  proof -
    let ?x = "10 * k + 10" and ?n = "1000000000 :: nat"
    have "now_ns (wall k) = of_nat (?x div ?n) * of_nat ?n + of_nat (?x mod ?n)" by (simp add: now_ns_def wall_def)
    also have "\<dots> = of_nat (?x div ?n * ?n + ?x mod ?n)" by (simp only: of_nat_add of_nat_mult)
    finally show ?thesis by (simp only: div_mult_mod_eq)
  qed
  moreover have "\<exists>k. w \<le> 10 * k + 10" for w :: nat by (intro exI [of _ w]) simp
  ultimately show ?thesis by (simp add: shows_time_def)
qed

definition later :: "timespec \<Rightarrow> timespec \<Rightarrow> bool" where
  "later t u \<longleftrightarrow> now_ns t \<le> now_ns u"

lemma later_clock: "monotone_clock later" "running_clock later"
proof -
  show "monotone_clock later" by (simp add: monotone_clock_def later_def)
  have "\<exists>u. now_ns t \<le> now_ns u \<and> w \<le> now_ns u" for t w
  proof -
    have "now_ns \<lparr>tv_sec = 0, tv_nsec = uint (max (now_ns t) w)\<rparr> = max (now_ns t) w" by (simp add: now_ns_def)
    then show ?thesis by (metis max.cobounded1 max.cobounded2)
  qed
  then show "running_clock later" by (simp add: running_clock_def later_def)
qed

section \<open>The producer\<close>

definition two_messages :: Args where
  "two_messages = default_args\<lparr>pacing_ns := 20, workload := 2\<rparr>"

definition sent_two :: "OrderMessage list" where
  "sent_two = [(workload_message 0)\<lparr>m_timestamp := 10\<rparr>, (workload_message 1)\<lparr>m_timestamp := 40\<rparr>]"

lemma build_two: "build_workload two_messages = [workload_message 0, workload_message 1]"
  by (simp add: build_workload_def two_messages_def upt_rec)

lemma send_two: "send_all tick 0 (pacing_ns two_messages) (build_workload two_messages) = Some sent_two"
proof -
  have now: "now_ns (tick k) = of_nat (10 * k + 10)" if "k \<le> 99999999" for k
    using that by (simp add: now_tick)
  have spin: "spin_until tick k w = (if now_ns (tick k) \<ge> w then Some (Suc k) else spin_until tick (Suc k) w)" for k w
    by (rule spin_until.simps)
  have "spin_until tick (Suc 0) 30 = Some 3"
    by (simp add: spin [of "Suc 0"] spin [of "Suc (Suc 0)"] now)
  moreover have "spin_until tick 4 60 = Some 6"
    by (simp add: spin [of 4] spin [of 5] now)
  ultimately show ?thesis
    unfolding build_two
    by (simp add: two_messages_def now sent_two_def workload_message_def zero_message_def)
qed

lemma sent_two_unstamped: "map unstamped sent_two = map unstamped (build_workload two_messages)"
  by (simp add: build_two sent_two_def unstamped_def)

text \<open>Consumers that come back to an empty queue: one spins, the other sleeps.\<close>

definition draining :: "nat move list" where
  "draining = replicate 4 (Push 7 0) @ replicate 7 (Pop 1)"

definition drained :: "nat spsc" where
  "drained = the (spsc_moves True 2 draining (spsc_start 0 2))"

lemma draining: "\<exists>s. spsc_moves True 2 draining (spsc_start 0 2) = Some s \<and> pop_spins s \<and> spsc_started s = 1"
  by (simp add: draining_def spsc_eval pop_spins_def eval_nat_numeral)

lemma drained: "reaches (spsc_step True 2) (spsc_start 0 2) drained" "pop_spins drained" "spsc_started drained = 1"
  using draining by (auto simp: drained_def intro: spsc_moves_reach)

definition asleep :: "nat naive_queue" where
  "asleep = (naive_pop_step ^^ 3) woken"

lemma asleep: "reaches naive_step naive_start asleep" "naive_blocked_pop asleep"
  unfolding asleep_def
  by (rule reaches_trans [OF reaches_naive_pops woken(1)])
     (simp add: woken_def eval_nat_numeral naive_push_step_def naive_pop_step_def naive_start_def naive_blocked_pop_def)

section \<open>The server\<close>

text \<open>Two messages through the cached ring buffer, to the end.\<close>

abbreviation two_step :: "OrderMessage spsc server \<Rightarrow> OrderMessage spsc server \<Rightarrow> bool" where
  "two_step \<equiv> server_step (spsc_ops True kQueueCapacity) later (\<lambda>_. True) two_messages"

abbreviation two_start :: "OrderMessage spsc server" where
  "two_start \<equiv> server_start (spsc_start zero_message kQueueCapacity) blank_bitset (tick 0)"

lemma two_fit: "unat (workload two_messages) < 2 * kQueueCapacity"
  by (simp add: two_messages_def kQueueCapacity_def)

lemma two_finish: "\<exists>s r. reaches two_step two_start s \<and> s_main s = MainDone r"
  using cached_server.server_completes [OF later_clock(2,1) _ blank_shaped(1) reaches_refl, of two_messages] two_fit
  by (fastforce simp: cached_server.fits_def in_budget_def)

section \<open>A host\<close>

definition sample_host :: host where
  "sample_host = \<lparr>h_files = Map.empty, h_clock = tick, h_tsc = (\<lambda>_. 0), h_compiler = Gcc 13 2 0, h_cplusplus = 201703\<rparr>"

definition no_counters :: perf_readings where
  "no_counters = \<lparr>pr_open = (\<lambda>_. -1), pr_read = (\<lambda>_. None)\<rparr>"

lemma tick_calibrates: "calibrates tick"
proof -
  have "to_ns (tick 0) + 50000000 \<le> to_ns (tick 10000000)"
    by (simp add: to_ns_now now_tick)
  then show ?thesis unfolding calibrates_def by (auto simp: to_ns_now now_tick intro!: exI [of _ 10000000])
qed

lemma sample_host_calibrates: "calibrates (h_clock sample_host)"
  using tick_calibrates by (simp add: sample_host_def)

end
