(* ===== verification/Spec2Isabelle.thy ===== *)
theory Spec2Isabelle
  imports Book_Defects Book_Memory Bench_Book Bench_Replace Bench_Clock Bench_Common Program_Output Sample_Runs
begin

text \<open>
  lobook, a limit order book engine in C++ (\<open>src/src\<close>): a producer thread stamps order messages
  and pushes them into a queue, the engine's thread pops them and applies them to an order book,
  recording latencies.  This development models the program's own code as HOL functions and step
  relations and proves what each part does; the root theory holds the properties.

  Results of running code.  \<open>Prelude\<close> has \<open>'a exec\<close>: a C++ function returns (\<open>ret x\<close>), leaves
  defined behaviour (\<open>stop f\<close>, for an index out of range, a failed assertion, a builtin outside
  its domain, a signed overflow, a bad iterator) or does not return (\<open>None\<close>).  \<open>returns m P\<close> says
  that \<open>m\<close> returns a value with \<open>P\<close>, so every theorem of this form includes termination and
  the absence of undefined behaviour.  Integers are words of the code's width.

  Theories.
  \<^item> \<open>Price_Index\<close>, \<open>Price_Bitset\<close> (\<open>engine/price_bitset.h\<close>, \<open>engine/constants.h\<close>): the interface of a
    set of prices as the locale \<open>price_index\<close>, and the three-level bitset that interprets it.
  \<^item> \<open>Book_Spec\<close>: the abstract book, FIFO queues per side and price; matching is one fill of the
    eligible queue; submits and cancels keep it uncrossed.
  \<^item> \<open>Ladder\<close>, \<open>Ladder_Rep\<close>, \<open>Book_Rep\<close>: what \<open>engine/fast_book.h\<close> and
    \<open>engine/fast_bitset_book.h\<close> share (pool with free list, intrusive level lists, \<open>id_map\<close>), the
    representation predicate by list segments, and the abstraction relation \<open>refines\<close>.
  \<^item> \<open>Bitset_Book\<close>, \<open>Fast_Book\<close>: the operations of the two books and their refinement proofs.
  \<^item> \<open>Book_Interface\<close> (\<open>BookOps\<close> of \<open>benchmark_book.cpp\<close>, \<open>bench_runners\<close>): runs of commands, the
    locale \<open>command_book\<close> for any book that takes them and \<open>order_book\<close> for the four operations; both
    array books as interpretations.
  \<^item> \<open>Simple_Book\<close> (\<open>engine/simple_book.h\<close>): the map-based book, another \<open>command_book\<close>; a list
    iterator is the name of its node.
  \<^item> \<open>Book_Memory\<close>: the memory of the bitset book read along its links, and what the abstraction
    relation says of it.
  \<^item> \<open>Book_Defects\<close>: behaviour of the bitset book outside its specification, on explicit states.
  \<^item> \<open>Message_Queue\<close>, \<open>Spsc_Queue\<close>, \<open>Naive_Queue\<close> (\<open>engine/order_message.h\<close>, \<open>engine/spsc_queue.h\<close>,
    \<open>engine/naive_queue.h\<close>): the locale \<open>message_queue\<close> for two threads on a queue, \<open>threaded_queue\<close>
    with the laws of progress, and the two queues as step relations that interpret them.  The ring
    buffer runs in the acquire/release memory of C++: a load may return an older store, and what
    no release and acquire order is a race.
  \<^item> \<open>C_Numbers\<close>, \<open>Cpu_Pinning\<close> (\<open>engine/cpu_pinning.h\<close>): decimal numbers as the C library reads them,
    the choice of a core.
  \<^item> \<open>Matching_Engine\<close> (\<open>engine/matching_engine.h\<close>) and \<open>Server\<close> (\<open>server.cpp\<close>): the engine's loop,
    report and dump; arguments, workload, producer and the whole run, as
    functions.
  \<^item> \<open>Server_Threads\<close>, \<open>Server_Progress\<close>: \<open>run\<close> of \<open>server.cpp\<close> as its three threads, main, network
    and engine (\<open>start\<close>, \<open>wait_until_ready\<close>, \<open>stop\<close>, joins), interleaved over any queue; the locale
    \<open>server_queue\<close> has what they need of it, and all three queues interpret it.  The invariant
    gives safety; a measure that some thread can always decrease gives completion; a completed
    run has computed the sequential \<open>server_run\<close>.
  \<^item> \<open>Bench_Book\<close> (\<open>benchmark_book.cpp\<close>) and \<open>Bench_Replace\<close> (\<open>benchmark_replace.cpp\<close>): the
    benchmark scenarios as programs over the books; the locale \<open>bench_book\<close> has what both array
    books need for them.
  \<^item> \<open>Bench_Clock\<close> (\<open>benchmark_clock.cpp\<close>, the calibration loop of \<open>bench_common.h\<close>) and
    \<open>Bench_Common\<close> (files and hardware counters of \<open>bench_common.h\<close>): percentiles of clock readings,
    files read for the banner, what the kernel is asked for and the calls on what it gives.
  \<^item> \<open>Doubles\<close>: IEEE double arithmetic on rationals, its error bounds, and numbers as text in fixed
    notation; \<open>Out_Stream\<close>: \<open>std::ostream\<close> with the formatting state that manipulators set.
  \<^item> \<open>Bench_Report\<close> (the rest of \<open>bench_common.h\<close>): timer, calibrated frequency, banner, settings and
    rates, each as a function on a stream, with the text that results.
  \<^item> \<open>Programs\<close>: the \<open>main\<close> functions of \<open>server.cpp\<close>, of the three benchmarks and of
    \<open>scripts/bench_clock.cpp\<close>, from arguments and parameters to exit code and output;
    \<open>Program_Output\<close>: what a sequence of calls prints, put together from what each prints.
  \<^item> \<open>Sample_Books\<close>, \<open>Sample_Runs\<close>: concrete states the properties are applied to.

  Conditions.  The books check few of their arguments, so the refinement theorems have conditions that
  come from the code.  A submit that has quantity left and finds a slot free needs an id below
  \<open>max_orders\<close> that does not rest (\<open>submit_ok\<close>: \<open>add_order\<close> writes \<open>id_map\<close> at it unchecked); the scanning
  book also needs a limit short of the end of the ladder or an order that is used up
  (\<open>fast_submit_ok\<close>).  Cancel, replace and \<open>get_quantity\<close> need an id whose \<open>id_map\<close> entry was written for an
  order on the ladder, or that is out of range (\<open>known_id\<close>: \<open>init\<close> leaves zeros in \<open>id_map\<close>); an order
  that is cancelled or moved must not be the head of a level whose previous head was filled
  (\<open>can_unlink\<close>: its \<open>prev\<close> is stale), and one that moves needs a new price on the ladder
  (\<open>replace_ok\<close>).  \<open>commands_ok\<close> asks this of every command of a run when its turn comes.  C1, C10, C11,
  C15 to C17 and C36 show what happens outside.  The map book needs none of the conditions on cancels,
  and no bound on ids (\<open>map_commands_ok\<close>).  The ring buffer's theorems hold for \<open>2 * N\<close> pushes, which is
  exact: C20.  The server's threads rely on the clock of \<open>CLOCK_MONOTONIC_RAW\<close>: it never goes back
  (\<open>monotone_clock\<close>), and for completion it gets past any time (\<open>running_clock\<close>); the producer alone is
  also followed in true time (\<open>shows_time\<close>).

  Bounds and fuel.  No fuel is used.  Loops that might not end are \<open>partial_function (option)\<close>, and
  each theorem about them shows that they return.  \<open>MAX_PRICES\<close> is the code's 100000; pool sizes are
  any number up to \<open>2 ^ 32 - 1\<close>, queue capacities any power of two.

  Parameters: the readings of the clocks and the time stamp counter, the random number generator and
  the distributions of the benchmarks, the environment, the files, the compiler's macros, and what
  the kernel gives for the hardware counters.

  Not modelled: the time that the code itself takes (clock readings are free, up to the conditions
  above), failing allocations, among them the \<open>std::length_error\<close> of \<open>workload.reserve\<close> for a workload
  that no vector can hold, failing writes to \<open>std::cout\<close>, the cache lines that alignments are
  for, and the tests under \<open>tests\<close>, which are no part of the program.
\<close>

section \<open>The bitset book\<close>

text \<open>
  C1. On any book that represents an abstract one (as the books after C6, C1, C3 and C4 do),
  \<open>FastBitsetOrderBook::submit_order\<close> returns when the order is used up by matching, when no slot is
  free then, or when its id is below \<open>max_orders\<close> and does not rest (\<open>submit_ok\<close>); the book it leaves
  represents the abstract book after matching the order against the other side in price-time priority
  and resting what is left, and the price indices again hold exactly the occupied prices. An id that
  is not below \<open>max_orders\<close> is not refused: when quantity is left and a slot is free, \<open>id_map\<close> is
  indexed out of range. (An id that still rests: C36.)
\<close>

theorem submit_order_correct:
  assumes "bitset_refines b a"
  shows "(submit_ok a (unat oid) (unat price) (unat qty) is_buy \<longrightarrow>
      returns (submit_order b oid price qty is_buy) (\<lambda>b'.
        bitset_refines b' (spec_submit a (unat oid) (unat price) (unat qty) is_buy))) \<and>
    (id_overruns a (unat oid) (unat price) (unat qty) is_buy \<longrightarrow>
      submit_order b oid price qty is_buy = stop OutOfBounds)"
  using assms submit_order_refines submit_order_overruns by blast

lemma sample_buy:
  "spec_match sample_asks 2 15 True = (sample_asks\<lparr>a_free := 4, a_q := upd2 (a_q sample_asks) False 2 [],
     a_loc := [2 \<mapsto> (False, 3)]\<rparr>, 3)"
  "submit_ok sample_asks 3 2 15 True"
proof -
  have c: "crossing True 2 = [0, 1, 2]" by (simp add: crossing_def MAX_PRICES_def upt_rec)
  have e: "upd2 (upd2 (upd2 (a_q sample_asks) False 0 []) False (Suc 0) []) False 2 [] = upd2 (a_q sample_asks) False 2 []"
    "upd2 (upd2 (upd2 (\<lambda>_ _. False) False 0 False) False (Suc 0) False) False 2 False = (\<lambda>_ _. False)"
    by (auto simp: fun_eq_iff upd2_apply sample_parts)
  show m: "spec_match sample_asks 2 15 True = (sample_asks\<lparr>a_free := 4, a_q := upd2 (a_q sample_asks) False 2 [],
     a_loc := [2 \<mapsto> (False, 3)]\<rparr>, 3)"
    using e by (auto simp: spec_match_def c sweep_level_def sample_parts upd2_apply fun_eq_iff
      intro!: abook.equality)
  show "submit_ok sample_asks 3 2 15 True"
    unfolding submit_ok_def m by (simp add: can_add_def sample_parts)
qed

theorem submit_order_correct_witness:
  "returns (submit_order (bitset_after 5 sample_commands) 3 2 15 True) (\<lambda>b'.
     bitset_refines b' (spec_submit sample_asks 3 2 15 True)) \<and>
   submit_order (bitset_after 5 sample_commands) 7 2 15 True = stop OutOfBounds \<and>
   a_q (spec_submit sample_asks 3 2 15 True) True 2 = [(3, 3)] \<and>
   a_q (spec_submit sample_asks 3 2 15 True) False 2 = [] \<and>
   a_q (spec_submit sample_asks 3 2 15 True) False 3 = [(2, 4)]"
  using submit_order_correct [OF sample_bitset, of 3 2 15 True] submit_order_correct [OF sample_bitset, of 7 2 15 True]
    sample_buy by (simp add: id_overruns_def spec_submit_def spec_add_def MAX_PRICES_def upd2_apply sample_parts)

text \<open>
  C2. On such a book \<open>match\<close> returns and is price-time priority: the incoming quantity is filled from
  the queue of eligible resting orders (best price first, oldest first within a price), the orders
  filled completely leave the book, the front order left over keeps its place, and the incoming side
  is untouched.
\<close>

theorem match_price_time:
  assumes "bitset_refines b a"
  shows "returns (match b price qty is_buy) (\<lambda>(b', left). \<exists>a' filled. bitset_refines b' a' \<and>
    fill (eligible a is_buy (unat price)) (unat qty) = (filled, eligible a' is_buy (unat price), unat left) \<and>
    (\<forall>i. a_loc a' i = (if i \<in> set filled then None else a_loc a i)) \<and>
    (\<forall>p. a_q a' is_buy p = a_q a is_buy p))"
proof -
  obtain a' r where m: "spec_match a (unat price) (unat qty) is_buy = (a', r)" by fastforce
  from spec_match_fills [OF m] match_refines [OF assms m] show ?thesis
    by (elim returns_mono) auto
qed

lemma sample_eligible: "eligible sample_asks True 3 = [(0, 5), (1, 7), (2, 4)]"
proof -
  have "crossing True 3 = [0, 1, 2, 3]" by (simp add: crossing_def MAX_PRICES_def upt_rec)
  then show ?thesis by (simp add: eligible_def sample_parts)
qed

theorem match_price_time_witness:
  "returns (match (bitset_after 5 sample_commands) 3 13 True) (\<lambda>(b', left). \<exists>a'. bitset_refines b' a' \<and>
     eligible a' True 3 = [(2, 3)] \<and> a_loc a' 0 = None \<and> a_loc a' 1 = None \<and> left = 0)"
  by (rule returns_mono [OF match_price_time [OF sample_bitset, of 3 13 True]])
     (auto simp: sample_eligible unat_eq_0)

text \<open>
  C3. \<open>cancel_order\<close> takes a resting order out of its queue, gives its slot back and forgets the id;
  for an id that does not rest it changes nothing. There are two conditions. The \<open>id_map\<close> entry of the
  id must have been written for an order on the ladder (\<open>known_id\<close>): the id rests or has rested in the
  book, and was not submitted off the ladder since, or it is not below \<open>max_orders\<close>. An id whose
  orders were all filled on arrival is not such an id. And the order must not be the first of a level
  whose previous head was filled (\<open>can_unlink\<close>). C15 to C17 show what happens otherwise.
\<close>

theorem cancel_order_correct:
  assumes "bitset_refines b a" and "known_id a (unat oid)" and "can_unlink a (unat oid)"
  shows "returns (cancel_order b oid) (\<lambda>b'. bitset_refines b' (spec_cancel a (unat oid)))"
  using assms by (rule cancel_order_refines)

theorem cancel_order_correct_witness:
  "returns (cancel_order (bitset_after 5 sample_commands) 1) (\<lambda>b'. bitset_refines b' (spec_cancel sample_asks 1)) \<and>
   a_q (spec_cancel sample_asks 1) False 2 = [(0, 5)] \<and> a_loc (spec_cancel sample_asks 1) 1 = None \<and>
   a_free (spec_cancel sample_asks 1) = 3"
  using cancel_order_correct [OF sample_bitset, of 1]
  by (simp add: known_id_def can_unlink_def sample_parts spec_cancel_def spec_unlink_def drop_id_def)

text \<open>
  C4. \<open>replace_order\<close>: a new price, or a larger quantity when other orders share the price, sends the
  order to the back of its (new) queue; otherwise the quantity changes in place. As in C3, the id has
  to be known and, when the order moves, not the first of a level whose previous head was filled; and
  then the new price has to be on the ladder, since the code does not check it.
\<close>

theorem replace_order_correct:
  assumes "bitset_refines b a" and "replace_ok a (unat oid) (unat new_price) (unat new_qty)"
  shows "returns (replace_order b oid new_price new_qty) (\<lambda>b'.
    bitset_refines b' (spec_replace a (unat oid) (unat new_price) (unat new_qty)))"
  using assms by (rule replace_order_refines)

theorem replace_order_correct_witness:
  "returns (replace_order (bitset_after 5 sample_commands) 0 2 9) (\<lambda>b'.
     bitset_refines b' (spec_replace sample_asks 0 2 9)) \<and>
   a_q (spec_replace sample_asks 0 2 9) False 2 = [(1, 7), (0, 9)] \<and>
   a_q (spec_replace sample_asks 0 2 1) False 2 = [(0, 1), (1, 7)]"
  using replace_order_correct [OF sample_bitset, of 0 2 9]
  by (simp add: replace_ok_def known_id_def can_unlink_def sample_parts spec_replace_def spec_get_quantity_def
      spec_link_def spec_unlink_def drop_id_def set_qty_def MAX_PRICES_def)

text \<open>
  C5. For an id that is known in the sense of C3, \<open>get_quantity\<close> is the open quantity of its order,
  and 0 when it does not rest.
\<close>

theorem get_quantity_correct:
  assumes "bitset_refines b a" and "known_id a (unat oid)"
  shows "returns (get_quantity b oid) (\<lambda>r. unat r = spec_get_quantity a (unat oid))"
  using assms get_quantity_refines unfolding known_id_def by blast

theorem get_quantity_correct_witness: "get_quantity (bitset_after 5 sample_commands) 1 = ret 7"
proof -
  have q: "spec_get_quantity sample_asks 1 = 7" by (simp add: spec_get_quantity_def sample_parts)
  have "returns (get_quantity (bitset_after 5 sample_commands) 1) (\<lambda>r. unat r = spec_get_quantity sample_asks (unat (1 :: u64)))"
    by (rule get_quantity_correct [OF sample_bitset]) (simp add: known_id_def sample_parts)
  moreover have "r = 7" if "unat r = 7" for r :: u32
    using that by unat_arith
  ultimately show ?thesis by (auto simp: returns_def q simp del: One_nat_def)
qed

text \<open>
  C6. \<open>init\<close> on any earlier state (its level arrays have their fixed size) gives an empty book of
  \<open>max_orders\<close> free slots, for any \<open>max_orders\<close> from 1 to \<open>2 ^ 32 - 1\<close>.
\<close>

theorem init_correct:
  assumes "length (bid_levels b) = MAX_PRICES" and "length (ask_levels b) = MAX_PRICES"
    and "0 < max_orders" and "max_orders \<le> 4294967295"
  shows "returns (init b max_orders) (\<lambda>b'. bitset_refines b' (spec_init max_orders))"
  using assms by (rule init_refines)

theorem init_correct_witness: "returns (init blank_bitset 4) (\<lambda>b'. bitset_refines b' (spec_init 4))"
  by (rule init_correct) (simp_all add: blank_bitset_def blank_levels_def)

text \<open>
  C7. A run of submits and cancels from \<open>init\<close> with a \<open>max_orders\<close> as in C6, each within the
  conditions of C1 and C3 when its turn comes (an order with quantity left has an id below
  \<open>max_orders\<close> that does not rest, or finds no slot free; a cancelled id is known and not the head of
  a level whose previous head was filled), returns, leaves the book that the abstract commands leave,
  and the best bid below the best ask.
\<close>

theorem run_uncrossed:
  assumes "array_shaped b" and "0 < max_orders" and "max_orders \<le> 4294967295"
    and "commands_ok submit_ok cs (spec_init max_orders)"
  shows "returns (ebind (init b max_orders) (run_commands bitset_ops cs)) (\<lambda>b'.
    bitset_refines b' (spec_commands cs (spec_init max_orders)) \<and>
    uncrossed (spec_commands cs (spec_init max_orders)))"
  using bitset_if.run_from_init [OF assms] by (simp add: bitset_ops_def)

theorem run_uncrossed_witness:
  "returns (ebind (init blank_bitset 5) (run_commands bitset_ops sample_commands)) (\<lambda>b'.
     bitset_refines b' sample_asks \<and> uncrossed sample_asks)"
  using run_uncrossed [OF blank_shaped(1) _ _ sample_ok] by (simp add: sample_result)

text \<open>
  C8. The memory of the book after a run within the conditions of C7 whose prices are on the ladder,
  read by following the links: the free list and the levels reach every slot of the pool, and none
  twice; the tail of a level is the last slot reached and the \<open>prev\<close> links lead back; the orders of a
  level carry its side and price, and \<open>id_map\<close> leads from their ids to their slots; the index has a
  price exactly when its level is not empty. A replace within its conditions (C4) keeps all this.
\<close>

theorem memory_sound_kept:
  assumes "array_shaped b" and "0 < max_orders" and "max_orders \<le> 4294967295"
    and "commands_ok submit_ok cs (spec_init max_orders)" and "\<forall>c \<in> set cs. on_ladder_command c"
  shows "returns (ebind (init b max_orders) (run_commands bitset_ops cs)) (\<lambda>b'. memory_sound max_orders b' \<and>
    (\<forall>oid price qty. replace_ok (spec_commands cs (spec_init max_orders)) (unat oid) (unat price) (unat qty) \<longrightarrow>
      returns (replace_order b' oid price qty) (memory_sound max_orders)))"
  using assms by (rule run_memory_sound)

theorem memory_sound_kept_witness:
  "returns (ebind (init blank_bitset 5) (run_commands bitset_ops sample_commands)) (\<lambda>b. memory_sound 5 b \<and>
    returns (replace_order b 0 2 9) (memory_sound 5))"
proof -
  have "\<forall>c \<in> set sample_commands. on_ladder_command c" by (simp add: sample_commands_def MAX_PRICES_def)
  from memory_sound_kept [OF blank_shaped(1) _ _ sample_ok this] show ?thesis
  proof (rule returns_mono; (elim conjE)?)
    fix b' assume "memory_sound 5 b'" and r: "\<forall>oid price qty. replace_ok (spec_commands sample_commands (spec_init 5))
      (unat oid) (unat price) (unat qty) \<longrightarrow> returns (replace_order b' oid price qty) (memory_sound 5)"
    moreover have "replace_ok sample_asks (unat (0 :: u64)) (unat (2 :: u64)) (unat (9 :: u32))"
      by (simp add: replace_ok_def known_id_def can_unlink_def sample_parts MAX_PRICES_def)
    ultimately show "memory_sound 5 b' \<and> returns (replace_order b' 0 2 9) (memory_sound 5)"
      unfolding sample_result by blast
  qed simp_all
qed

text \<open>
  C9. Any sequence of \<open>set\<close> and \<open>clear\<close> within the ladder returns and leaves a bitset that stands for
  the set of prices set last: \<open>test\<close> and \<open>empty\<close> say so, \<open>find_lowest\<close> and \<open>find_highest\<close> give its
  least and its greatest element, by three word lookups.
\<close>

theorem bitset_tracks_prices:
  assumes "\<forall>u \<in> set us. unat (updated_price u) < MAX_PRICES"
  shows "returns (run_updates bs_set bs_clear us bs_new) (\<lambda>s.
    (\<forall>p. unat p < MAX_PRICES \<longrightarrow> bs_test s p = ret (unat p \<in> prices_after us {})) \<and>
    (bs_empty s \<longleftrightarrow> prices_after us {} = {}) \<and>
    returns (find_lowest s) (is_lowest (prices_after us {})) \<and>
    returns (find_highest s) (is_highest (prices_after us {})))"
proof (rule returns_mono [OF bits.run_updates_law [OF bs_new_ok assms]], elim conjE)
  fix s assume ok: "bs_ok s" and ps: "bs_prices s = prices_after us (bs_prices bs_new)"
  note after = ps [unfolded bs_new_prices, symmetric]
  show "(\<forall>p. unat p < MAX_PRICES \<longrightarrow> bs_test s p = ret (unat p \<in> prices_after us {})) \<and>
    (bs_empty s \<longleftrightarrow> prices_after us {} = {}) \<and>
    returns (find_lowest s) (is_lowest (prices_after us {})) \<and>
    returns (find_highest s) (is_highest (prices_after us {}))"
    unfolding after is_lowest_def [abs_def] is_highest_def [abs_def]
    using bs_test_law [OF ok] bs_empty_law [OF ok] find_lowest_law [OF ok] find_highest_law [OF ok] by simp
qed

theorem bitset_tracks_prices_witness:
  "returns (run_updates bs_set bs_clear [SetPrice 99999, SetPrice 64, SetPrice 7, ClearPrice 7] bs_new) (\<lambda>s.
     bs_test s 7 = ret False \<and> \<not> bs_empty s \<and>
     returns (find_lowest s) (is_lowest {64, 99999}) \<and> returns (find_highest s) (is_highest {64, 99999}))"
proof -
  let ?us = "[SetPrice 99999, SetPrice 64, SetPrice 7, ClearPrice 7]"
  have after: "prices_after ?us {} = {64, 99999}" by auto
  have "\<forall>u \<in> set ?us. unat (updated_price u) < MAX_PRICES" by (simp add: MAX_PRICES_def)
  note run = bitset_tracks_prices [OF this, unfolded after]
  show ?thesis
  proof (rule returns_mono [OF run], elim conjE)
    fix s assume t: "\<forall>p. unat p < MAX_PRICES \<longrightarrow> bs_test s p = ret (unat p \<in> {64, 99999})"
      and e: "bs_empty s \<longleftrightarrow> {64, 99999 :: nat} = {}"
      and f: "returns (find_lowest s) (is_lowest {64, 99999})" "returns (find_highest s) (is_highest {64, 99999})"
    have "bs_test s 7 = ret False" using t [THEN spec, of 7] by (simp add: MAX_PRICES_def)
    with e f show "bs_test s 7 = ret False \<and> \<not> bs_empty s \<and>
      returns (find_lowest s) (is_lowest {64, 99999}) \<and> returns (find_highest s) (is_highest {64, 99999})" by simp
  qed
qed

section \<open>The scanning book\<close>

text \<open>
  C10. \<open>FastOrderBook::submit_order\<close> implements the same abstract submit by scanning the ladder, under
  the condition of C1 (used up, or no slot free, or an id below \<open>max_orders\<close> that does not rest), and
  as long as the order is used up or its limit keeps the scan on the ladder. With such a limit, an id
  out of range with quantity left and a slot free is an index out of range here too.
\<close>

theorem fast_submit_correct:
  assumes "refines b a"
  shows "(fast_submit_ok a (unat oid) (unat price) (unat qty) is_buy \<longrightarrow>
      returns (fast_submit_order b oid price qty is_buy) (\<lambda>b'.
        refines b' (spec_submit a (unat oid) (unat price) (unat qty) is_buy))) \<and>
    (id_overruns a (unat oid) (unat price) (unat qty) is_buy \<and> \<not> runs_off is_buy (unat price) \<longrightarrow>
      fast_submit_order b oid price qty is_buy = stop OutOfBounds)"
  using assms fast_submit_order_refines fast_submit_order_overruns by blast

lemma sample_fast_ok: "commands_ok fast_submit_ok sample_commands (spec_init 5)"
  using sample_steps by (simp add: sample_commands_def fast_submit_ok_def runs_off_def)

lemma sample_fast: "refines (fast_after 5 sample_commands) sample_asks"
  using fast_after_refines [OF _ _ sample_fast_ok] by (simp add: sample_result)

theorem fast_submit_correct_witness:
  "returns (fast_submit_order (fast_after 5 sample_commands) 3 2 15 True) (\<lambda>b'.
     refines b' (spec_submit sample_asks 3 2 15 True)) \<and>
   fast_submit_order (fast_after 5 sample_commands) 7 2 15 True = stop OutOfBounds"
  using fast_submit_correct [OF sample_fast, of 3 2 15 True] fast_submit_correct [OF sample_fast, of 7 2 15 True] sample_buy
  by (simp add: fast_submit_ok_def id_overruns_def runs_off_def MAX_PRICES_def sample_parts)

text \<open>
  C11. A buy at or above the last price of the ladder, or a sell at 0, that is not used up makes the
  scan run on off the ladder until its signed counter overflows.
\<close>

theorem fast_submit_runs_off:
  assumes "refines b a" and "0 < snd (spec_match a (unat price) (unat qty) is_buy)" and "runs_off is_buy (unat price)"
  shows "fast_submit_order b oid price qty is_buy = stop SignedOverflow"
  using assms by (rule fast_submit_order_overflows)

theorem fast_submit_runs_off_witness: "fast_submit_order (fast_after 4 []) 0 0 10 False = stop SignedOverflow"
proof (rule fast_submit_runs_off)
  show "refines (fast_after 4 []) (spec_init 4)" using fast_after_refines [of 4 "[]"] by simp
  show "0 < snd (spec_match (spec_init 4) (unat (0 :: u64)) (unat (10 :: u32)) False)"
    by (subst spec_match_none) (simp_all add: spec_init_awf, simp add: spec_init_def)
  show "runs_off False (unat (0 :: u64))" by (simp add: runs_off_def)
qed

text \<open>
  C12. The two books agree: after the same commands from \<open>init\<close>, with a \<open>max_orders\<close> as in C6, submits
  within the conditions of C10 (so that the scanning book returns) and cancels within those of C3,
  both report the same open quantity for every id that is known in the sense of C3.
\<close>

theorem books_agree:
  assumes "array_shaped b" and "array_shaped f" and "0 < n" and "n \<le> 4294967295"
    and "commands_ok fast_submit_ok cs (spec_init n)" and "known_id (spec_commands cs (spec_init n)) (unat oid)"
  shows "\<exists>q. ebind (ebind (init b n) (run_commands bitset_ops cs)) (\<lambda>b'. get_quantity b' oid) = ret q \<and>
    ebind (ebind (fast_init f n) (run_commands fast_ops cs)) (\<lambda>f'. fast_get_quantity f' oid) = ret q"
proof -
  have "commands_ok submit_ok cs (spec_init n)"
    using assms(5) by (rule commands_ok_mono [rotated]) (rule fast_ok_submit_ok)
  from bitset_if.run_then_quantity [OF assms(1,3,4) this assms(6)]
    fast_if.run_then_quantity [OF assms(2-6)]
  show ?thesis by (auto simp: returns_def bitset_ops_def fast_ops_def) (metis unsigned_word_eqI)
qed

theorem books_agree_witness:
  "\<exists>q. ebind (ebind (init blank_bitset 5) (run_commands bitset_ops sample_commands)) (\<lambda>b. get_quantity b 2) = ret q \<and>
    ebind (ebind (fast_init blank_fast 5) (run_commands fast_ops sample_commands)) (\<lambda>f. fast_get_quantity f 2) = ret q"
  by (rule books_agree) (simp_all add: sample_fast_ok sample_result known_id_def sample_parts)

section \<open>The map book\<close>

text \<open>
  C13. \<open>NaiveOrderBook\<close> implements the same abstract book with sorted maps and list iterators: a run
  of at most \<open>2 ^ 31 - 1\<close> commands, in which an order with quantity left has an id that does not rest
  and a price on the ladder, returns with its lists equal to the abstract queues, \<open>has_order\<close> tells
  exactly the ids with open quantity, and no iterator is used after its order is gone. Any id may be
  submitted and any cancelled. The counter \<open>total_trades\<close> never exceeds the number of commands, which
  is what keeps it an \<open>int\<close>.
\<close>

theorem map_book_correct:
  assumes "map_commands_ok cs unlimited" and "length cs \<le> 2147483647"
  shows "returns (run_with naive_command cs naive_new) (\<lambda>nb. naive_rep nb (spec_commands cs unlimited) \<and>
    (\<forall>oid. has_order nb oid \<longleftrightarrow> spec_get_quantity (spec_commands cs unlimited) (unat oid) \<noteq> 0) \<and>
    0 \<le> total_trades nb \<and> total_trades nb \<le> int (length cs))"
  using assms by (rule naive_run_returns)

theorem map_book_correct_witness:
  "returns (run_with naive_command map_commands naive_new) (\<lambda>nb. has_order nb 2 \<and> \<not> has_order nb 1 \<and> total_trades nb \<le> 4)"
proof -
  have "length map_commands = 4" by (simp add: map_commands_def)
  with map_book_correct [OF map_commands_run(1)] show ?thesis
    using map_commands_run(2,3) by (auto elim!: returns_mono)
qed

text \<open>
  C14. The map book and the bitset book agree: after the same at most \<open>2 ^ 31 - 1\<close> commands, within
  the conditions of C7 and with a slot free and a price on the ladder for every order that has
  quantity left, an id that is known in the sense of C3 is in the lookup table of the one exactly when
  the other reports an open quantity for it.
\<close>

theorem map_book_agrees:
  assumes "array_shaped b" and "0 < n" and "n \<le> 4294967295"
    and "commands_ok naive_submit_ok cs (spec_init n)" and "length cs \<le> 2147483647"
    and "known_id (spec_commands cs (spec_init n)) (unat oid)"
  shows "\<exists>nb q. run_with naive_command cs naive_new = ret nb \<and>
    ebind (ebind (init b n) (run_commands bitset_ops cs)) (\<lambda>b'. get_quantity b' oid) = ret q \<and>
    (has_order nb oid \<longleftrightarrow> q \<noteq> 0)"
  using assms by (rule naive_bitset_agree)

theorem map_book_agrees_witness:
  "\<exists>nb q. run_with naive_command sample_commands naive_new = ret nb \<and>
    ebind (ebind (init blank_bitset 5) (run_commands bitset_ops sample_commands)) (\<lambda>b. get_quantity b 2) = ret q \<and>
    (has_order nb 2 \<longleftrightarrow> q \<noteq> 0)"
  by (rule map_book_agrees [OF blank_shaped(1) _ _ sample_naive_ok])
     (simp_all add: sample_result sample_length known_id_def sample_parts)

section \<open>Outside the specification\<close>

text \<open>
  C15. \<open>id_map\<close> is only resized by \<open>init\<close> and only written for an order that rests, so an id that was
  never submitted, or whose order was filled when it came in, names the first slot of the pool:
  cancelling it takes the order in that slot out of the book, whose own id still reports its quantity
  as open.
\<close>

theorem cancel_of_unmapped_id:
  assumes "Suc 0 < n" and "unat oid < n" "unat gone < n" "unat ask < n" and "0 < qty" "0 < rest"
    and "gone \<noteq> ask" and "gone \<noteq> oid"
  shows "returns (ebind (init blank_bitset n) (\<lambda>b. ebind (submit_order b oid 100 rest True) (\<lambda>b. cancel_order b gone)))
      (\<lambda>b. get_quantity b oid = ret rest \<and> best_price b False = ret None) \<and>
    returns (ebind (init blank_bitset n) (run_commands bitset_ops
      [Submit ask 100 qty False, Submit gone 100 qty True, Submit oid 100 rest True, Cancel gone]))
      (\<lambda>b. get_quantity b oid = ret rest \<and> best_price b False = ret None)"
  using assms by (intro conjI unused_id_cancels filled_id_cancels) simp_all

theorem cancel_of_unmapped_id_witness:
  "returns (ebind (init blank_bitset 100000) (\<lambda>b. ebind (submit_order b 1 100 10 True) (\<lambda>b. cancel_order b 999)))
    (\<lambda>b. get_quantity b 1 = ret 10 \<and> best_price b False = ret None) \<and>
   returns (ebind (init blank_bitset 100000) (run_commands bitset_ops
      [Submit 1 100 5 False, Submit 2 100 5 True, Submit 3 100 4 True, Cancel 2]))
    (\<lambda>b. get_quantity b 3 = ret 4 \<and> best_price b False = ret None)"
  using cancel_of_unmapped_id [of 100000 1 999 2 1 10] cancel_of_unmapped_id [of 100000 3 2 1 5 4] by simp

text \<open>
  C16. A fill leaves the new head's \<open>prev\<close> on the freed slot, so cancelling that head cuts the free
  list: whatever the capacity, after six commands that leave two orders in the book no further order
  is taken.
\<close>

theorem cancel_of_new_head_loses_pool:
  assumes "3 < n"
  shows "returns (ebind (init blank_bitset n) (run_commands bitset_ops cut_commands)) (\<lambda>b.
    \<forall>oid price qty is_buy. add_order b oid price qty is_buy = ret b)"
  using assms by (simp add: cut_commands_exhaust exhausted_adds_nothing)

theorem cancel_of_new_head_loses_pool_witness:
  "returns (ebind (init blank_bitset 100000) (run_commands bitset_ops cut_commands)) (\<lambda>b.
    \<forall>oid price qty is_buy. add_order b oid price qty is_buy = ret b)"
  by (rule cancel_of_new_head_loses_pool) simp

text \<open>
  C17. Prices off the ladder are not refused. An order submitted at one joins no queue but keeps a
  slot and its id: its quantity reads as open, the slot is lost, and cancelling it leaves the level
  array. \<open>replace_order\<close> has already unlinked the order when it indexes the level array with such a
  price.
\<close>

theorem off_ladder_prices:
  assumes "bitset_refines b a" and "MAX_PRICES \<le> unat price"
  shows "(0 < a_free a \<and> unat oid < a_cap a \<and> a_loc a (unat oid) = None \<longrightarrow>
      returns (add_order b oid price qty is_buy) (\<lambda>b'. get_quantity b' oid = ret qty \<and>
        cancel_order b' oid = stop OutOfBounds \<and>
        bitset_refines b' (a\<lparr>a_free := a_free a - 1, a_known := a_known a - {unat oid}\<rparr>))) \<and>
    (a_loc a (unat oid) = Some (s, p) \<and> known_id a (unat oid) \<and> can_unlink a (unat oid) \<longrightarrow>
      replace_order b oid price qty = stop OutOfBounds)"
  using add_off_ladder [OF assms(1) _ _ _ assms(2)] replace_out_of_range [OF assms(1) _ _ _ assms(2)] by blast

theorem off_ladder_prices_witness:
  "returns (add_order (bitset_after 5 sample_commands) 4 100005 10 True) (\<lambda>b'. get_quantity b' 4 = ret 10 \<and>
     cancel_order b' 4 = stop OutOfBounds \<and>
     bitset_refines b' (sample_asks\<lparr>a_free := a_free sample_asks - 1, a_known := a_known sample_asks - {4}\<rparr>)) \<and>
   replace_order (bitset_after 5 sample_commands) 0 100000 3 = stop OutOfBounds"
  using off_ladder_prices [OF sample_bitset, of 100005 4 10 True] off_ladder_prices [OF sample_bitset, of 100000 0 3 True False 2]
  by (simp add: sample_parts MAX_PRICES_def known_id_def can_unlink_def)

text \<open>
  C36. An id that is submitted again while it rests is not refused: \<open>id_map\<close> forgets the first of the
  two orders. Cancelling the id takes out the second; then the id reads as not resting and cannot be
  cancelled any more, while the first order is still the best bid and still trades.
\<close>

theorem resubmitted_id:
  assumes "2 < n" and "unat oid < n" and "0 < first" and "0 < second"
  shows "returns (ebind (init blank_bitset n) (run_commands bitset_ops
      [Submit oid 100 first True, Submit oid 100 second True, Cancel oid])) (\<lambda>b.
    get_quantity b oid = ret 0 \<and> cancel_order b oid = ret b \<and> best_price b False = ret (Some 100) \<and>
    returns (match b 100 first False) (\<lambda>(b', left). left = 0 \<and> best_price b' False = ret None))"
  using assms by (rule duplicate_id_orphans)

theorem resubmitted_id_witness:
  "returns (ebind (init blank_bitset 100000) (run_commands bitset_ops
      [Submit 7 100 10 True, Submit 7 100 5 True, Cancel 7])) (\<lambda>b.
    get_quantity b 7 = ret 0 \<and> cancel_order b 7 = ret b \<and> best_price b False = ret (Some 100) \<and>
    returns (match b 100 10 False) (\<lambda>(b', left). left = 0 \<and> best_price b' False = ret None))"
  by (rule resubmitted_id) simp_all

section \<open>The queues\<close>

text \<open>
  C18. \<open>SPSCQueue\<close> delivers in order and without a data race: in every interleaving of the two threads
  and for every store that the acquire loads may return, while at most \<open>2 * N\<close> pushes have begun, what
  the consumer has popped is a prefix of what the producer has pushed, and neither thread is about to
  access a slot without having seen the other's last access of it, for every capacity \<open>N\<close> above 1 and
  with or without cached indices.
\<close>

theorem spsc_in_order:
  assumes "N = 2 ^ k" and "0 < k" and "k \<le> 62"
    and "reaches (spsc_step cached N) (spsc_start d N) s" and "spsc_started s \<le> 2 * N"
  shows "prefix (popped s) (pushed s) \<and> \<not> push_races N s \<and> \<not> pop_races N s"
  using message_queue.fifo [OF spsc_is_queue [OF assms(1-3)] assms(4)]
    race_free [OF assms(1,3) message_queue.reachable_inv [OF spsc_is_queue [OF assms(1-3)] assms(4)]] assms(5)
  by (simp add: in_budget_def)

theorem spsc_in_order_witness:
  "prefix (popped one_through) (pushed one_through) \<and> popped one_through = [7] \<and> \<not> push_races 2 one_through"
  using spsc_in_order [of 2 1 True 0 one_through] one_through by simp

text \<open>
  C19. Within the same budget the two threads of \<open>SPSCQueue\<close> never spin on each other, a consumer that
  spins has received everything pushed, and from wherever a run has got to it can go on until every
  message begun is delivered.
\<close>

theorem spsc_no_deadlock:
  assumes "N = 2 ^ k" and "0 < k" and "k \<le> 62"
    and "reaches (spsc_step cached N) (spsc_start d N) s" and "spsc_started s \<le> 2 * N"
  shows "\<not> (push_spins s \<and> pop_spins s) \<and> (pop_spins s \<longrightarrow> popped s = pushed s) \<and>
    (\<exists>t. reaches (spsc_step cached N) s t \<and> popped t = spsc_begun s \<and> producer t = PIdle)"
  using message_queue.no_deadlock [OF spsc_is_queue [OF assms(1-3)] assms(4)]
    message_queue.blocked_pop_drained [OF spsc_is_queue [OF assms(1-3)] assms(4)]
    threaded_queue.reachable_delivers [OF spsc_is_threaded [OF assms(1-3)] assms(4)] assms(5)
  by (auto simp: in_budget_def)

theorem spsc_no_deadlock_witness:
  "pop_spins drained \<and> \<not> push_spins drained \<and> popped drained = pushed drained \<and>
   (\<exists>t. reaches (spsc_step True 2) one_through t \<and> popped t = spsc_begun one_through)"
  using spsc_no_deadlock [of 2 1 True 0 drained] drained spsc_no_deadlock [of 2 1 True 0 one_through] one_through by auto

text \<open>
  C20. Beyond \<open>2 * N\<close> pushes the full check no longer holds the producer back: with \<open>N\<close> messages
  unread, the next push overwrites the oldest of them and is popped in its place.
\<close>

theorem spsc_overtakes_after_two_laps:
  assumes "N = 2 ^ k" and "0 < k" and "k \<le> 61"
  shows "\<exists>s. reaches (spsc_step cached N) (spsc_start d N) s \<and>
    pushed s = replicate (2 * N) a @ [b] \<and> popped s = replicate N a @ [b]"
  using assms by (rule third_lap_overtakes)

theorem spsc_overtakes_after_two_laps_witness:
  "\<exists>s. reaches (spsc_step True 4) (spsc_start (0 :: nat) 4) s \<and>
    pushed s = replicate 8 7 @ [8] \<and> popped s = replicate 4 7 @ [8]"
  using spsc_overtakes_after_two_laps [of 4 2 True 0 7 8] by simp

text \<open>
  C21. \<open>NaiveQueue\<close>: in every interleaving, with spurious wake-ups, the messages pushed are those
  returned by \<open>pop\<close>, the one in the consumer's hand and the queue, in this order.
\<close>

theorem naive_conserves:
  assumes "reaches naive_step naive_start s"
  shows "put_in s = taken_out s @ in_hand s @ items s"
  using naive_q.reachable_inv [OF assms] by (simp add: in_budget_def naive_inv_def)

theorem naive_conserves_witness: "put_in woken = taken_out woken @ in_hand woken @ items woken"
  by (rule naive_conserves [OF woken(1)])

text \<open>
  C22. No wake-up is lost in \<open>NaiveQueue\<close>: a consumer asleep with no notification on its way has
  received everything pushed, the two threads never wait for each other, and from wherever a run has
  got to it can go on until every message begun is delivered.
\<close>

theorem naive_no_lost_wakeup:
  assumes "reaches naive_step naive_start s"
  shows "(naive_blocked_pop s \<longrightarrow> taken_out s = put_in s) \<and> \<not> (naive_blocked_push s \<and> naive_blocked_pop s) \<and>
    (\<exists>t. reaches naive_step s t \<and> taken_out t = naive_begun s \<and> pusher t = NIdle)"
  using naive_q.blocked_pop_drained [OF assms] naive_q.no_deadlock [OF assms] naive_q.reachable_delivers [OF assms]
  by (auto simp: in_budget_def)

theorem naive_no_lost_wakeup_witness: "naive_blocked_pop asleep \<and> \<not> naive_blocked_push asleep \<and> taken_out asleep = put_in asleep"
  using naive_no_lost_wakeup [OF asleep(1)] asleep(2) by simp

section \<open>The engine\<close>

text \<open>
  C23. The engine's thread, started for 1 to \<open>2 ^ 32 - 1\<close> orders, when the submits and cancels it pops
  before the first \<open>SHUTDOWN\<close> are within the conditions of C7: it returns from every operation, the
  book is the abstract book after them, each of them adds one end-to-end and one queue latency taken
  from its own time stamp, and the loop ends exactly when a \<open>SHUTDOWN\<close> comes.
\<close>

theorem engine_run_correct:
  assumes "array_shaped (e_book e)" and "0 < n" and "n \<le> 4294967295"
    and "commands_ok submit_ok (map command_of (work msgs)) (spec_init n)"
  shows "returns (engine_run clock n msgs e) (\<lambda>(e', stopped).
    bitset_refines (e_book e') (spec_commands (map command_of (work msgs)) (spec_init n)) \<and>
    latencies e' = latencies e @ e2e_ns clock 0 (work msgs) \<and>
    queue_latencies e' = queue_latencies e @ queue_ns clock 0 (work msgs) \<and>
    (stopped \<longleftrightarrow> (\<exists>m \<in> set msgs. m_type m = SHUTDOWN)) \<and> ready e')"
  using assms by (rule engine_run_refines)

theorem engine_run_correct_witness:
  "returns (engine_run tick 5 sample_messages (new_engine blank_bitset)) (\<lambda>(e', stopped).
    bitset_refines (e_book e') sample_asks \<and> latencies e' = [20, 40, 60] \<and> queue_latencies e' = [10, 30, 50] \<and> stopped)"
proof -
  have w: "work sample_messages = [ask_message 0 2 5, ask_message 1 2 7, ask_message 2 3 4]"
    by (simp add: work_def sample_messages_def ask_message_def zero_message_def shutdown_message_def)
  have "e2e_ns tick 0 (work sample_messages) = [20, 40, 60]" "queue_ns tick 0 (work sample_messages) = [10, 30, 50]"
    by (simp_all add: w ns_Cons now_tick ask_message_def zero_message_def) (simp_all add: e2e_ns_def queue_ns_def)
  with engine_run_correct [of "new_engine blank_bitset" 5 sample_messages tick] show ?thesis
    using sample_shutdown
    by (simp add: sample_work sample_ok sample_result new_engine_def split_beta) (auto simp: returns_def)
qed

text \<open>
  C24. \<open>report\<close>, when both vectors of latencies have entries, never indexes past their end: it sorts
  them and prints, for each kind, three of them in ascending order, the first being the upper median.
\<close>

theorem report_correct:
  assumes "latencies e \<noteq> []" and "queue_latencies e \<noteq> []"
  shows "returns (report e) (\<lambda>(e', ps). e_book e' = e_book e \<and> latencies e' = sort (latencies e) \<and>
    queue_latencies e' = sort (queue_latencies e) \<and>
    quantiles_of (latencies e) (take 3 ps) \<and> quantiles_of (queue_latencies e) (drop 3 ps))"
  using assms by (rule report_returns)

definition timed_engine :: engine where
  "timed_engine = (new_engine blank_bitset)\<lparr>latencies := [60, 20, 40], queue_latencies := [50, 10, 30]\<rparr>"

theorem report_correct_witness:
  "returns (report timed_engine) (\<lambda>(e', ps). latencies e' = [20, 40, 60] \<and> ps ! 0 = 40 \<and> length (take 3 ps) = 3)"
  by (rule returns_mono [OF report_correct])
     (auto simp: timed_engine_def new_engine_def quantiles_of_def)

section \<open>The server\<close>

text \<open>
  C25. Arguments round trip: printing any admissible \<open>Args\<close> as command line options, with the numbers
  in decimal, and parsing them gives the same \<open>Args\<close>, over the whole \<open>uint64_t\<close> range.
\<close>

theorem parse_args_round_trip:
  assumes "known_mode (queue_mode args)"
  shows "parse_args [''--queue='' @ queue_mode args, ''--pacing-ns='' @ decimal (unat (pacing_ns args)),
    ''--workload='' @ decimal (unat (workload args)), ''--dump-latencies='' @ dump_path args] = Inr args"
proof -
  have "unat w \<le> 18446744073709551615" for w :: u64 using unat_u64_less [of w] by linarith
  with parse_all_options [OF assms] show ?thesis by simp
qed

theorem parse_args_round_trip_witness:
  "parse_args [''--queue=naive'', ''--pacing-ns='' @ decimal (unat (250 :: u64)),
     ''--workload='' @ decimal (unat (18446744073709551615 :: u64)), ''--dump-latencies=l.csv''] =
   Inr \<lparr>queue_mode = ''naive'', pacing_ns = 250, workload = 18446744073709551615, dump_path = ''l.csv''\<rparr>"
  using parse_args_round_trip [of "\<lparr>queue_mode = ''naive'', pacing_ns = 250, workload = 18446744073709551615, dump_path = ''l.csv''\<rparr>"]
  by (simp add: known_mode_def)

text \<open>
  C26. After arguments that parse, the first one that does not decides: \<open>--help\<close> ends the program with
  success, an unknown argument rejects the line, a number that \<open>stoull\<close> refuses escapes as its
  exception, and what comes later is not looked at. A negative number is not refused: \<open>--workload=-n\<close>
  asks for \<open>2 ^ 64 - n\<close> messages.
\<close>

theorem parse_args_stops:
  assumes "parse_loop xs default_args = Inr out"
  shows "parse_args (xs @ ''--help'' # ys) = Inl Help \<and>
    (\<forall>a. (\<forall>n \<in> set option_names. \<not> prefix n a) \<longrightarrow> parse_args (xs @ a # ys) = Inl Rejected) \<and>
    (\<forall>v ex. stoull v = Inl ex \<longrightarrow> parse_args (xs @ (''--workload='' @ v) # ys) = Inl (Threw ex) \<and>
      parse_args (xs @ (''--pacing-ns='' @ v) # ys) = Inl (Threw ex)) \<and>
    (\<forall>n \<le> 18446744073709551615. known_mode (queue_mode out) \<longrightarrow>
      parse_args (xs @ [''--workload=-'' @ decimal n]) = Inr (out\<lparr>workload := - of_nat n\<rparr>))"
  using assms parse_loop_unknown stoull_negative by (auto simp: parse_args_def parse_loop_append)

theorem parse_args_stops_witness:
  "parse_args [''--queue=naive'', ''--help'', ''--bogus''] = Inl Help \<and>
   parse_args [''--queue=naive'', ''--bogus'', ''--help''] = Inl Rejected \<and>
   parse_args [''--queue=naive'', ''--workload=x'', ''--help''] = Inl (Threw invalid_argument) \<and>
   parse_args [''--queue=naive'', ''--workload=-'' @ decimal 1] =
     Inr (default_args\<lparr>queue_mode := ''naive'', workload := 18446744073709551615\<rparr>)"
proof -
  have xs: "parse_loop [''--queue=naive''] default_args = Inr (default_args\<lparr>queue_mode := ''naive''\<rparr>)" by simp
  have x: "stoull ''x'' = Inl invalid_argument"
    by (simp add: stoull_def scan_number_def is_space_def is_digit_def char_code_def)
  show ?thesis
    using parse_args_stops [OF xs, of "[''--bogus'']"] parse_args_stops [OF xs, of "[''--help'']"] x
    by (auto simp: option_names_def known_mode_def)
qed

text \<open>
  C27. The producer, when the clock shows real time \<open>T\<close> with readings at most \<open>gap\<close> nanoseconds apart,
  and the time that the workload takes at most ends before \<open>2 ^ 64\<close> nanoseconds: it sends the whole
  workload in order, changing time stamps only, and two successive stamps are at least the pacing and
  at most the pacing and two readings apart, as true times, without wrap-around.
\<close>

theorem producer_sends_all:
  assumes "shows_time clock T gap"
    and "T 0 + unat (workload args) * (unat (pacing_ns args) + 2 * gap) < 18446744073709551616"
  shows "\<exists>sent. send_all clock 0 (pacing_ns args) (build_workload args) = Some sent \<and>
    map unstamped sent = map unstamped (build_workload args) \<and>
    spaced (unat (pacing_ns args)) (unat (pacing_ns args) + 2 * gap) sent"
  using send_all_spaced [OF assms(1), of 0 "build_workload args" "pacing_ns args"] assms(2)
  by (auto simp: build_workload_def)

theorem producer_sends_all_witness:
  "\<exists>sent. send_all wall 0 20 (build_workload two_messages) = Some sent \<and>
    map unstamped sent = map unstamped (build_workload two_messages) \<and> spaced 20 40 sent"
  using producer_sends_all [OF wall_time, of two_messages] by (simp add: two_messages_def)

text \<open>
  C28. The whole run once the queue has delivered the stamped workload and the shutdown message. When
  a dump is asked for and its file cannot be opened, \<open>run\<close> returns false and reports nothing. Else,
  with no workload (\<open>--workload=0\<close> is accepted) the report indexes an empty vector, and with a
  workload \<open>run\<close> returns true; the dump, if asked for, is the header and one line per message, its
  end-to-end time and its queue time in decimal; and what is printed are quantiles of these times.
\<close>

theorem server_run_correct:
  assumes "array_shaped b" and "map unstamped sent = map unstamped (build_workload args)"
  shows "if dump_path args \<noteq> [] \<and> \<not> writable (dump_path args) then
      server_run writable clock args (sent @ [shutdown_message]) b = ret (False, [], [])
    else if workload args = 0 then server_run writable clock args (sent @ [shutdown_message]) b = stop OutOfBounds
    else returns (server_run writable clock args (sent @ [shutdown_message]) b) (\<lambda>(ok, rows, ps). ok \<and>
      rows = (if dump_path args = [] then [] else dump_text (e2e_ns clock 0 sent) (queue_ns clock 0 sent)) \<and>
      quantiles_of (e2e_ns clock 0 sent) (take 3 ps) \<and> quantiles_of (queue_ns clock 0 sent) (drop 3 ps))"
  unfolding if_bool_eq_conj
  using server_run_no_dump [OF assms, of writable clock] server_run_no_workload [OF assms, of writable clock]
    server_run_returns [OF assms, of writable clock] by blast

theorem server_run_correct_witness:
  "returns (server_run (\<lambda>_. True) tick (two_messages\<lparr>dump_path := ''d''\<rparr>) (sent_two @ [shutdown_message]) blank_bitset)
     (\<lambda>(ok, rows, ps). ok \<and> length rows = 3 \<and> length (take 3 ps) = 3) \<and>
   server_main (\<lambda>_. True) tick [''--workload=0''] (\<lambda>_. [shutdown_message]) blank_bitset = Some (Undefined OutOfBounds)"
proof
  have "map unstamped sent_two = map unstamped (build_workload (two_messages\<lparr>dump_path := ''d''\<rparr>))"
    using sent_two_unstamped by (simp add: build_workload_def)
  from server_run_correct [OF blank_shaped(1) this, of "\<lambda>_. True" tick] show
    "returns (server_run (\<lambda>_. True) tick (two_messages\<lparr>dump_path := ''d''\<rparr>) (sent_two @ [shutdown_message]) blank_bitset)
       (\<lambda>(ok, rows, ps). ok \<and> length rows = 3 \<and> length (take 3 ps) = 3)"
    by (auto simp: two_messages_def dump_text_def sent_two_def quantiles_of_def elim!: returns_mono)
  have d: "''0'' = decimal 0" by (simp add: decimal.simps digit_char_def char_of_def bit_0)
  have "stoull ''0'' = Inr 0" unfolding d using stoull_decimal [of 0] by simp
  then have "parse_args [''--workload=0''] = Inr (default_args\<lparr>workload := 0\<rparr>)"
    by (simp add: parse_args_def known_mode_def default_args_def)
  then show "server_main (\<lambda>_. True) tick [''--workload=0''] (\<lambda>_. [shutdown_message]) blank_bitset = Some (Undefined OutOfBounds)"
    using server_run_correct [OF blank_shaped(1), of "[]" "default_args\<lparr>workload := 0\<rparr>"]
    by (simp add: server_main_def default_args_def build_workload_def)
qed

text \<open>
  C29. The three threads of the server at every point of every run in which the clock never goes back,
  over either ring buffer (with a workload below \<open>2 * kQueueCapacity\<close>) and over the mutex queue: the
  engine meets no fault, what it has received is the stamped workload in order and then the shutdown
  message, stamps are at least the pacing apart, every latency recorded is a true time difference with
  that of the queue within that of the whole, and between two messages the book holds one bid of 10 at
  price 100 for each, oldest first, up to its capacity.
\<close>

theorem server_threads_safe:
  assumes "array_shaped b" and "monotone_clock reads"
  shows "(unat (workload args) < 2 * kQueueCapacity \<and>
      reaches (server_step (spsc_ops cached kQueueCapacity) reads writable args)
        (server_start (spsc_start zero_message kQueueCapacity) b t) s \<longrightarrow> run_safe args (popped (s_queue s)) s) \<and>
    (reaches (server_step naive_ops reads writable args) (server_start naive_start b t) u \<longrightarrow>
      run_safe args (taken_out (s_queue u)) u)"
  using cached_server.server_safe [OF assms(1) cached_server.server_reachable [OF assms]]
    uncached_server.server_safe [OF assms(1) uncached_server.server_reachable [OF assms]]
    naive_server.server_safe [OF assms(1) naive_server.server_reachable [OF assms]]
  by (cases cached) (auto simp: cached_server.fits_def naive_server.fits_def in_budget_def)

theorem server_threads_safe_witness:
  "\<exists>s r. reaches two_step two_start s \<and> s_main s = MainDone r \<and> run_safe two_messages (popped (s_queue s)) s"
  using two_finish two_fit server_threads_safe [OF blank_shaped(1) later_clock(1)] by blast

text \<open>
  C30. No run of the server gets stuck, under the conditions of C29 and with a clock that gets past
  any time: from wherever its threads have got to, they can go on until the main thread has joined
  both others and finished, with the result of \<open>server_run\<close> on the stamped workload and the shutdown
  message.
\<close>

theorem server_threads_complete:
  assumes "array_shaped b" and "monotone_clock reads" and "running_clock reads"
  shows "(unat (workload args) < 2 * kQueueCapacity \<and>
      reaches (server_step (spsc_ops cached kQueueCapacity) reads writable args)
        (server_start (spsc_start zero_message kQueueCapacity) b t) s \<longrightarrow>
      (\<exists>s' sent clock. reaches (server_step (spsc_ops cached kQueueCapacity) reads writable args) s s' \<and>
        s_main s' = MainDone (server_run writable clock args (sent @ [shutdown_message]) b) \<and>
        map unstamped sent = map unstamped (build_workload args))) \<and>
    (reaches (server_step naive_ops reads writable args) (server_start naive_start b t) u \<longrightarrow>
      (\<exists>u' sent clock. reaches (server_step naive_ops reads writable args) u u' \<and>
        s_main u' = MainDone (server_run writable clock args (sent @ [shutdown_message]) b) \<and>
        map unstamped sent = map unstamped (build_workload args)))"
  using cached_server.server_completes [OF assms(3,2) _ assms(1)]
    uncached_server.server_completes [OF assms(3,2) _ assms(1)]
    naive_server.server_completes [OF assms(3,2) _ assms(1)]
  by (cases cached) (auto simp: cached_server.fits_def naive_server.fits_def in_budget_def)

theorem server_threads_complete_witness:
  "\<exists>s sent clock. reaches two_step two_start s \<and>
    s_main s = MainDone (server_run (\<lambda>_. True) clock two_messages (sent @ [shutdown_message]) blank_bitset) \<and>
    map unstamped sent = map unstamped (build_workload two_messages)"
proof -
  have "reaches two_step two_start two_start" by (rule reaches_refl)
  with two_fit conjunct1 [OF server_threads_complete [where args = two_messages and cached = True and
      writable = "\<lambda>_. True" and t = "tick 0" and s = two_start, OF blank_shaped(1) later_clock]]
  show ?thesis by blast
qed

text \<open>
  C31. However the threads have been interleaved, a run that has finished has, under the conditions of
  C29, computed what the sequential model computes: its result is \<open>server_run\<close> on the messages
  received, which are the whole stamped workload and the shutdown message.
\<close>

theorem server_threads_result:
  assumes "array_shaped b" and "monotone_clock reads"
  shows "(unat (workload args) < 2 * kQueueCapacity \<and>
      reaches (server_step (spsc_ops cached kQueueCapacity) reads writable args)
        (server_start (spsc_start zero_message kQueueCapacity) b t) s \<and> s_main s = MainDone r \<longrightarrow>
      (\<exists>sent clock. map unstamped sent = map unstamped (build_workload args) \<and>
        paced (pacing_ns args) (map m_timestamp sent) \<and> popped (s_queue s) = sent @ [shutdown_message] \<and>
        r = server_run writable clock args (sent @ [shutdown_message]) b)) \<and>
    (reaches (server_step naive_ops reads writable args) (server_start naive_start b t) u \<and> s_main u = MainDone r \<longrightarrow>
      (\<exists>sent clock. map unstamped sent = map unstamped (build_workload args) \<and>
        paced (pacing_ns args) (map m_timestamp sent) \<and> taken_out (s_queue u) = sent @ [shutdown_message] \<and>
        r = server_run writable clock args (sent @ [shutdown_message]) b))"
  using cached_server.server_result [OF cached_server.server_reachable [OF assms]]
    uncached_server.server_result [OF uncached_server.server_reachable [OF assms]]
    naive_server.server_result [OF naive_server.server_reachable [OF assms]]
  by (cases cached) (auto simp: cached_server.fits_def naive_server.fits_def in_budget_def)

theorem server_threads_result_witness:
  "\<exists>s sent clock. reaches two_step two_start s \<and> popped (s_queue s) = sent @ [shutdown_message] \<and>
    paced 20 (map m_timestamp sent) \<and>
    s_main s = MainDone (server_run (\<lambda>_. True) clock two_messages (sent @ [shutdown_message]) blank_bitset)"
proof -
  obtain s r where s: "reaches two_step two_start s" "s_main s = MainDone r" using two_finish by blast
  with server_threads_result [OF blank_shaped(1) later_clock(1)] two_fit obtain sent clock where
    "paced (pacing_ns two_messages) (map m_timestamp sent)" "popped (s_queue s) = sent @ [shutdown_message]"
    "r = server_run (\<lambda>_. True) clock two_messages (sent @ [shutdown_message]) blank_bitset" by blast
  then show ?thesis using s by (auto simp: two_messages_def)
qed

text \<open>
  C32. \<open>server\<close> as a process, when the clock lets the calibration of the banner end. With arguments it
  takes, once the queue of the chosen kind has delivered the stamped workload and the shutdown
  message, it has printed the banner and the settings in force, and: it ends with code 1 and a message
  on \<open>std::cerr\<close> when a dump is asked for and cannot be opened; else it indexes out of range when the
  workload is 0; else it has also printed the quantiles of the latencies and ends with code 0, with
  nothing on \<open>std::cerr\<close>. Arguments it rejects end it with code 1, and the reason and the usage are on
  \<open>std::cerr\<close>. It always ends as \<open>server_main\<close>, the model of \<open>main\<close> without output, has it. The key
  \<open>matching core\<close> fills its column, so the number that follows it is not set off.
\<close>

theorem server_program_output:
  assumes "calibrates (h_clock h)" and "array_shaped b"
  shows "(\<forall>args sent. parse_args argv = Inr args \<and> map unstamped sent = map unstamped (build_workload args) \<and>
      delivered (select_queue args) = sent @ [shutdown_message] \<longrightarrow>
      (\<exists>os err ghz. if dump_path args \<noteq> [] \<and> \<not> writable (dump_path args) then
        server_program h env writable clock prog argv delivered b = Some (Exited 1, os, err) \<and>
        os_text os = intro_text h env args ghz \<and> os_text err = line (''failed to write --dump-latencies: '' @ dump_path args)
      else if workload args = 0 then
        server_program h env writable clock prog argv delivered b = Some (Undefined OutOfBounds, os, new_stream) \<and>
        os_text os = intro_text h env args ghz
      else \<exists>ps. server_program h env writable clock prog argv delivered b = Some (Exited 0, os, new_stream) \<and>
        os_text os = intro_text h env args ghz @ report_text ps \<and>
        quantiles_of (e2e_ns clock 0 sent) (take 3 ps) \<and> quantiles_of (queue_ns clock 0 sent) (drop 3 ps))) \<and>
    (parse_args argv = Inl Rejected \<longrightarrow>
      (\<exists>err why. server_program h env writable clock prog argv delivered b = Some (Exited 1, new_stream, err) \<and>
        os_text err = line why @ usage_text prog)) \<and>
    map_option fst (server_program h env writable clock prog argv delivered b) = server_main writable clock argv delivered b \<and>
    (\<forall>v. setting_line (''matching core'', v) = line (''  matching core'' @ v))"
  by (intro conjI allI impI server_program_outcome server_program_rejects server_program_ends assms)
    (auto simp: setting_line_def spaces_def)

theorem server_program_output_witness:
  "(\<exists>os s ps. server_program sample_host (\<lambda>_. None) (\<lambda>_. True) tick ''server'' []
      (\<lambda>_. build_workload default_args @ [shutdown_message]) blank_bitset = Some (Exited 0, os, new_stream) \<and>
      os_text os = s @ report_text ps) \<and>
   (\<exists>err why. server_program sample_host (\<lambda>_. None) (\<lambda>_. True) tick ''server'' [''--bogus'']
      (\<lambda>_. []) blank_bitset = Some (Exited 1, new_stream, err) \<and> os_text err = line why @ usage_text ''server'')"
proof
  have "parse_args [] = Inr default_args" "parse_args [''--bogus''] = Inl Rejected"
    by (simp_all add: parse_args_def known_mode_def default_args_def)
  moreover have "workload default_args \<noteq> 0" "dump_path default_args = []" by (simp_all add: default_args_def)
  moreover note server_program_output [OF sample_host_calibrates blank_shaped(1), where writable = "\<lambda>_. True" and clock = tick and
      env = "\<lambda>_. None" and prog = "''server''"]
  ultimately show "\<exists>os s ps. server_program sample_host (\<lambda>_. None) (\<lambda>_. True) tick ''server'' []
      (\<lambda>_. build_workload default_args @ [shutdown_message]) blank_bitset = Some (Exited 0, os, new_stream) \<and>
      os_text os = s @ report_text ps"
    "\<exists>err why. server_program sample_host (\<lambda>_. None) (\<lambda>_. True) tick ''server'' [''--bogus'']
      (\<lambda>_. []) blank_bitset = Some (Exited 1, new_stream, err) \<and> os_text err = line why @ usage_text ''server''"
    by (metis append.assoc, metis)
qed

section \<open>Core selection\<close>

text \<open>
  C33. The core taken from the environment: a decimal number that fits in a \<open>long\<close> is taken and
  narrowed to \<open>int\<close>, the default when the variable is not set or empty. The test for a negative value
  comes before the narrowing, so 4294967295 gives core \<open>-1\<close>, which no CPU set contains.
\<close>

theorem bench_core_configured:
  assumes "n \<le> 9223372036854775807"
  shows "(env name = Some (decimal n) \<longrightarrow> configured_bench_core env name d = cast_int (int n) \<and>
      (n < 2147483648 \<longrightarrow> configured_bench_core env name d = int n) \<and>
      (n = 4294967295 \<longrightarrow> configured_bench_core env name d = -1 \<and> cpu_set (configured_bench_core env name d) = {})) \<and>
    (env name = None \<or> env name = Some [] \<longrightarrow> configured_bench_core env name d = d)"
  using configured_decimal [OF _ assms, of env name d] configured_small [of env name n d] configured_truncates [of env name d]
  by (auto simp: configured_bench_core_def cpu_set_def)

theorem bench_core_configured_witness:
  "network_bench_core [''LOBOOK_NETWORK_CORE'' \<mapsto> decimal 3] = 3 \<and>
   network_bench_core [''LOBOOK_NETWORK_CORE'' \<mapsto> decimal 4294967295] = -1 \<and>
   matching_bench_core [''LOBOOK_NETWORK_CORE'' \<mapsto> decimal 3] = 2"
proof -
  let ?env = "\<lambda>n. [''LOBOOK_NETWORK_CORE'' \<mapsto> decimal n]"
  show ?thesis
    using bench_core_configured [of 3 "?env 3" "''LOBOOK_NETWORK_CORE''"]
      bench_core_configured [of 4294967295 "?env 4294967295" "''LOBOOK_NETWORK_CORE''"]
      bench_core_configured [of 3 "?env 3" "''LOBOOK_MATCHING_CORE''"]
    by (simp add: network_bench_core_def matching_bench_core_def kDefaultMatchingBenchCore_def cast_int_def)
qed

section \<open>The benchmarks\<close>

text \<open>
  C34. The first two scenarios of \<open>benchmark_book.cpp\<close> on both array books: the sweeping order and the
  buys one by one return, and leave an empty book with every slot free. So \<open>main\<close>, when the clock lets
  the calibration of its banner end, gets as far as the two churns, and when they return what it has
  printed is the banner, the settings and for each scenario its section, its rates and its counters,
  in order.
\<close>

theorem scenarios_empty_book:
  assumes "array_shaped b" and "array_shaped f"
  shows "returns (scenario_sparse bitset_ops b) (\<lambda>b'. \<exists>a. bitset_refines b' a \<and> all_free a) \<and>
    returns (scenario_sparse fast_ops f) (\<lambda>f'. \<exists>a. refines f' a \<and> all_free a) \<and>
    returns (scenario_wide bitset_ops b) (\<lambda>b'. \<exists>a. bitset_refines b' a \<and> all_free a) \<and>
    returns (scenario_wide fast_ops f) (\<lambda>f'. \<exists>a. refines f' a \<and> all_free a) \<and>
    (calibrates (h_clock h) \<longrightarrow> (\<exists>f' b' os ghz t. array_shaped f' \<and> array_shaped b' \<and>
      book_program h now pr draw price_dist seeded f b =
        ebind (scenario_churn fast_ops draw price_dist seeded f') (\<lambda>_.
        ebind (scenario_churn bitset_ops draw price_dist seeded b') (\<lambda>_. ret os)) \<and>
      os_text os = banner_text h ''FastBook vs BitsetBook'' ghz @ concat (map setting_line book_settings) @ t \<and>
      in_order (book_texts now pr) t))"
  by (intro conjI impI book_program_prints assms bitset_bench.sparse_empties fast_bench.sparse_empties
      bitset_bench.wide_empties fast_bench.wide_empties)

theorem scenarios_empty_book_witness:
  "returns (scenario_sparse bitset_ops blank_bitset) (\<lambda>b'. \<exists>a. bitset_refines b' a \<and> all_free a) \<and>
   returns (scenario_wide fast_ops blank_fast) (\<lambda>f'. \<exists>a. refines f' a \<and> all_free a) \<and>
   (\<exists>f' b' os. book_program sample_host (\<lambda>k i. int i) (\<lambda>k. no_counters) (\<lambda>g. (g, g + 1)) (\<lambda>g. (0, g)) (123 :: u32)
      blank_fast blank_bitset =
      ebind (scenario_churn fast_ops (\<lambda>g. (g, g + 1)) (\<lambda>g. (0, g)) 123 f') (\<lambda>_.
      ebind (scenario_churn bitset_ops (\<lambda>g. (g, g + 1)) (\<lambda>g. (0, g)) 123 b') (\<lambda>_. ret os)))"
  using scenarios_empty_book [OF blank_shaped, of sample_host "\<lambda>k i. int i" "\<lambda>k. no_counters" "\<lambda>g. (g, g + 1)"
      "\<lambda>g. (0, g)" "123 :: u32"] sample_host_calibrates by blast

text \<open>
  C35. What the churn scenario asks of a book, whatever the generator draws as long as the
  distribution of prices keeps to its bounds: 100000 commands in which every submit has a new id
  within the pool and a price on the ladder, and every cancel an id that was submitted and not
  cancelled since.
\<close>

theorem churn_well_issued:
  assumes "\<forall>g. unat (fst (price_dist g)) < MAX_PRICES"
  shows "\<exists>cs. length cs = kChurnOps \<and> well_issued {} {} cs \<and>
    scenario_churn ops draw price_dist seeded b = ebind (bo_init ops b kMaxOrders) (run_commands ops cs)"
  using assms by (rule scenario_churn_commands)

theorem churn_well_issued_witness:
  "\<exists>cs. length cs = kChurnOps \<and> well_issued {} {} cs \<and>
    scenario_churn bitset_ops (\<lambda>g. (g, g + 1)) (\<lambda>g. (ucast (g mod 100000), g + 1)) (0 :: u32) blank_bitset =
      ebind (bo_init bitset_ops blank_bitset kMaxOrders) (run_commands bitset_ops cs)"
  by (rule churn_well_issued) (simp add: MAX_PRICES_def unat_mod)

text \<open>
  C37. \<open>benchmark_replace.cpp\<close> compares like with like, whatever its distributions draw within their
  bounds: replacing the orders and cancelling and resubmitting them both return, and leave the same
  side, price and quantity for each of the 10000 orders, those of the last operation on it. When the
  clock lets the two calibrations end, \<open>main\<close> ends, and prints the rates and counters of each scenario
  and how the second divides between its two calls.
\<close>

theorem replace_scenarios_agree:
  assumes "uniform_in_bounds R" and "array_shaped b"
  shows "returns (replace_main R op_rng seed_rng b) (\<lambda>(b1, b2). \<exists>a1 a2. bitset_refines b1 a1 \<and> bitset_refines b2 a2 \<and>
    open_orders a1 = open_orders a2 \<and> dom (open_orders a1) = {..<kLiveOrders} \<and>
    open_orders a1 = fold op_effect (generate_ops R kNumOps op_rng)
      (seed_orders R [0..<kLiveOrders] seed_rng Map.empty)) \<and>
    (calibrates (h_clock h) \<and> calibrates (fst cal) \<longrightarrow>
      returns (replace_program h cal now pr tsc R mt19937 b) (\<lambda>os. \<exists>ghz c d t.
        calibrate_tsc (fst cal) (snd cal) 50000000 = Some (c, d) \<and>
        os_text os = banner_text h ''replace_order vs cancel + submit'' ghz @ concat (map setting_line replace_settings) @ t \<and>
        in_order (replace_texts now pr tsc (c, d)) t))"
  using replace_main_returns [OF assms] replace_program_prints [OF assms] by blast

theorem replace_scenarios_agree_witness:
  "returns (replace_main \<lparr>mt_draw = (\<lambda>g. (g, g + 1)), uniform64 = (\<lambda>lo hi g. (lo, g)), uniform32 = (\<lambda>lo hi g. (lo, g))\<rparr>
     123 (124 :: u32) blank_bitset) (\<lambda>(b1, b2). \<exists>a1 a2. bitset_refines b1 a1 \<and> bitset_refines b2 a2 \<and>
     open_orders a1 = open_orders a2)"
proof -
  have "uniform_in_bounds \<lparr>mt_draw = (\<lambda>g. (g, g + 1)), uniform64 = (\<lambda>lo hi g. (lo, g)), uniform32 = (\<lambda>lo hi g. (lo, g :: u32))\<rparr>"
    by (simp add: uniform_in_bounds_def)
  then show ?thesis by (rule returns_mono [OF conjunct1 [OF replace_scenarios_agree [OF _ blank_shaped(1)]]]) auto
qed

text \<open>
  C38. When the clock lets the calibration end, \<open>benchmark_clock.cpp\<close> ends and prints, after its
  banner and settings, five of the million time differences it has sorted, in ascending order: no
  index is out of range, the first is the lower median, the last the largest.
\<close>

theorem clock_program_correct:
  assumes "calibrates (h_clock h)"
  shows "returns (clock_program h clock) (\<lambda>os. \<exists>ghz rs. length rs = 5 \<and> sorted rs \<and> set rs \<subseteq> set (clock_deltas clock) \<and>
    rs ! 0 = sort (clock_deltas clock) ! 499999 \<and> (\<forall>x \<in> set (clock_deltas clock). x \<le> rs ! 4) \<and>
    os_text os = banner_text h ''clock_gettime overhead'' ghz @
      concat (map setting_line [(''clock'', ''CLOCK_MONOTONIC_RAW''), (''samples'', decimal kSamples)]) @
      section_text ''results'' @ clock_lines rs @ done_text)"
  using assms by (rule clock_program_prints)

theorem clock_program_correct_witness:
  "returns (clock_program sample_host tick) (\<lambda>os. \<exists>s rs. length rs = 5 \<and> sorted rs \<and> os_text os = s @ clock_lines rs @ done_text)"
  by (rule returns_mono [OF clock_program_correct [OF sample_host_calibrates]]) (metis append.assoc)

text \<open>
  C39. What the benchmarks compute in \<open>double\<close> for a phase of at least one operation, and print on a
  stream whose manipulators are at rest, is right up to half a unit of the last decimal and a relative
  error of \<open>2 ^ -48\<close>, when the clock lets the calibration end: the calibrated frequency and the split
  of the cycles by it, the milliseconds, operations per second and nanoseconds per operation of a
  timed phase, and the eight numbers of the hardware counters, whose divisions are all guarded. The
  rate of a phase in which the clock has not moved is printed as \<open>inf\<close>.
\<close>

theorem rates_printed:
  assumes "settled os" and "0 < n" and "calibrates clock"
  shows "(\<exists>c d hz. calibrate_tsc clock tsc 50000000 = Some (c, d) \<and> calibrate_tsc_hz clock tsc 50000000 = Some hz \<and>
      about 5 (of_nat (unat c) * 10 ^ 9 / of_nat (unat d)) hz \<and>
      (\<forall>spent. c = 0 \<or> shown 2 (of_nat (unat spent) / of_nat kNumOps * of_nat (unat d) / of_nat (unat c))
        (double_text 2 (split_ns spent hz)))) \<and>
    (\<forall>t D. \<exists>ms mops ns. os_text (print_runtime (elapsed_ms t (started_at t + int D)) n os) = os_text os @ runtime_line ms mops ns \<and>
      (if D = 0 then ms = ''0.000'' \<and> mops = ''inf'' \<and> ns = ''0.00''
       else shown 3 (of_nat D / 10 ^ 6) ms \<and> shown 2 (of_nat n * 10 ^ 3 / of_nat D) mops \<and> shown 2 (of_nat D / of_nat n) ns)) \<and>
    (\<forall>rd pcs. pc_available (instructions pcs) \<longrightarrow>
      (\<exists>ts. os_text (print_summary rd pcs n os) = os_text os @ summary_text (os_left os) ts \<and>
        list_all2 (shown 2) (summary_numbers rd pcs n) ts))"
proof (intro conjI allI impI)
  obtain c d where cd: "calibrate_tsc clock tsc 50000000 = Some (c, d)" "50000000 \<le> d" using calibrates_returns [OF assms(3)] by blast
  then have "0 < d" by (auto simp: word_le_nat_alt word_less_nat_alt)
  from cd(1) calibrate_tsc_hz_about [OF cd(1) this] split_ns_shown [OF cd(1) _ this]
  show "\<exists>c d hz. calibrate_tsc clock tsc 50000000 = Some (c, d) \<and> calibrate_tsc_hz clock tsc 50000000 = Some hz \<and>
      about 5 (of_nat (unat c) * 10 ^ 9 / of_nat (unat d)) hz \<and>
      (\<forall>spent. c = 0 \<or> shown 2 (of_nat (unat spent) / of_nat kNumOps * of_nat (unat d) / of_nat (unat c))
        (double_text 2 (split_ns spent hz)))"
    using word_gt_0 by blast
qed (use assms runtime_printed print_summary_text in blast)+

theorem rates_printed_witness:
  "\<exists>ms mops ns. os_text (print_runtime (elapsed_ms (timer_reset 5) 2000005) 1000 new_stream) = runtime_line ms mops ns \<and>
     shown 3 2 ms \<and> shown 2 (1 / 2) mops \<and> shown 2 2000 ns"
proof -
  have "0 < (1000 :: nat)" by simp
  from conjunct1 [OF conjunct2 [OF rates_printed [OF new_stream_simps(1) this tick_calibrates, of "\<lambda>_. 0"]], THEN spec,
      of "timer_reset 5", THEN spec, of 2000000]
  show ?thesis by (simp add: timer_reset_def)
qed

text \<open>
  C40. \<open>read_proc_cpuinfo_field\<close> gives what follows the colon and blanks in the first line that starts
  with the field and has a colon, and nothing when there is no such line.
\<close>

theorem cpuinfo_field:
  assumes "CHR '':'' \<notin> set (field @ gap)" and "\<forall>c \<in> set blanks. is_blank c" and "v \<noteq> []" and "\<not> is_blank (hd v)"
    and "\<forall>l \<in> set before. \<not> has_field field l"
  shows "(fs ''/proc/cpuinfo'' = Some (before @ (field @ gap @ CHR '':'' # blanks @ v) # after) \<longrightarrow>
      read_proc_cpuinfo_field fs field = v) \<and>
    (fs ''/proc/cpuinfo'' = Some before \<or> fs ''/proc/cpuinfo'' = None \<longrightarrow> read_proc_cpuinfo_field fs field = [])"
  using read_field_found [OF _ assms(5,1,2,3,4)] read_field_missing [OF _ assms(5)]
  by (auto simp: read_proc_cpuinfo_field_def)

theorem cpuinfo_field_witness:
  "read_proc_cpuinfo_field [''/proc/cpuinfo'' \<mapsto> [''model : 1'', ''model name : x y'']] ''model name'' = ''x y''"
  using cpuinfo_field [of "''model name''" "'' ''" "'' ''" "''x y''" "[''model : 1'']"
      "[''/proc/cpuinfo'' \<mapsto> [''model : 1'', ''model name : x y'']]" "[]"]
  by (simp add: is_blank_def has_field_def)

end
